(* ===== verification/Prelude.thy ===== *)
theory Prelude
  imports Main "HOL-Library.List_Lexorder" "HOL-Library.Product_Lexorder" "HOL-Library.Sublist"
begin

text \<open>
  The shared base of the development.

  Text.  A Rust \<^verbatim>\<open>char\<close> is a Unicode scalar value, modelled by its code point
  (\<open>rchar\<close>); a \<^verbatim>\<open>str\<close> or \<^verbatim>\<open>String\<close> is the list of its scalar values
  (\<open>rstr\<close>).  The order of \<open>rstr\<close> is the lexicographic one of List_Lexorder, which is the
  order Rust gives strings: UTF-8 keeps the order of the code points.  An ASCII literal is
  written \<open>u ''abc''\<close>.

  Results.  A fallible function returns \<open>'e + 'a\<close>, with \<open>Err\<close> and \<open>Ok\<close> as names
  for the two injections.

  Containers.  A \<^verbatim>\<open>BTreeMap\<close> is its association list in strictly ascending key order,
  the order in which the Rust code iterates it; \<open>bt_insert\<close> and \<open>bt_lookup\<close> are its
  operations.
\<close>

type_synonym rchar = nat
type_synonym rstr = "rchar list"

primrec u :: "string \<Rightarrow> rstr" where
  "u [] = []"
| "u (c # cs) = of_char c # u cs"

abbreviation Ok :: "'a \<Rightarrow> 'e + 'a" where "Ok \<equiv> Inr"
abbreviation Err :: "'e \<Rightarrow> 'e + 'a" where "Err \<equiv> Inl"

fun rbind :: "'e + 'a \<Rightarrow> ('a \<Rightarrow> 'e + 'b) \<Rightarrow> 'e + 'b" where
  "rbind (Inl e) f = Inl e"
| "rbind (Inr x) f = f x"

fun rmap :: "('a \<Rightarrow> 'b) \<Rightarrow> 'e + 'a \<Rightarrow> 'e + 'b" where
  "rmap f (Inl e) = Inl e"
| "rmap f (Inr x) = Inr (f x)"

fun is_ok :: "'e + 'a \<Rightarrow> bool" where
  "is_ok (Inl _) = False"
| "is_ok (Inr _) = True"

text \<open>Sequencing a fallible function over a list, stopping at the first error.\<close>

fun rmapM :: "('a \<Rightarrow> 'e + 'b) \<Rightarrow> 'a list \<Rightarrow> 'e + 'b list" where
  "rmapM f [] = Inr []"
| "rmapM f (x # xs) = (case f x of Inl e \<Rightarrow> Inl e
     | Inr y \<Rightarrow> (case rmapM f xs of Inl e \<Rightarrow> Inl e | Inr ys \<Rightarrow> Inr (y # ys)))"

section \<open>Character classes\<close>

abbreviation c_slash :: rchar where "c_slash \<equiv> 47"
abbreviation c_colon :: rchar where "c_colon \<equiv> 58"
abbreviation c_space :: rchar where "c_space \<equiv> 32"
abbreviation c_at :: rchar where "c_at \<equiv> 64"
abbreviation c_pipe :: rchar where "c_pipe \<equiv> 124"
abbreviation c_quote :: rchar where "c_quote \<equiv> 34"
abbreviation c_comma :: rchar where "c_comma \<equiv> 44"
abbreviation c_eq :: rchar where "c_eq \<equiv> 61"
abbreviation c_backslash :: rchar where "c_backslash \<equiv> 92"
abbreviation c_dot :: rchar where "c_dot \<equiv> 46"
abbreviation c_dash :: rchar where "c_dash \<equiv> 45"
abbreviation c_underscore :: rchar where "c_underscore \<equiv> 95"
abbreviation c_newline :: rchar where "c_newline \<equiv> 10"

definition is_ascii_digit :: "rchar \<Rightarrow> bool" where
  "is_ascii_digit c \<longleftrightarrow> 48 \<le> c \<and> c \<le> 57"

definition is_ascii_lowercase :: "rchar \<Rightarrow> bool" where
  "is_ascii_lowercase c \<longleftrightarrow> 97 \<le> c \<and> c \<le> 122"

definition is_ascii_uppercase :: "rchar \<Rightarrow> bool" where
  "is_ascii_uppercase c \<longleftrightarrow> 65 \<le> c \<and> c \<le> 90"

definition is_ascii_alphabetic :: "rchar \<Rightarrow> bool" where
  "is_ascii_alphabetic c \<longleftrightarrow> is_ascii_lowercase c \<or> is_ascii_uppercase c"

definition is_ascii_alphanumeric :: "rchar \<Rightarrow> bool" where
  "is_ascii_alphanumeric c \<longleftrightarrow> is_ascii_alphabetic c \<or> is_ascii_digit c"

text \<open>\<^verbatim>\<open>char::is_whitespace\<close>: the Unicode property \<^verbatim>\<open>White_Space\<close>.\<close>

definition is_whitespace :: "rchar \<Rightarrow> bool" where
  "is_whitespace c \<longleftrightarrow> (9 \<le> c \<and> c \<le> 13) \<or> c = 32 \<or> c = 133 \<or> c = 160 \<or> c = 5760
     \<or> (8192 \<le> c \<and> c \<le> 8202) \<or> c = 8232 \<or> c = 8233 \<or> c = 8239 \<or> c = 8287 \<or> c = 12288"

text \<open>\<^verbatim>\<open>char::is_control\<close>: the general category \<^verbatim>\<open>Cc\<close>.\<close>

definition is_control :: "rchar \<Rightarrow> bool" where
  "is_control c \<longleftrightarrow> c \<le> 31 \<or> (127 \<le> c \<and> c \<le> 159)"

lemmas char_class_defs = is_ascii_digit_def is_ascii_lowercase_def is_ascii_uppercase_def
  is_ascii_alphabetic_def is_ascii_alphanumeric_def is_whitespace_def is_control_def

text \<open>\<^verbatim>\<open>char::len_utf8\<close> and \<^verbatim>\<open>str::len\<close>.\<close>

definition len_utf8 :: "rchar \<Rightarrow> nat" where
  "len_utf8 c = (if c < 128 then 1 else if c < 2048 then 2 else if c < 65536 then 3 else 4)"

definition byte_len :: "rstr \<Rightarrow> nat" where
  "byte_len s = sum_list (map len_utf8 s)"

section \<open>Splitting, joining and stripping\<close>

text \<open>\<^verbatim>\<open>str::split(char)\<close>: one more piece than there are separators.\<close>

fun split_on :: "'a \<Rightarrow> 'a list \<Rightarrow> 'a list list" where
  "split_on c [] = [[]]"
| "split_on c (x # xs) =
     (if x = c then [] # split_on c xs
      else (case split_on c xs of [] \<Rightarrow> [[x]] | w # ws \<Rightarrow> (x # w) # ws))"

text \<open>\<^verbatim>\<open>[&str]::join\<close> with a one-character separator.\<close>

fun join_with :: "'a \<Rightarrow> 'a list list \<Rightarrow> 'a list" where
  "join_with c [] = []"
| "join_with c [w] = w"
| "join_with c (w # v # ws) = w @ c # join_with c (v # ws)"

fun strip_prefix :: "'a list \<Rightarrow> 'a list \<Rightarrow> 'a list option" where
  "strip_prefix [] xs = Some xs"
| "strip_prefix (p # ps) [] = None"
| "strip_prefix (p # ps) (x # xs) = (if p = x then strip_prefix ps xs else None)"

definition strip_suffix :: "'a list \<Rightarrow> 'a list \<Rightarrow> 'a list option" where
  "strip_suffix p xs = map_option rev (strip_prefix (rev p) (rev xs))"

definition starts_with :: "'a list \<Rightarrow> 'a list \<Rightarrow> bool" where
  "starts_with p xs \<longleftrightarrow> strip_prefix p xs \<noteq> None"

definition ends_with :: "'a list \<Rightarrow> 'a list \<Rightarrow> bool" where
  "ends_with p xs \<longleftrightarrow> strip_suffix p xs \<noteq> None"

text \<open>\<^verbatim>\<open>str::split_once\<close> and \<^verbatim>\<open>str::rsplit_once\<close> at a character.\<close>

fun split_once :: "'a \<Rightarrow> 'a list \<Rightarrow> ('a list \<times> 'a list) option" where
  "split_once c [] = None"
| "split_once c (x # xs) = (if x = c then Some ([], xs)
     else map_option (\<lambda>(a, b). (x # a, b)) (split_once c xs))"

fun rsplit_once :: "'a \<Rightarrow> 'a list \<Rightarrow> ('a list \<times> 'a list) option" where
  "rsplit_once c [] = None"
| "rsplit_once c (x # xs) = (case rsplit_once c xs of
     Some (a, b) \<Rightarrow> Some (x # a, b)
   | None \<Rightarrow> if x = c then Some ([], xs) else None)"

definition trim_start_matches :: "('a \<Rightarrow> bool) \<Rightarrow> 'a list \<Rightarrow> 'a list" where
  "trim_start_matches P xs = dropWhile P xs"

definition trim_end_matches :: "('a \<Rightarrow> bool) \<Rightarrow> 'a list \<Rightarrow> 'a list" where
  "trim_end_matches P xs = rev (dropWhile P (rev xs))"

definition trim :: "rstr \<Rightarrow> rstr" where
  "trim s = trim_end_matches is_whitespace (trim_start_matches is_whitespace s)"

text \<open>\<^verbatim>\<open>slice::get\<close> and \<^verbatim>\<open>Iterator::nth\<close>.\<close>

definition get_at :: "'a list \<Rightarrow> nat \<Rightarrow> 'a option" where
  "get_at xs i = (if i < length xs then Some (xs ! i) else None)"

text \<open>\<^verbatim>\<open>str::lines\<close>: the carriage return of a line that a newline ends is part of its ending.\<close>

definition text_lines :: "rstr \<Rightarrow> rstr list" where
  "text_lines s = (let ls = split_on c_newline s
     in map (\<lambda>l. case strip_suffix [13] l of Some l' \<Rightarrow> l' | None \<Rightarrow> l) (butlast ls) @ (if last ls = [] then [] else [last ls]))"

section \<open>Ordered maps\<close>

fun bt_lookup :: "('k \<times> 'v) list \<Rightarrow> 'k \<Rightarrow> 'v option" where
  "bt_lookup [] k = None"
| "bt_lookup ((k', v) # m) k = (if k = k' then Some v else bt_lookup m k)"

fun bt_insert :: "'k::linorder \<Rightarrow> 'v \<Rightarrow> ('k \<times> 'v) list \<Rightarrow> ('k \<times> 'v) list" where
  "bt_insert k v [] = [(k, v)]"
| "bt_insert k v ((k', v') # m) =
     (if k < k' then (k, v) # (k', v') # m
      else if k = k' then (k, v) # m
      else (k', v') # bt_insert k v m)"

definition bt_of_list :: "('k::linorder \<times> 'v) list \<Rightarrow> ('k \<times> 'v) list" where
  "bt_of_list kvs = fold (\<lambda>(k, v) m. bt_insert k v m) kvs []"

definition bt_ok :: "('k::linorder \<times> 'v) list \<Rightarrow> bool" where
  "bt_ok m \<longleftrightarrow> sorted_wrt (<) (map fst m)"

section \<open>Lemmas on splitting and joining\<close>

lemma split_on_ne [simp]: "split_on c xs \<noteq> []"
  by (cases xs) (auto split: list.splits)

lemma split_on_not_in [simp]: "c \<notin> set xs \<Longrightarrow> split_on c xs = [xs]"
  by (induction xs) auto

lemma split_on_append: "split_on c (xs @ c # ys) = split_on c xs @ split_on c ys"
  by (induction xs) (auto split: list.splits)

lemma split_on_pieces: "w \<in> set (split_on c xs) \<Longrightarrow> c \<notin> set w"
proof (induction xs arbitrary: w)
  case (Cons x xs)
  then show ?case
    by (cases "split_on c xs") (auto split: if_splits)
qed simp

lemma split_on_subset: "w \<in> set (split_on c xs) \<Longrightarrow> set w \<subseteq> set xs"
proof (induction xs arbitrary: w)
  case (Cons x xs)
  obtain w' ws where *: "split_on c xs = w' # ws"
    by (cases "split_on c xs") auto
  show ?case
    using Cons.prems Cons.IH [of w'] Cons.IH [of w] * by (auto split: if_splits)
qed simp

lemma join_with_split_on [simp]: "join_with c (split_on c xs) = xs"
proof (induction xs)
  case (Cons x xs)
  obtain w ws where *: "split_on c xs = w # ws"
    by (cases "split_on c xs") auto
  with Cons show ?case by (cases ws) auto
qed simp

lemma split_on_join_with:
  "ws \<noteq> [] \<Longrightarrow> \<forall>w\<in>set ws. c \<notin> set w \<Longrightarrow> split_on c (join_with c ws) = ws"
  by (induction c ws rule: join_with.induct) (auto simp: split_on_append)

lemma join_with_append:
  "xs \<noteq> [] \<Longrightarrow> ys \<noteq> [] \<Longrightarrow> join_with c (xs @ ys) = join_with c xs @ c # join_with c ys"
proof (induction c xs rule: join_with.induct)
  case (2 c w)
  then show ?case by (cases ys) auto
qed auto

lemma set_join_with: "set (join_with c ws) \<subseteq> insert c (\<Union> (set ` set ws))"
  by (induction c ws rule: join_with.induct) auto

lemma join_with_eq_Nil: "join_with c ws = [] \<longleftrightarrow> ws = [] \<or> ws = [[]]"
  by (induction c ws rule: join_with.induct) auto

lemma strip_prefix_Some: "strip_prefix p xs = Some ys \<longleftrightarrow> xs = p @ ys"
  by (induction p xs rule: strip_prefix.induct) auto

lemma strip_prefix_None: "strip_prefix p xs = None \<longleftrightarrow> \<not> prefix p xs"
  by (induction p xs rule: strip_prefix.induct) auto

lemma strip_prefix_append [simp]: "strip_prefix p (p @ ys) = Some ys"
  by (simp add: strip_prefix_Some)

lemma strip_suffix_Some: "strip_suffix p xs = Some ys \<longleftrightarrow> xs = ys @ p"
  by (auto simp: strip_suffix_def strip_prefix_Some rev_swap)

lemma starts_with_iff: "starts_with p xs \<longleftrightarrow> prefix p xs"
  by (simp add: starts_with_def strip_prefix_None)

lemma ends_with_iff: "ends_with p xs \<longleftrightarrow> suffix p xs"
  by (simp add: ends_with_def strip_suffix_def strip_prefix_None suffix_to_prefix)

lemma split_once_Some:
  "split_once c xs = Some (a, b) \<longleftrightarrow> xs = a @ c # b \<and> c \<notin> set a"
proof (induction xs arbitrary: a)
  case (Cons x xs)
  then show ?case by (cases a) auto
qed simp

lemma split_once_None: "split_once c xs = None \<longleftrightarrow> c \<notin> set xs"
  by (induction xs) auto

lemma rsplit_once_None: "rsplit_once c xs = None \<longleftrightarrow> c \<notin> set xs"
  by (induction xs) (auto split: option.splits)

lemma rsplit_once_append [simp]: "c \<notin> set b \<Longrightarrow> rsplit_once c (a @ c # b) = Some (a, b)"
proof (induction a)
  case Nil
  then have "rsplit_once c b = None" by (simp add: rsplit_once_None)
  then show ?case by simp
qed simp

lemma rsplit_once_SomeD: "rsplit_once c xs = Some (a, b) \<Longrightarrow> xs = a @ c # b \<and> c \<notin> set b"
proof (induction xs arbitrary: a b)
  case (Cons x xs)
  show ?case
  proof (cases "rsplit_once c xs")
    case None
    then have "c \<notin> set xs" by (simp add: rsplit_once_None)
    with None show ?thesis using Cons.prems by (auto split: if_splits)
  next
    case (Some p)
    then show ?thesis using Cons.prems Cons.IH by (cases p) auto
  qed
qed simp

lemma rsplit_once_Some: "rsplit_once c xs = Some (a, b) \<longleftrightarrow> xs = a @ c # b \<and> c \<notin> set b"
  using rsplit_once_SomeD by fastforce

lemma trim_end_matches_append:
  "\<not> P x \<Longrightarrow> trim_end_matches P (xs @ x # ys) = xs @ x # trim_end_matches P ys"
  by (simp add: trim_end_matches_def dropWhile_append3 dropWhile_append)

lemma option_ext: "(\<And>x. a = Some x \<longleftrightarrow> b = Some x) \<Longrightarrow> a = b"
  by (cases a; cases b) auto

lemma find_Some_split:
  "find P xs = Some x \<longleftrightarrow> (\<exists>good rest. xs = good @ x # rest \<and> list_all (\<lambda>y. \<not> P y) good \<and> P x)"
proof
  assume "find P xs = Some x"
  then show "\<exists>good rest. xs = good @ x # rest \<and> list_all (\<lambda>y. \<not> P y) good \<and> P x"
  proof (induction xs)
    case (Cons a xs)
    show ?case
    proof (cases "P a")
      case True
      then show ?thesis using Cons.prems by (intro exI [of _ "[]"] exI [of _ xs]) simp
    next
      case False
      then obtain good rest where "xs = good @ x # rest" "list_all (\<lambda>y. \<not> P y) good" "P x"
        using Cons by auto
      then show ?thesis using False by (intro exI [of _ "a # good"] exI [of _ rest]) simp
    qed
  qed simp
next
  have "list_all (\<lambda>y. \<not> P y) good \<Longrightarrow> P x \<Longrightarrow> find P (good @ x # rest) = Some x" for good rest
    by (induction good) auto
  then show "\<exists>good rest. xs = good @ x # rest \<and> list_all (\<lambda>y. \<not> P y) good \<and> P x \<Longrightarrow> find P xs = Some x"
    by blast
qed

section \<open>Lemmas on ordered maps\<close>

lemma bt_insert_keys [simp]: "fst ` set (bt_insert k v m) = insert k (fst ` set m)"
  by (induction k v m rule: bt_insert.induct) auto

lemma bt_ok_Nil [simp]: "bt_ok []"
  by (simp add: bt_ok_def)

lemma bt_ok_Cons: "bt_ok ((k, v) # m) \<longleftrightarrow> (\<forall>k'\<in>fst ` set m. k < k') \<and> bt_ok m"
  by (simp add: bt_ok_def)

lemma bt_ok_insert [simp]: "bt_ok m \<Longrightarrow> bt_ok (bt_insert k v m)"
proof (induction k v m rule: bt_insert.induct)
  case (2 k v k' v' m)
  then show ?case
    by (auto simp: bt_ok_Cons simp del: image_iff)
qed (simp add: bt_ok_def)

lemma bt_lookup_insert [simp]:
  "bt_lookup (bt_insert k v m) k' = (if k' = k then Some v else bt_lookup m k')"
  by (induction k v m rule: bt_insert.induct) auto

lemma bt_lookup_None: "bt_lookup m k = None \<longleftrightarrow> k \<notin> fst ` set m"
  by (induction m k rule: bt_lookup.induct) auto

lemma bt_of_list_ok [simp]: "bt_ok (bt_of_list kvs)"
proof -
  have "bt_ok m \<Longrightarrow> bt_ok (fold (\<lambda>(k, v) m. bt_insert k v m) kvs m)" for m :: "('a \<times> 'b) list"
    by (induction kvs arbitrary: m) (auto split: prod.split)
  then show ?thesis by (simp add: bt_of_list_def)
qed

lemma bt_insert_last: "\<forall>k'\<in>fst ` set m. k' < k \<Longrightarrow> bt_insert k v m = m @ [(k, v)]"
  by (induction k v m rule: bt_insert.induct) auto

text \<open>Inserting the entries of an ordered map in order rebuilds it.\<close>

lemma bt_of_list_id: "bt_ok kvs \<Longrightarrow> bt_of_list kvs = kvs"
proof -
  have "bt_ok (m @ kvs) \<Longrightarrow> fold (\<lambda>(k, v) m. bt_insert k v m) kvs m = m @ kvs" for m
  proof (induction kvs arbitrary: m)
    case (Cons kv kvs)
    obtain k v where kv: "kv = (k, v)" by force
    have "\<forall>k'\<in>fst ` set m. k' < k"
      using Cons.prems by (auto simp: kv bt_ok_def sorted_wrt_append)
    then have "bt_insert k v m = m @ [(k, v)]" by (rule bt_insert_last)
    then show ?case using Cons by (simp add: kv)
  qed simp
  from this [of "[]"] show "bt_ok kvs \<Longrightarrow> bt_of_list kvs = kvs" by (simp add: bt_of_list_def)
qed

lemma bt_ext:
  "bt_ok m \<Longrightarrow> bt_ok n \<Longrightarrow> (\<And>k. bt_lookup m k = bt_lookup n k) \<Longrightarrow> m = n"
proof (induction m arbitrary: n)
  case Nil
  show ?case
  proof (cases n)
    case (Cons kv n')
    then show ?thesis using Nil.prems(3) [of "fst kv"] by (cases kv) simp
  qed simp
next
  case (Cons kv m)
  obtain k v where kv: "kv = (k, v)" by force
  show ?case
  proof (cases n)
    case Nil
    then show ?thesis using Cons.prems(3) [of k] by (simp add: kv)
  next
    case (Cons kv' n')
    obtain k' v' where kv': "kv' = (k', v')" by force
    have km: "bt_lookup m k = None" and kn: "bt_lookup n' k' = None"
      using Cons.prems kv kv' Cons by (auto simp: bt_ok_Cons bt_lookup_None)
    have "k = k'"
    proof (rule ccontr)
      assume "k \<noteq> k'"
      then have "bt_lookup n' k \<noteq> None" "bt_lookup m k' \<noteq> None"
        using Cons.prems(3) [of k] Cons.prems(3) [of k'] kv kv' Cons by (auto split: if_splits simp: eq_commute [of "Some _"])
      then have "k \<in> fst ` set n'" "k' \<in> fst ` set m" by (auto simp: bt_lookup_None)
      then have "k' < k" "k < k'" using Cons.prems kv kv' Cons by (auto simp: bt_ok_Cons)
      then show False by simp
    qed
    moreover have "v = v'" using Cons.prems(3) [of k] kv kv' Cons \<open>k = k'\<close> by simp
    moreover have "bt_lookup m j = bt_lookup n' j" for j
      using Cons.prems(3) [of j] kv kv' Cons \<open>k = k'\<close> km kn by (cases "j = k") auto
    ultimately show ?thesis
      using Cons.IH [of n'] Cons.prems kv kv' Cons by (auto simp: bt_ok_Cons)
  qed
qed

section \<open>Results\<close>

lemma map_sum_iff: "map_sum f g z = Ok y \<longleftrightarrow> (\<exists>x. z = Ok x \<and> y = g x)" "map_sum f g z = Err e \<longleftrightarrow> (\<exists>x. z = Err x \<and> e = f x)"
  by (cases z; auto)+

section \<open>Hexadecimal numbers\<close>

text \<open>The format \<^verbatim>\<open>{:x}\<close>.\<close>

definition hex_digit :: "nat \<Rightarrow> rchar" where
  "hex_digit d = (if d < 10 then 48 + d else 87 + d)"

fun fmt_hex :: "nat \<Rightarrow> rstr" where
  "fmt_hex n = (if n < 16 then [hex_digit n] else fmt_hex (n div 16) @ [hex_digit (n mod 16)])"

declare fmt_hex.simps [simp del]

definition hex_val :: "rchar \<Rightarrow> nat" where
  "hex_val c = (if is_ascii_digit c then c - 48 else if 97 \<le> c then c - 87 else c - 55)"

lemma hex_val_digit [simp]: "d < 16 \<Longrightarrow> hex_val (hex_digit d) = d"
  by (auto simp: hex_val_def hex_digit_def is_ascii_digit_def)

lemma fmt_hex_val: "foldl (\<lambda>n c. 16 * n + hex_val c) 0 (fmt_hex n) = n"
proof (induction n rule: fmt_hex.induct)
  case (1 n)
  show ?case
  proof (cases "n < 16")
    case True
    then show ?thesis by (simp add: fmt_hex.simps)
  next
    case False
    then show ?thesis using 1 by (subst fmt_hex.simps) simp
  qed
qed

lemma fmt_hex_inj [simp]: "fmt_hex m = fmt_hex n \<longleftrightarrow> m = n"
  using fmt_hex_val by metis

lemma fmt_hex_chars: "c \<in> set (fmt_hex n) \<Longrightarrow> 48 \<le> c \<and> c \<le> 57 \<or> 97 \<le> c \<and> c \<le> 102"
proof (induction n rule: fmt_hex.induct)
  case (1 n)
  have d: "48 \<le> hex_digit m \<and> hex_digit m \<le> 57 \<or> 97 \<le> hex_digit m \<and> hex_digit m \<le> 102" if "m < 16" for m
    using that by (auto simp: hex_digit_def)
  show ?case
  proof (cases "n < 16")
    case True
    then show ?thesis using 1(2) d [of n] by (simp add: fmt_hex.simps)
  next
    case False
    then have "fmt_hex n = fmt_hex (n div 16) @ [hex_digit (n mod 16)]" by (subst fmt_hex.simps) simp
    then have "c \<in> set (fmt_hex (n div 16)) \<or> c = hex_digit (n mod 16)" using 1(2) by auto
    then show ?thesis using 1(1) [OF False] d [of "n mod 16"] by auto
  qed
qed

section \<open>Lines\<close>

lemma text_lines_Nil [simp]: "text_lines [] = []"
  by (simp add: text_lines_def)

lemma text_lines_break: "text_lines (a @ c_newline # b) = text_lines (a @ [c_newline]) @ text_lines b"
  by (simp add: text_lines_def Let_def split_on_append butlast_append)

lemma split_on_length: "length (split_on c xs) = count_list xs c + 1"
  by (induction xs) (auto split: list.splits)

lemma split_on_snoc: "x \<noteq> c \<Longrightarrow> split_on c (xs @ [x]) = butlast (split_on c xs) @ [last (split_on c xs) @ [x]]"
  by (induction xs) (auto split: list.splits)

lemma text_lines_length:
  "length (text_lines s) = count_list s c_newline + of_bool (s \<noteq> [] \<and> last s \<noteq> c_newline)"
proof (induction s rule: rev_induct)
  case (snoc x xs)
  show ?case
  proof (cases "x = c_newline")
    case True
    then show ?thesis by (simp add: text_lines_def split_on_append split_on_length)
  next
    case False
    then show ?thesis using split_on_length [of c_newline xs] by (simp add: text_lines_def split_on_snoc)
  qed
qed simp

end
