(* ===== verification/Pkg.thy ===== *)
theory Pkg
  imports Prelude
begin

text \<open>
  Packages (crates/model/src/htpkg/pkg.rs): the package path \<^verbatim>\<open>PkgBuf\<close>, its
  components, the package-prefix test every discovery prune runs, the chain of ancestor
  packages, and the checked join that resolves a relative path against a package without
  leaving the workspace root.  The lemmas give the meaning of each over the component list.
\<close>

type_synonym PkgBuf = rstr

datatype pkg_error = EscapesRoot rstr

definition components :: "PkgBuf \<Rightarrow> rstr list" where
  "components p = filter (\<lambda>s. s \<noteq> []) (split_on c_slash p)"

definition has_prefix :: "PkgBuf \<Rightarrow> PkgBuf \<Rightarrow> bool" where
  "has_prefix self p =
     (if p = [] then True
      else (case strip_prefix p self of
        Some [] \<Rightarrow> True
      | Some rest \<Rightarrow> starts_with [c_slash] rest
      | None \<Rightarrow> False))"

function parent_packages :: "PkgBuf \<Rightarrow> PkgBuf list" where
  "parent_packages cur = cur #
     (if cur = [] then []
      else parent_packages (case rsplit_once c_slash cur of Some (parent, _) \<Rightarrow> parent | None \<Rightarrow> []))"
  by auto
termination
  by (relation "measure length") (auto split: option.splits dest: rsplit_once_SomeD)

definition join_raw :: "rstr \<Rightarrow> rstr \<Rightarrow> rstr" where
  "join_raw pkg rel =
     (if pkg = [] then rel else if rel = [] then pkg else pkg @ [c_slash] @ rel)"

definition finish :: "rstr list \<Rightarrow> rstr \<Rightarrow> rstr" where
  "finish out original =
     (let s = join_with c_slash out
      in if ends_with [c_slash] original \<and> s \<noteq> [] then s @ [c_slash] else s)"

text \<open>The segment loop of \<^verbatim>\<open>join_rel_checked\<close>; \<open>None\<close> is the early return on a
  \<^verbatim>\<open>..\<close> that has nothing to pop.\<close>

fun norm_segs :: "rstr list \<Rightarrow> rstr list \<Rightarrow> rstr list option" where
  "norm_segs out [] = Some out"
| "norm_segs out (c # cs) =
     (if c = [] \<or> c = u ''.'' then norm_segs out cs
      else if c = u ''..'' then (if out = [] then None else norm_segs (butlast out) cs)
      else norm_segs (out @ [c]) cs)"

definition join_rel_checked :: "rstr \<Rightarrow> rstr \<Rightarrow> pkg_error + rstr" where
  "join_rel_checked pkg rel =
     (let joined = join_raw pkg rel
      in case norm_segs [] (split_on c_slash joined) of
           None \<Rightarrow> Err (EscapesRoot joined)
         | Some out \<Rightarrow> Ok (finish out joined))"

definition join_rel_checked_pkg :: "rstr \<Rightarrow> rstr \<Rightarrow> pkg_error + rstr" where
  "join_rel_checked_pkg pkg rel =
     rmap (trim_end_matches (\<lambda>c. c = c_slash)) (join_rel_checked pkg rel)"

section \<open>Specification vocabulary\<close>

text \<open>A normal package has no empty component: no leading, trailing or doubled slash.  A
  clean one has, besides, no \<^verbatim>\<open>.\<close> or \<^verbatim>\<open>..\<close> component.\<close>

definition normal_pkg :: "PkgBuf \<Rightarrow> bool" where
  "normal_pkg p \<longleftrightarrow> join_with c_slash (components p) = p"

definition plain_seg :: "rstr \<Rightarrow> bool" where
  "plain_seg s \<longleftrightarrow> s \<noteq> [] \<and> s \<noteq> u ''.'' \<and> s \<noteq> u ''..'' \<and> c_slash \<notin> set s"

definition clean_pkg :: "PkgBuf \<Rightarrow> bool" where
  "clean_pkg p \<longleftrightarrow> normal_pkg p \<and> list_all plain_seg (components p)"

text \<open>The level a segment sequence ends at, below the root it starts from.\<close>

definition seg_level :: "rstr list \<Rightarrow> int" where
  "seg_level segs = (\<Sum>s\<leftarrow>segs. if s = [] \<or> s = u ''.'' then 0 else if s = u ''..'' then -1 else 1)"

definition stays_inside :: "rstr list \<Rightarrow> bool" where
  "stays_inside segs \<longleftrightarrow> list_all (\<lambda>k. 0 \<le> seg_level (take k segs)) [0..<Suc (length segs)]"

section \<open>Components\<close>

lemma plain_segs_ok: "list_all plain_seg segs \<Longrightarrow> \<forall>s\<in>set segs. c_slash \<notin> set s \<and> s \<noteq> []"
  by (simp add: list_all_iff plain_seg_def)

lemma components_Nil [simp]: "components [] = []"
  by (simp add: components_def)

lemma components_no_slash: "s \<in> set (components p) \<Longrightarrow> c_slash \<notin> set s \<and> s \<noteq> []"
  by (auto simp: components_def dest: split_on_pieces)

lemma components_join:
  assumes "\<forall>s\<in>set ws. c_slash \<notin> set s \<and> s \<noteq> []"
  shows "components (join_with c_slash ws) = ws"
proof (cases ws)
  case (Cons w ws')
  then show ?thesis
    using assms split_on_join_with [of ws c_slash] by (simp add: components_def)
qed simp

lemma components_append_slash [simp]:
  "components (a @ c_slash # b) = components a @ components b"
  by (simp add: components_def split_on_append)

lemma normal_pkg_join:
  "\<forall>s\<in>set ws. c_slash \<notin> set s \<and> s \<noteq> [] \<Longrightarrow> normal_pkg (join_with c_slash ws)"
  by (simp add: normal_pkg_def components_join)

lemma normal_pkg_Nil [simp]: "normal_pkg []"
  by (simp add: normal_pkg_def)

lemma normal_pkg_inj: "normal_pkg p \<Longrightarrow> normal_pkg q \<Longrightarrow> components p = components q \<Longrightarrow> p = q"
  by (metis normal_pkg_def)

lemma normal_components_Nil: "normal_pkg p \<Longrightarrow> components p = [] \<longleftrightarrow> p = []"
  by (metis components_Nil join_with.simps(1) normal_pkg_def)

lemma prefix_components_join:
  assumes "ws \<noteq> []"
  shows "join_with c_slash (ws @ vs) = join_with c_slash ws @ (if vs = [] then [] else c_slash # join_with c_slash vs)"
  using assms by (auto simp: join_with_append)

section \<open>The package prefix\<close>

lemma has_prefix_string:
  "has_prefix self p \<longleftrightarrow> p = [] \<or> self = p \<or> (\<exists>rest. self = p @ c_slash # rest)"
  by (auto simp: has_prefix_def starts_with_iff strip_prefix_Some strip_prefix_None prefix_def
      split: option.splits list.splits)

lemma has_prefix_components:
  assumes "normal_pkg self" and "normal_pkg p"
  shows "has_prefix self p \<longleftrightarrow> prefix (components p) (components self)"
proof
  assume "has_prefix self p"
  then consider "p = []" | "self = p" | rest where "self = p @ c_slash # rest"
    by (auto simp: has_prefix_string)
  then show "prefix (components p) (components self)" by cases auto
next
  assume "prefix (components p) (components self)"
  then obtain vs where vs: "components self = components p @ vs" by (auto simp: prefix_def)
  show "has_prefix self p"
  proof (cases "components p = []")
    case True
    then show ?thesis using assms by (simp add: normal_components_Nil has_prefix_string)
  next
    case False
    have "self = join_with c_slash (components p @ vs)" using assms(1) vs by (simp add: normal_pkg_def)
    also have "\<dots> = p @ (if vs = [] then [] else c_slash # join_with c_slash vs)"
      using assms(2) False by (simp add: prefix_components_join normal_pkg_def)
    finally show ?thesis by (auto simp: has_prefix_string)
  qed
qed

lemma has_prefix_refl [simp]: "has_prefix p p"
  by (simp add: has_prefix_string)

lemma has_prefix_trans: "has_prefix a b \<Longrightarrow> has_prefix b c \<Longrightarrow> has_prefix a c"
  by (auto simp: has_prefix_string)

lemma has_prefix_root [simp]: "has_prefix p []"
  by (simp add: has_prefix_string)

section \<open>The chain of ancestors\<close>

declare parent_packages.simps [simp del]

lemma parent_packages_Nil [simp]: "parent_packages [] = [[]]"
  by (simp add: parent_packages.simps)

lemma rsplit_join:
  assumes "c_slash \<notin> set w" and "ws \<noteq> []"
  shows "rsplit_once c_slash (join_with c_slash (ws @ [w])) = Some (join_with c_slash ws, w)"
  using assms by (simp add: join_with_append)

lemma parent_packages_join:
  assumes "\<forall>s\<in>set ws. c_slash \<notin> set s \<and> s \<noteq> []"
  shows "parent_packages (join_with c_slash ws) = map (join_with c_slash) (rev (prefixes ws))"
  using assms
proof (induction ws rule: rev_induct)
  case (snoc w ws)
  have ne: "join_with c_slash (ws @ [w]) \<noteq> []"
    using snoc.prems by (auto simp: join_with_eq_Nil)
  have "(case rsplit_once c_slash (join_with c_slash (ws @ [w])) of Some (parent, _) \<Rightarrow> parent | None \<Rightarrow> [])
      = join_with c_slash ws"
  proof (cases "ws = []")
    case True
    then have "rsplit_once c_slash w = None" using snoc.prems by (simp add: rsplit_once_None)
    then show ?thesis using True by simp
  next
    case False
    then show ?thesis using snoc.prems by (simp add: rsplit_join)
  qed
  then show ?case
    using snoc ne by (subst parent_packages.simps) simp
qed (simp add: join_with.simps)

lemma parent_packages_normal:
  "normal_pkg p \<Longrightarrow> parent_packages p = map (join_with c_slash) (rev (prefixes (components p)))"
  using parent_packages_join [of "components p"] components_no_slash [of _ p]
  by (simp add: normal_pkg_def)

lemma prefixes_normal:
  "ws \<in> set (prefixes (components p)) \<Longrightarrow> normal_pkg (join_with c_slash ws) \<and> components (join_with c_slash ws) = ws"
  by (auto simp: prefix_def intro!: normal_pkg_join components_join dest: components_no_slash)
     (metis UnCI components_no_slash set_append)+

section \<open>The checked join\<close>

lemma norm_segs_plain:
  "\<lbrakk>norm_segs out segs = Some r; list_all plain_seg out; \<forall>s\<in>set segs. c_slash \<notin> set s\<rbrakk>
   \<Longrightarrow> list_all plain_seg r"
proof (induction out segs rule: norm_segs.induct)
  case (2 out c cs)
  have "list_all plain_seg (butlast out)"
    using "2.prems"(2) by (auto simp: list_all_iff dest: in_set_butlastD)
  moreover have "c \<noteq> [] \<Longrightarrow> c \<noteq> u ''.'' \<Longrightarrow> c \<noteq> u ''..'' \<Longrightarrow> plain_seg c"
    using "2.prems"(3) by (simp add: plain_seg_def)
  ultimately show ?case
    using 2 by (auto simp del: u.simps split: if_splits)
qed simp

lemma norm_segs_id: "list_all plain_seg segs \<Longrightarrow> norm_segs out segs = Some (out @ segs)"
  by (induction out segs rule: norm_segs.induct) (auto simp: plain_seg_def)

lemma seg_level_Nil [simp]: "seg_level [] = 0"
  by (simp add: seg_level_def)

lemma norm_segs_length:
  "norm_segs out segs = Some r \<Longrightarrow> int (length r) = int (length out) + seg_level segs"
proof (induction out segs rule: norm_segs.induct)
  case (2 out c cs)
  moreover have "out \<noteq> [] \<Longrightarrow> int (length (butlast out)) = int (length out) - 1"
    by (cases out rule: rev_cases) auto
  ultimately show ?case by (auto simp: seg_level_def split: if_splits)
qed simp

lemma norm_segs_Some_iff:
  "(\<exists>r. norm_segs out segs = Some r) \<longleftrightarrow> (\<forall>k\<le>length segs. 0 \<le> int (length out) + seg_level (take k segs))"
proof (induction out segs rule: norm_segs.induct)
  case (2 out c cs)
  have split_k: "(\<forall>k\<le>length (c # cs). P k) \<longleftrightarrow> P 0 \<and> (\<forall>k\<le>length cs. P (Suc k))" for P
    by (metis Suc_le_mono le0 length_Cons not0_implies_Suc)
  have level: "seg_level (take (Suc k) (c # cs)) = seg_level [c] + seg_level (take k cs)" for k
    by (simp add: seg_level_def)
  consider (skip) "c = [] \<or> c = u ''.''" | (pop) "c = u ''..''" "out \<noteq> []" | (esc) "c = u ''..''" "out = []"
    | (push) "c \<noteq> []" "c \<noteq> u ''.''" "c \<noteq> u ''..''" by blast
  then show ?case
  proof cases
    case esc
    then have "\<not> 0 \<le> int (length out) + seg_level (take (Suc 0) (c # cs))" by (simp add: seg_level_def)
    then show ?thesis using esc by (auto simp: split_k simp del: take_Suc_Cons)
  next
    case skip
    then show ?thesis unfolding split_k level using 2 by (auto simp: seg_level_def)
  next
    case pop
    have "int (length (butlast out)) = int (length out) - 1"
      using pop(2) by (cases out rule: rev_cases) auto
    then have "0 \<le> int (length out) + (- 1 + x) \<longleftrightarrow> 0 \<le> int (length (butlast out)) + x" for x
      by linarith
    moreover have "(\<exists>r. norm_segs (butlast out) cs = Some r)
        \<longleftrightarrow> (\<forall>k\<le>length cs. 0 \<le> int (length (butlast out)) + seg_level (take k cs))"
      using "2.IH"(2) pop by simp
    moreover have "seg_level [c] = - 1" using pop(1) by (simp add: seg_level_def)
    ultimately show ?thesis unfolding split_k level using pop by (simp del: length_butlast)
  next
    case push
    then show ?thesis unfolding split_k level using 2 by (auto simp: seg_level_def algebra_simps)
  qed
qed simp

lemma norm_segs_stays_inside: "(\<exists>r. norm_segs [] segs = Some r) \<longleftrightarrow> stays_inside segs"
  unfolding norm_segs_Some_iff stays_inside_def list_all_iff set_upt by (auto simp: less_Suc_eq_le)

lemma join_rel_checked_Ok_iff:
  "is_ok (join_rel_checked pkg rel) \<longleftrightarrow> stays_inside (split_on c_slash (join_raw pkg rel))"
  by (auto simp: join_rel_checked_def Let_def norm_segs_stays_inside [symmetric] split: option.splits)

lemma join_with_last_not_slash:
  "\<lbrakk>ws \<noteq> []; \<forall>s\<in>set ws. c_slash \<notin> set s \<and> s \<noteq> []\<rbrakk> \<Longrightarrow> join_with c_slash ws \<noteq> [] \<and> last (join_with c_slash ws) \<noteq> c_slash"
proof (induction c_slash ws rule: join_with.induct)
  case (2 w)
  then show ?case by (metis join_with.simps(2) last_in_set list.set_intros(1))
qed auto

lemma trim_slash_join:
  assumes "\<forall>s\<in>set ws. c_slash \<notin> set s \<and> s \<noteq> []"
  shows "trim_end_matches (\<lambda>c. c = c_slash) (finish ws orig) = join_with c_slash ws"
proof (cases "ws = []")
  case True
  then show ?thesis by (simp add: finish_def trim_end_matches_def)
next
  case False
  from join_with_last_not_slash [OF False assms]
  obtain ys y where "join_with c_slash ws = ys @ [y]" "y \<noteq> c_slash"
    by (metis append_butlast_last_id)
  then show ?thesis by (simp add: finish_def trim_end_matches_def Let_def)
qed

lemma join_rel_checked_pkg_Ok:
  assumes "join_rel_checked_pkg pkg rel = Ok r"
  shows "\<exists>segs. norm_segs [] (split_on c_slash (join_raw pkg rel)) = Some segs \<and> r = join_with c_slash segs
           \<and> list_all plain_seg segs"
proof -
  obtain segs where segs: "norm_segs [] (split_on c_slash (join_raw pkg rel)) = Some segs"
      "r = trim_end_matches (\<lambda>c. c = c_slash) (finish segs (join_raw pkg rel))"
    using assms by (auto simp: join_rel_checked_pkg_def join_rel_checked_def Let_def split: option.splits)
  have "list_all plain_seg segs"
    using norm_segs_plain [OF segs(1)] by (auto dest: split_on_pieces)
  moreover from this have "r = join_with c_slash segs"
    unfolding segs(2) by (intro trim_slash_join plain_segs_ok)
  ultimately show ?thesis using segs by blast
qed

lemma clean_pkg_join: "list_all plain_seg segs \<Longrightarrow> clean_pkg (join_with c_slash segs)"
  using plain_segs_ok [of segs] by (simp add: clean_pkg_def normal_pkg_join components_join)

lemma norm_segs_subset: "norm_segs out segs = Some r \<Longrightarrow> set r \<subseteq> set out \<union> set segs"
proof (induction out segs rule: norm_segs.induct)
  case (2 out c cs)
  moreover have "set (butlast out) \<subseteq> set out" by (auto dest: in_set_butlastD)
  ultimately show ?case by (fastforce simp del: u.simps split: if_splits)
qed simp

lemma join_rel_checked_pkg_chars:
  assumes "join_rel_checked_pkg pkg rel = Ok r"
  shows "set r \<subseteq> insert c_slash (set (join_raw pkg rel))"
proof -
  obtain segs where segs: "norm_segs [] (split_on c_slash (join_raw pkg rel)) = Some segs" "r = join_with c_slash segs"
    using join_rel_checked_pkg_Ok [OF assms] by blast
  have "s \<in> set segs \<Longrightarrow> set s \<subseteq> set (join_raw pkg rel)" for s
    using norm_segs_subset [OF segs(1)] by (auto dest: split_on_subset)
  then show ?thesis using set_join_with [of c_slash segs] segs(2) by blast
qed

lemma join_rel_checked_pkg_clean: "join_rel_checked_pkg pkg rel = Ok r \<Longrightarrow> clean_pkg r"
  by (auto dest!: join_rel_checked_pkg_Ok clean_pkg_join)

lemma clean_pkg_fixpoint: "clean_pkg p \<Longrightarrow> join_rel_checked_pkg [] p = Ok p"
proof -
  assume p: "clean_pkg p"
  define ws where "ws = components p"
  have plain: "list_all plain_seg ws" and pw: "p = join_with c_slash ws"
    using p by (auto simp: clean_pkg_def ws_def normal_pkg_def)
  have "norm_segs [] (split_on c_slash p) = Some ws"
  proof (cases "ws = []")
    case False
    then have "split_on c_slash p = ws"
      unfolding pw using plain_segs_ok [OF plain] by (intro split_on_join_with) auto
    then show ?thesis using plain by (simp add: norm_segs_id)
  qed (simp add: pw)
  moreover have "trim_end_matches (\<lambda>c. c = c_slash) (finish ws p) = p"
    using trim_slash_join [OF plain_segs_ok [OF plain]] by (simp add: pw)
  ultimately show ?thesis
    by (simp add: join_rel_checked_pkg_def join_rel_checked_def join_raw_def)
qed

section \<open>Properties\<close>

text \<open>The allocation-free prefix test of \<^verbatim>\<open>PkgBuf::has_prefix\<close> (strip the
  string prefix, then look for a separator) decides the component-wise relation: on packages
  with no empty component it holds exactly when the components of the prefix are a prefix of
  the components of the package, so \<^verbatim>\<open>ab\<close> is never under \<^verbatim>\<open>a\<close>.\<close>

theorem has_prefix_is_component_prefix:
  assumes "normal_pkg self" and "normal_pkg p"
  shows "has_prefix self p \<longleftrightarrow> prefix (components p) (components self)"
  using assms by (rule has_prefix_components)

theorem has_prefix_is_component_prefix_witness:
  "normal_pkg (u ''a/b'') \<and> normal_pkg (u ''a'') \<and> normal_pkg (u ''ab'')
   \<and> has_prefix (u ''a/b'') (u ''a'') \<and> \<not> has_prefix (u ''ab'') (u ''a'')"
  using has_prefix_is_component_prefix [of "u ''a/b''" "u ''a''"]
    has_prefix_is_component_prefix [of "u ''ab''" "u ''a''"]
  by (simp add: normal_pkg_def components_def)

text \<open>\<^verbatim>\<open>PkgBuf::parent_packages\<close> terminates and enumerates, for a package with no
  empty component, exactly the packages it has as a package prefix: it starts at the package
  itself, ends at the root package, repeats nothing, and a package is listed if and only if
  \<^verbatim>\<open>has_prefix\<close> accepts it.\<close>

theorem parent_packages_enumerates_prefixes:
  assumes "normal_pkg p"
  shows "hd (parent_packages p) = p \<and> last (parent_packages p) = [] \<and> distinct (parent_packages p)
    \<and> (\<forall>q. q \<in> set (parent_packages p) \<longleftrightarrow> normal_pkg q \<and> has_prefix p q)"
proof -
  let ?f = "join_with c_slash" and ?pre = "prefixes (components p)"
  have pp: "parent_packages p = map ?f (rev ?pre)" using assms by (rule parent_packages_normal)
  have comp: "ws \<in> set ?pre \<Longrightarrow> normal_pkg (?f ws) \<and> components (?f ws) = ws" for ws
    by (rule prefixes_normal)
  have "hd (parent_packages p) = p" by (simp add: parent_packages.simps)
  moreover have "last (parent_packages p) = []"
    by (simp add: pp last_map last_rev prefixes_not_Nil hd_map)
  moreover have "distinct (parent_packages p)"
    unfolding pp distinct_map using comp by (auto intro: inj_on_inverseI [where g = components])
  moreover have "q \<in> set (parent_packages p) \<longleftrightarrow> normal_pkg q \<and> has_prefix p q" for q
  proof
    assume "q \<in> set (parent_packages p)"
    then obtain ws where "q = ?f ws" "ws \<in> set ?pre" by (auto simp: pp)
    then show "normal_pkg q \<and> has_prefix p q"
      using comp [of ws] assms by (simp add: has_prefix_components)
  next
    assume q: "normal_pkg q \<and> has_prefix p q"
    then have "components q \<in> set ?pre" using assms has_prefix_components [of p q] by simp
    moreover have "q = ?f (components q)" using q by (simp add: normal_pkg_def)
    ultimately show "q \<in> set (parent_packages p)" by (simp add: pp)
  qed
  ultimately show ?thesis by blast
qed

theorem parent_packages_enumerates_prefixes_witness:
  "normal_pkg (u ''a/b'') \<and> has_prefix (u ''a/b'') (u ''a'') \<and> u ''a'' \<in> set (parent_packages (u ''a/b''))"
  using parent_packages_enumerates_prefixes [of "u ''a/b''"]
  by (simp add: normal_pkg_def components_def has_prefix_def starts_with_def)

text \<open>C19: \<^verbatim>\<open>join_rel_checked_pkg\<close> confines a relative path to the workspace: it fails
  exactly when some leading part of the joined path has more \<^verbatim>\<open>..\<close> than names before it,
  and otherwise returns a package with no empty, \<^verbatim>\<open>.\<close> or \<^verbatim>\<open>..\<close> component and
  no trailing slash, on which the join is the identity.\<close>

theorem join_rel_checked_pkg_confined:
  "case join_rel_checked_pkg pkg rel of
     Err (EscapesRoot j) \<Rightarrow> j = join_raw pkg rel \<and> \<not> stays_inside (split_on c_slash j)
   | Ok r \<Rightarrow> stays_inside (split_on c_slash (join_raw pkg rel)) \<and> clean_pkg r
       \<and> join_rel_checked_pkg [] r = Ok r"
proof (cases "norm_segs [] (split_on c_slash (join_raw pkg rel))")
  case None
  then have "join_rel_checked_pkg pkg rel = Err (EscapesRoot (join_raw pkg rel))"
    by (simp add: join_rel_checked_pkg_def join_rel_checked_def)
  then show ?thesis using None by (simp add: norm_segs_stays_inside [symmetric])
next
  case (Some out)
  then obtain r where r: "join_rel_checked_pkg pkg rel = Ok r"
    by (simp add: join_rel_checked_pkg_def join_rel_checked_def)
  then have "clean_pkg r" by (rule join_rel_checked_pkg_clean)
  then show ?thesis
    using r Some by (auto simp: clean_pkg_fixpoint norm_segs_stays_inside [symmetric])
qed

end
