(* ===== verification/Addr.thy ===== *)
theory Addr
  imports Pkg "HOL-Library.Word"
begin

text \<open>
  Target addresses (crates/model/src/htaddr): the address \<^verbatim>\<open>//pkg:name@k=v,...\<close>, its
  printer, its parser, and the intern table that makes pointer equality content equality.

  The grammar is written over the combinators of the nom crate.  They are not part of the
  repository, so the model takes them as a record \<open>nom\<close>, and \<open>nom_laws\<close> states what
  the crate documents of each; \<open>nom_std\<close> is a record that satisfies the laws.  The hashers
  (FxHasher for the shards, xxh3 for \<^verbatim>\<open>hash_str\<close>) are function parameters.
\<close>

unbundle bit_operations_syntax

record AddrInner =
  addr_package :: PkgBuf
  addr_name :: rstr
  addr_args :: "(rstr \<times> rstr) list"

text \<open>The result of a nom parser: the remaining input and the output, or an error.\<close>

type_synonym 'a R = "(rstr \<times> 'a) option"
type_synonym kvs = "(rstr \<times> rstr) list"

record nom =
  tag :: "rstr \<Rightarrow> rstr \<Rightarrow> rstr R"
  nchar :: "rchar \<Rightarrow> rstr \<Rightarrow> rchar R"
  take_till :: "(rchar \<Rightarrow> bool) \<Rightarrow> rstr \<Rightarrow> rstr R"
  take_till1 :: "(rchar \<Rightarrow> bool) \<Rightarrow> rstr \<Rightarrow> rstr R"
  delimited :: "(rstr \<Rightarrow> rchar R) \<Rightarrow> (rstr \<Rightarrow> rstr R) \<Rightarrow> (rstr \<Rightarrow> rchar R) \<Rightarrow> rstr \<Rightarrow> rstr R"
  alt :: "(rstr \<Rightarrow> rstr R) \<Rightarrow> (rstr \<Rightarrow> rstr R) \<Rightarrow> rstr \<Rightarrow> rstr R"
  preceded_value :: "(rstr \<Rightarrow> rchar R) \<Rightarrow> (rstr \<Rightarrow> rstr R) \<Rightarrow> rstr \<Rightarrow> rstr R"
  preceded_args :: "(rstr \<Rightarrow> rchar R) \<Rightarrow> (rstr \<Rightarrow> kvs R) \<Rightarrow> rstr \<Rightarrow> kvs R"
  opt_value :: "(rstr \<Rightarrow> rstr R) \<Rightarrow> rstr \<Rightarrow> rstr option R"
  opt_args :: "(rstr \<Rightarrow> kvs R) \<Rightarrow> rstr \<Rightarrow> kvs option R"
  separated_list1 :: "(rstr \<Rightarrow> rchar R) \<Rightarrow> (rstr \<Rightarrow> (rstr \<times> rstr) R) \<Rightarrow> rstr \<Rightarrow> kvs R"
  all_consuming :: "(rstr \<Rightarrow> (rstr \<times> rstr \<times> kvs) R) \<Rightarrow> rstr \<Rightarrow> (rstr \<times> rstr \<times> kvs) R"

section \<open>The parser\<close>

definition p_pkg :: "nom \<Rightarrow> rstr \<Rightarrow> rstr R" where
  "p_pkg N i = take_till N (\<lambda>c. c = c_colon \<or> c = c_space) i"

definition p_name :: "nom \<Rightarrow> rstr \<Rightarrow> rstr R" where
  "p_name N i = take_till1 N (\<lambda>c. c \<in> {c_at, c_colon, c_space, c_pipe}) i"

definition p_key :: "nom \<Rightarrow> rstr \<Rightarrow> rstr R" where
  "p_key N i = take_till1 N (\<lambda>c. c \<in> {c_eq, c_comma, c_at, c_space, c_pipe, c_quote}) i"

definition bare_value :: "nom \<Rightarrow> rstr \<Rightarrow> rstr R" where
  "bare_value N i = take_till1 N (\<lambda>c. c \<in> {c_comma, c_space, c_pipe, c_quote}) i"

definition quoted_value :: "nom \<Rightarrow> rstr \<Rightarrow> rstr R" where
  "quoted_value N i = delimited N (nchar N c_quote) (take_till N (\<lambda>c. c = c_quote)) (nchar N c_quote) i"

definition p_value :: "nom \<Rightarrow> rstr \<Rightarrow> rstr R" where
  "p_value N i = alt N (quoted_value N) (bare_value N) i"

definition p_arg :: "nom \<Rightarrow> rstr \<Rightarrow> (rstr \<times> rstr) R" where
  "p_arg N i = (case p_key N i of None \<Rightarrow> None
     | Some (i, k) \<Rightarrow> (case opt_value N (preceded_value N (nchar N c_eq) (p_value N)) i of None \<Rightarrow> None
     | Some (i, v) \<Rightarrow> Some (i, k, case v of Some v \<Rightarrow> v | None \<Rightarrow> [])))"

definition p_args :: "nom \<Rightarrow> rstr \<Rightarrow> kvs R" where
  "p_args N i = separated_list1 N (nchar N c_comma) (p_arg N) i"

definition addr_parser :: "nom \<Rightarrow> rstr \<Rightarrow> (rstr \<times> rstr \<times> kvs) R" where
  "addr_parser N i = (case tag N (u ''//'') i of None \<Rightarrow> None
     | Some (i, _) \<Rightarrow> (case p_pkg N i of None \<Rightarrow> None
     | Some (i, p) \<Rightarrow> (case nchar N c_colon i of None \<Rightarrow> None
     | Some (i, _) \<Rightarrow> (case p_name N i of None \<Rightarrow> None
     | Some (i, n) \<Rightarrow> (case opt_args N (preceded_args N (nchar N c_at) (p_args N)) i of None \<Rightarrow> None
     | Some (i, a) \<Rightarrow> Some (i, p, n, case a of Some a \<Rightarrow> a | None \<Rightarrow> []))))))"

datatype addr_error =
    InvalidAddress rstr
  | AddrEscapes pkg_error
  | NoTargetName rstr
  | NotRelative rstr

text \<open>\<open>Addr::new\<close> interns the three fields; the address a parse yields is their content.\<close>

definition parse_addr :: "nom \<Rightarrow> rstr \<Rightarrow> addr_error + AddrInner" where
  "parse_addr N input = (case all_consuming N (addr_parser N) input of
     None \<Rightarrow> Err (InvalidAddress input)
   | Some (_, p, n, kvs) \<Rightarrow> (case join_rel_checked_pkg [] p of
       Err e \<Rightarrow> Err (AddrEscapes e)
     | Ok package \<Rightarrow>
         Ok \<lparr> addr_package = package, addr_name = n,
              addr_args = fold (\<lambda>(k, v) args. bt_insert k v args) kvs [] \<rparr>))"

definition resolve_relative_pkg :: "PkgBuf \<Rightarrow> rstr \<Rightarrow> pkg_error + rstr" where
  "resolve_relative_pkg base rel = join_rel_checked_pkg base rel"

definition parse_addr_with_base :: "nom \<Rightarrow> rstr \<Rightarrow> PkgBuf \<Rightarrow> addr_error + AddrInner" where
  "parse_addr_with_base N input base =
     (if starts_with (u ''//'') input then parse_addr N input
      else if starts_with (u '':'') input then parse_addr N (u ''//'' @ base @ input)
      else if starts_with (u ''./'') input \<or> starts_with (u ''../'') input then
        (case split_once c_colon input of
           None \<Rightarrow> Err (NoTargetName input)
         | Some (path_part, after) \<Rightarrow>
             (let rest = c_colon # after
              in case resolve_relative_pkg base path_part of
                   Err e \<Rightarrow> Err (AddrEscapes e)
                 | Ok pkg \<Rightarrow> parse_addr N (u ''//'' @ pkg @ rest)))
      else Err (NotRelative input))"

section \<open>The printer\<close>

definition fmt_arg_value :: "rstr \<Rightarrow> rstr" where
  "fmt_arg_value v =
     (if v = [] \<or> (\<exists>c\<in>set v. c \<in> {c_space, c_comma, c_pipe, c_quote})
      then [c_quote] @ v @ [c_quote] else v)"

fun fmt_args :: "kvs \<Rightarrow> rstr" where
  "fmt_args [] = []"
| "fmt_args [(k, v)] = k @ [c_eq] @ fmt_arg_value v"
| "fmt_args ((k, v) # kv # kvs) = k @ [c_eq] @ fmt_arg_value v @ [c_comma] @ fmt_args (kv # kvs)"

definition format_addr :: "AddrInner \<Rightarrow> rstr" where
  "format_addr a = u ''//'' @ addr_package a @ [c_colon] @ addr_name a
     @ (if addr_args a = [] then [] else [c_at] @ fmt_args (addr_args a))"

section \<open>Hashing and interning\<close>

text \<open>The chunks \<^verbatim>\<open>AddrInner::hash\<close> writes to the hasher, in order.\<close>

definition hash_writes :: "AddrInner \<Rightarrow> rstr list" where
  "hash_writes a = addr_package a # addr_name a # concat (map (\<lambda>(k, v). [k, v]) (addr_args a))"

text \<open>\<^verbatim>\<open>Xxh3Default\<close> is a streaming hasher: its digest depends on the bytes written, not on
  how they were cut into chunks.\<close>

definition hash_str :: "(rstr \<Rightarrow> 64 word) \<Rightarrow> AddrInner \<Rightarrow> rstr" where
  "hash_str xxh3 a = fmt_hex (unat (xxh3 (concat (hash_writes a))))"

abbreviation SHARDS :: nat where "SHARDS \<equiv> 64"

text \<open>An \<^verbatim>\<open>Arc<AddrInner>\<close> is its address and its content.  The table is the array of
  shards and the next address the allocator gives out.\<close>

record intern_table =
  shards :: "(nat \<times> AddrInner) list list"
  next_ptr :: nat

definition intern_shards :: intern_table where
  "intern_shards = \<lparr> shards = replicate SHARDS [], next_ptr = 0 \<rparr>"

definition shard_get :: "(nat \<times> AddrInner) list \<Rightarrow> AddrInner \<Rightarrow> (nat \<times> AddrInner) option" where
  "shard_get sh inner = find (\<lambda>(_, a). a = inner) sh"

definition shard_of :: "(rstr list \<Rightarrow> 64 word) \<Rightarrow> AddrInner \<Rightarrow> nat" where
  "shard_of fx inner = unat (fx (hash_writes inner) AND 63)"

text \<open>The two critical sections of \<^verbatim>\<open>intern\<close>: the probe under the read lock, which may
  miss, and the insertion under the write lock, which probes again.  An outer \<open>None\<close> is the
  panic of the \<^verbatim>\<open>expect\<close> on the shard index.\<close>

definition intern_read :: "(rstr list \<Rightarrow> 64 word) \<Rightarrow> AddrInner \<Rightarrow> intern_table \<Rightarrow> nat option option" where
  "intern_read fx inner t =
     (let i = shard_of fx inner
      in if i < length (shards t) then Some (map_option fst (shard_get (shards t ! i) inner)) else None)"

definition intern_write :: "(rstr list \<Rightarrow> 64 word) \<Rightarrow> AddrInner \<Rightarrow> intern_table \<Rightarrow> (nat \<times> intern_table) option" where
  "intern_write fx inner t =
     (let i = shard_of fx inner
      in if i < length (shards t) then
           (case shard_get (shards t ! i) inner of
              Some (p, _) \<Rightarrow> Some (p, t)
            | None \<Rightarrow> Some (next_ptr t,
                \<lparr> shards = (shards t)[i := (next_ptr t, inner) # shards t ! i],
                  next_ptr = Suc (next_ptr t) \<rparr>))
         else None)"

definition intern :: "(rstr list \<Rightarrow> 64 word) \<Rightarrow> AddrInner \<Rightarrow> intern_table \<Rightarrow> (nat \<times> intern_table) option" where
  "intern fx inner t = (case intern_read fx inner t of
     None \<Rightarrow> None
   | Some (Some existing) \<Rightarrow> Some (existing, t)
   | Some None \<Rightarrow> intern_write fx inner t)"

text \<open>Threads calling \<^verbatim>\<open>Addr::new\<close> at once: each lock acquisition is one step, the
  misses wait between their two critical sections, and the log records what each call
  returned.\<close>

record intern_run =
  table :: intern_table
  missed :: "AddrInner list"
  returned :: "(nat \<times> AddrInner) list"

inductive intern_step :: "(rstr list \<Rightarrow> 64 word) \<Rightarrow> intern_run \<Rightarrow> intern_run \<Rightarrow> bool" for fx where
  read_hit: "intern_read fx a (table s) = Some (Some p) \<Longrightarrow>
    intern_step fx s (s\<lparr> returned := (p, a) # returned s \<rparr>)"
| read_miss: "intern_read fx a (table s) = Some None \<Longrightarrow>
    intern_step fx s (s\<lparr> missed := a # missed s \<rparr>)"
| write_lock: "a \<in> set (missed s) \<Longrightarrow> intern_write fx a (table s) = Some (p, t') \<Longrightarrow>
    intern_step fx s \<lparr> table = t', missed = remove1 a (missed s), returned = (p, a) # returned s \<rparr>"

abbreviation intern_start :: intern_run where
  "intern_start \<equiv> \<lparr> table = intern_shards, missed = [], returned = [] \<rparr>"

section \<open>What nom documents of its combinators\<close>

function sep_rest :: "(rstr \<Rightarrow> rchar R) \<Rightarrow> (rstr \<Rightarrow> (rstr \<times> rstr) R) \<Rightarrow> rstr \<Rightarrow> kvs R" where
  "sep_rest sep f i = (case sep i of None \<Rightarrow> Some (i, [])
     | Some (i1, _) \<Rightarrow> (case f i1 of None \<Rightarrow> Some (i, [])
       | Some (i2, x) \<Rightarrow> (if length i2 < length i
           then map_option (\<lambda>(r, xs). (r, x # xs)) (sep_rest sep f i2) else None)))"
  by auto
termination
  by (relation "measure (\<lambda>(_, _, i). length i)") auto

definition nom_laws :: "nom \<Rightarrow> bool" where
  "nom_laws N \<longleftrightarrow>
     (\<forall>t i. tag N t i = map_option (\<lambda>r. (r, t)) (strip_prefix t i))
   \<and> (\<forall>c i. nchar N c i = (case i of [] \<Rightarrow> None | d # r \<Rightarrow> if d = c then Some (r, c) else None))
   \<and> (\<forall>P i. take_till N P i = Some (dropWhile (\<lambda>c. \<not> P c) i, takeWhile (\<lambda>c. \<not> P c) i))
   \<and> (\<forall>P i. take_till1 N P i = (if takeWhile (\<lambda>c. \<not> P c) i = [] then None
         else Some (dropWhile (\<lambda>c. \<not> P c) i, takeWhile (\<lambda>c. \<not> P c) i)))
   \<and> (\<forall>a p b i. delimited N a p b i = (case a i of None \<Rightarrow> None | Some (i, _) \<Rightarrow>
         (case p i of None \<Rightarrow> None | Some (i, x) \<Rightarrow>
         (case b i of None \<Rightarrow> None | Some (i, _) \<Rightarrow> Some (i, x)))))
   \<and> (\<forall>p q i. alt N p q i = (case p i of None \<Rightarrow> q i | Some r \<Rightarrow> Some r))
   \<and> (\<forall>a p i. preceded_value N a p i = (case a i of None \<Rightarrow> None | Some (i, _) \<Rightarrow> p i))
   \<and> (\<forall>a p i. preceded_args N a p i = (case a i of None \<Rightarrow> None | Some (i, _) \<Rightarrow> p i))
   \<and> (\<forall>p i. opt_value N p i = (case p i of None \<Rightarrow> Some (i, None) | Some (r, x) \<Rightarrow> Some (r, Some x)))
   \<and> (\<forall>p i. opt_args N p i = (case p i of None \<Rightarrow> Some (i, None) | Some (r, x) \<Rightarrow> Some (r, Some x)))
   \<and> (\<forall>s f i. separated_list1 N s f i = (case f i of None \<Rightarrow> None
         | Some (i, x) \<Rightarrow> map_option (\<lambda>(r, xs). (r, x # xs)) (sep_rest s f i)))
   \<and> (\<forall>p i. all_consuming N p i = (case p i of None \<Rightarrow> None | Some (r, x) \<Rightarrow> if r = [] then Some (r, x) else None))"

definition nom_std :: nom where
  "nom_std = \<lparr>
     tag = \<lambda>t i. map_option (\<lambda>r. (r, t)) (strip_prefix t i),
     nchar = \<lambda>c i. case i of [] \<Rightarrow> None | d # r \<Rightarrow> if d = c then Some (r, c) else None,
     take_till = \<lambda>P i. Some (dropWhile (\<lambda>c. \<not> P c) i, takeWhile (\<lambda>c. \<not> P c) i),
     take_till1 = \<lambda>P i. if takeWhile (\<lambda>c. \<not> P c) i = [] then None
       else Some (dropWhile (\<lambda>c. \<not> P c) i, takeWhile (\<lambda>c. \<not> P c) i),
     delimited = \<lambda>a p b i. case a i of None \<Rightarrow> None | Some (i, _) \<Rightarrow>
       (case p i of None \<Rightarrow> None | Some (i, x) \<Rightarrow> (case b i of None \<Rightarrow> None | Some (i, _) \<Rightarrow> Some (i, x))),
     alt = \<lambda>p q i. case p i of None \<Rightarrow> q i | Some r \<Rightarrow> Some r,
     preceded_value = \<lambda>a p i. case a i of None \<Rightarrow> None | Some (i, _) \<Rightarrow> p i,
     preceded_args = \<lambda>a p i. case a i of None \<Rightarrow> None | Some (i, _) \<Rightarrow> p i,
     opt_value = \<lambda>p i. case p i of None \<Rightarrow> Some (i, None) | Some (r, x) \<Rightarrow> Some (r, Some x),
     opt_args = \<lambda>p i. case p i of None \<Rightarrow> Some (i, None) | Some (r, x) \<Rightarrow> Some (r, Some x),
     separated_list1 = \<lambda>s f i. case f i of None \<Rightarrow> None
       | Some (i, x) \<Rightarrow> map_option (\<lambda>(r, xs). (r, x # xs)) (sep_rest s f i),
     all_consuming = \<lambda>p i. case p i of None \<Rightarrow> None
       | Some (r, x) \<Rightarrow> if r = [] then Some (r, x) else None \<rparr>"

lemma nom_std_laws: "nom_laws nom_std"
  by (simp add: nom_laws_def nom_std_def)

lemma nom_laws_unique: "nom_laws N \<Longrightarrow> N = nom_std"
  by (intro nom.equality) (simp_all add: nom_laws_def nom_std_def fun_eq_iff)

text \<open>What the grammar admits in each position of an address.\<close>

definition wf_name :: "rstr \<Rightarrow> bool" where
  "wf_name n \<longleftrightarrow> n \<noteq> [] \<and> list_all (\<lambda>c. c \<notin> {c_at, c_colon, c_space, c_pipe}) n"

definition wf_arg :: "rstr \<times> rstr \<Rightarrow> bool" where
  "wf_arg kv \<longleftrightarrow> fst kv \<noteq> []
     \<and> list_all (\<lambda>c. c \<notin> {c_eq, c_comma, c_at, c_space, c_pipe, c_quote}) (fst kv)
     \<and> list_all (\<lambda>c. c \<noteq> c_quote) (snd kv)"

definition wf_addr :: "AddrInner \<Rightarrow> bool" where
  "wf_addr a \<longleftrightarrow> clean_pkg (addr_package a) \<and> list_all (\<lambda>c. c \<noteq> c_colon \<and> c \<noteq> c_space) (addr_package a)
     \<and> wf_name (addr_name a) \<and> list_all wf_arg (addr_args a) \<and> bt_ok (addr_args a)"

section \<open>The parser reads what the printer writes\<close>


lemma take_until:
  assumes "\<forall>c\<in>set k. \<not> P c" and "r = [] \<or> P (hd r)"
  shows "takeWhile (\<lambda>c. \<not> P c) (k @ r) = k" and "dropWhile (\<lambda>c. \<not> P c) (k @ r) = r"
proof -
  have "takeWhile (\<lambda>c. \<not> P c) r = []" "dropWhile (\<lambda>c. \<not> P c) r = r"
    using assms(2) by (cases r; simp)+
  then show "takeWhile (\<lambda>c. \<not> P c) (k @ r) = k" "dropWhile (\<lambda>c. \<not> P c) (k @ r) = r"
    using assms(1) by (simp_all add: takeWhile_append2 dropWhile_append2)
qed

lemma p_value_fmt:
  assumes "c_quote \<notin> set v" and "r = [] \<or> hd r = c_comma"
  shows "p_value nom_std (fmt_arg_value v @ r) = Some (r, v)"
proof (cases "v = [] \<or> (\<exists>c\<in>set v. c \<in> {c_space, c_comma, c_pipe, c_quote})")
  case True
  then have fmt: "fmt_arg_value v @ r = c_quote # v @ c_quote # r" by (auto simp: fmt_arg_value_def)
  have "takeWhile (\<lambda>c. \<not> c = c_quote) (v @ c_quote # r) = v"
       "dropWhile (\<lambda>c. \<not> c = c_quote) (v @ c_quote # r) = c_quote # r"
    using assms(1) by (intro take_until; auto)+
  then show ?thesis by (simp add: fmt p_value_def quoted_value_def nom_std_def)
next
  case False
  then obtain d w where v: "v = d # w" and d: "d \<noteq> c_quote" using assms(1) by (cases v) auto
  have fmt: "fmt_arg_value v = v" using False by (simp add: fmt_arg_value_def)
  have "quoted_value nom_std (v @ r) = None" using v d by (simp add: quoted_value_def nom_std_def)
  moreover have "takeWhile (\<lambda>c. \<not> c \<in> {c_comma, c_space, c_pipe, c_quote}) (v @ r) = v"
       "dropWhile (\<lambda>c. \<not> c \<in> {c_comma, c_space, c_pipe, c_quote}) (v @ r) = r"
    using False assms(2) by (intro take_until; auto)+
  then have "bare_value nom_std (v @ r) = Some (r, v)"
    using v by (simp add: bare_value_def nom_std_def del: insert_iff)
  ultimately show ?thesis by (simp add: fmt p_value_def nom_std_def)
qed

lemma p_arg_fmt:
  assumes "wf_arg (k, v)" and "r = [] \<or> hd r = c_comma"
  shows "p_arg nom_std (k @ c_eq # fmt_arg_value v @ r) = Some (r, k, v)"
proof -
  have "takeWhile (\<lambda>c. \<not> c \<in> {c_eq, c_comma, c_at, c_space, c_pipe, c_quote}) (k @ c_eq # fmt_arg_value v @ r) = k"
       "dropWhile (\<lambda>c. \<not> c \<in> {c_eq, c_comma, c_at, c_space, c_pipe, c_quote}) (k @ c_eq # fmt_arg_value v @ r)
          = c_eq # fmt_arg_value v @ r"
    using assms(1) by (intro take_until; force simp: wf_arg_def list_all_iff)+
  then have "p_key nom_std (k @ c_eq # fmt_arg_value v @ r) = Some (c_eq # fmt_arg_value v @ r, k)"
    using assms(1) by (simp add: p_key_def nom_std_def wf_arg_def del: insert_iff)
  moreover have "p_value nom_std (fmt_arg_value v @ r) = Some (r, v)"
    using assms by (intro p_value_fmt) (auto simp: wf_arg_def list_all_iff)
  ultimately show ?thesis by (simp add: p_arg_def) (simp add: nom_std_def)
qed

declare sep_rest.simps [simp del]

lemma p_arg_fmt_args:
  "list_all wf_arg ((k, v) # kvs) \<Longrightarrow> p_arg nom_std (fmt_args ((k, v) # kvs))
     = Some (if kvs = [] then [] else c_comma # fmt_args kvs, k, v)"
  using p_arg_fmt [of k v "if kvs = [] then [] else c_comma # fmt_args kvs"] by (cases kvs) auto

lemma fmt_args_ne: "kvs \<noteq> [] \<Longrightarrow> fmt_args kvs \<noteq> []"
  by (cases kvs rule: fmt_args.cases) auto

lemma sep_rest_fmt_args:
  "list_all wf_arg kvs \<Longrightarrow> sep_rest (nchar nom_std c_comma) (p_arg nom_std)
     (if kvs = [] then [] else c_comma # fmt_args kvs) = Some ([], kvs)"
proof (induction kvs)
  case Nil
  then show ?case by (simp add: sep_rest.simps nom_std_def)
next
  case (Cons kv kvs)
  obtain k v where kv: "kv = (k, v)" by force
  let ?rest = "if kvs = [] then [] else c_comma # fmt_args kvs"
  have arg: "p_arg nom_std (fmt_args (kv # kvs)) = Some (?rest, k, v)"
    using Cons.prems unfolding kv by (rule p_arg_fmt_args)
  have len: "length ?rest < Suc (length (fmt_args (kv # kvs)))"
    by (cases kvs) (auto simp: kv)
  have comma: "nchar nom_std c_comma (c_comma # fmt_args (kv # kvs)) = Some (fmt_args (kv # kvs), c_comma)"
    by (simp add: nom_std_def)
  show ?case
    using Cons len by (subst sep_rest.simps) (simp add: comma [unfolded kv] arg [unfolded kv] kv)
qed

lemma p_args_fmt:
  assumes "kvs \<noteq> []" and "list_all wf_arg kvs"
  shows "p_args nom_std (fmt_args kvs) = Some ([], kvs)"
proof -
  obtain k v kvs' where kvs: "kvs = (k, v) # kvs'" using assms(1) by (cases kvs) auto
  have "sep_rest (nchar nom_std c_comma) (p_arg nom_std)
      (if kvs' = [] then [] else c_comma # fmt_args kvs') = Some ([], kvs')"
    using assms(2) kvs by (intro sep_rest_fmt_args) simp
  then have "separated_list1 nom_std (nchar nom_std c_comma) (p_arg nom_std) (fmt_args kvs) = Some ([], kvs)"
    using p_arg_fmt_args [of k v kvs'] assms(2) kvs by (simp add: nom_std_def)
  then show ?thesis by (simp add: p_args_def)
qed

lemma addr_parser_format:
  assumes "wf_addr a"
  shows "addr_parser nom_std (format_addr a) = Some ([], addr_package a, addr_name a, addr_args a)"
proof -
  define tl where "tl = (if addr_args a = [] then [] else c_at # fmt_args (addr_args a))"
  have fmt: "format_addr a = u ''//'' @ addr_package a @ c_colon # addr_name a @ tl"
    by (simp add: format_addr_def tl_def)
  have pkg: "p_pkg nom_std (addr_package a @ c_colon # addr_name a @ tl)
      = Some (c_colon # addr_name a @ tl, addr_package a)"
    using take_until [of "addr_package a" "\<lambda>c. c = c_colon \<or> c = c_space" "c_colon # addr_name a @ tl"] assms
    by (auto simp: p_pkg_def nom_std_def wf_addr_def list_all_iff)
  have name: "p_name nom_std (addr_name a @ tl) = Some (tl, addr_name a)"
    using take_until [of "addr_name a" "\<lambda>c. c \<in> {c_at, c_colon, c_space, c_pipe}" tl] assms
    by (auto simp: p_name_def nom_std_def wf_addr_def wf_name_def list_all_iff tl_def simp del: insert_iff)
  have args: "opt_args nom_std (preceded_args nom_std (nchar nom_std c_at) (p_args nom_std)) tl
      = Some ([], if addr_args a = [] then None else Some (addr_args a))"
    using p_args_fmt [of "addr_args a"] assms by (auto simp: tl_def nom_std_def wf_addr_def)
  have "tag nom_std (u ''//'') (format_addr a) = Some (addr_package a @ c_colon # addr_name a @ tl, u ''//'')"
    by (simp add: fmt nom_std_def)
  moreover have "nchar nom_std c_colon (c_colon # addr_name a @ tl) = Some (addr_name a @ tl, c_colon)"
    by (simp add: nom_std_def)
  ultimately show ?thesis by (simp add: addr_parser_def pkg name args)
qed

lemma parse_format_addr:
  assumes "wf_addr a"
  shows "parse_addr nom_std (format_addr a) = Ok a"
proof -
  have "all_consuming nom_std (addr_parser nom_std) (format_addr a)
      = Some ([], addr_package a, addr_name a, addr_args a)"
    using addr_parser_format [OF assms] by (simp add: nom_std_def)
  moreover have "fold (\<lambda>(k, v) args. bt_insert k v args) (addr_args a) [] = addr_args a"
    using assms bt_of_list_id [of "addr_args a"] by (simp add: wf_addr_def bt_of_list_def)
  ultimately show ?thesis
    using assms by (simp add: parse_addr_def clean_pkg_fixpoint wf_addr_def)
qed

section \<open>The parser yields only well-formed addresses\<close>

lemma take_till1_std:
  "take_till1 nom_std P i = Some (r, k) \<Longrightarrow> k \<noteq> [] \<and> (\<forall>c\<in>set k. \<not> P c)"
proof -
  assume "take_till1 nom_std P i = Some (r, k)"
  then have k: "k = takeWhile (\<lambda>c. \<not> P c) i" "r = dropWhile (\<lambda>c. \<not> P c) i" "k \<noteq> []"
    by (auto simp: nom_std_def split: if_splits)
  then show ?thesis by (auto dest: set_takeWhileD)
qed

lemma p_value_std: "p_value nom_std i = Some (r, v) \<Longrightarrow> c_quote \<notin> set v"
proof -
  assume "p_value nom_std i = Some (r, v)"
  then consider "quoted_value nom_std i = Some (r, v)" | "bare_value nom_std i = Some (r, v)"
    by (auto simp: p_value_def nom_std_def split: option.splits)
  then show ?thesis
  proof cases
    case 1
    then show ?thesis
      by (auto simp: quoted_value_def nom_std_def split: list.splits if_splits dest: set_takeWhileD)
  next
    case 2
    then show ?thesis by (auto simp: bare_value_def dest: take_till1_std)
  qed
qed

lemma p_arg_std: "p_arg nom_std i = Some (r, kv) \<Longrightarrow> wf_arg kv"
proof -
  assume a: "p_arg nom_std i = Some (r, kv)"
  then obtain i' k where k: "p_key nom_std i = Some (i', k)" by (auto simp: p_arg_def split: option.splits)
  obtain v where v: "opt_value nom_std (preceded_value nom_std (nchar nom_std c_eq) (p_value nom_std)) i' = Some (r, v)"
      "kv = (k, case v of Some v \<Rightarrow> v | None \<Rightarrow> [])"
    using a k by (auto simp: p_arg_def split: option.splits)
  have "c_quote \<notin> set w" if "v = Some w" for w
    using v(1) that by (auto simp: nom_std_def [THEN arg_cong [where f = opt_value]]
        nom_std_def [THEN arg_cong [where f = preceded_value]] split: option.splits dest: p_value_std)
  moreover have "k \<noteq> [] \<and> (\<forall>c\<in>set k. c \<notin> {c_eq, c_comma, c_at, c_space, c_pipe, c_quote})"
    using k by (auto simp: p_key_def dest!: take_till1_std)
  ultimately show ?thesis using v(2) by (auto simp: wf_arg_def list_all_iff split: option.splits)
qed

lemma sep_rest_std:
  "sep_rest s (p_arg nom_std) i = Some (r, kvs) \<Longrightarrow> list_all wf_arg kvs"
proof (induction "length i" arbitrary: i r kvs rule: less_induct)
  case less
  from less.prems show ?case
  proof (subst (asm) sep_rest.simps, clarsimp split: option.splits if_splits)
    fix a i2 k v ws
    assume "p_arg nom_std a = Some (i2, k, v)" "length i2 < length i" "sep_rest s (p_arg nom_std) i2 = Some (r, ws)"
    then show "wf_arg (k, v) \<and> list_all wf_arg ws"
      using less.hyps [of i2 r ws] p_arg_std [of a i2 "(k, v)"] by blast
  qed
qed

lemma p_args_std: "p_args nom_std i = Some (r, kvs) \<Longrightarrow> list_all wf_arg kvs"
  by (auto simp: p_args_def nom_std_def [THEN arg_cong [where f = separated_list1]]
      split: option.splits dest: p_arg_std sep_rest_std)

lemma bt_fold_all:
  "list_all P kvs \<Longrightarrow> list_all P m \<Longrightarrow> list_all P (fold (\<lambda>(k, v) m. bt_insert k v m) kvs m)"
proof (induction kvs arbitrary: m)
  case (Cons kv kvs)
  obtain k v where kv: "kv = (k, v)" by force
  have "list_all P m \<Longrightarrow> P (k, v) \<Longrightarrow> list_all P (bt_insert k v m)" for m
    by (induction k v m rule: bt_insert.induct) auto
  then show ?case using Cons by (simp add: kv)
qed simp

lemma addr_parser_std:
  assumes "addr_parser nom_std s = Some (r, p, n, kvs)"
  shows "list_all (\<lambda>c. c \<noteq> c_colon \<and> c \<noteq> c_space) p \<and> wf_name n \<and> list_all wf_arg kvs"
proof -
  obtain i1 i2 i3 i4 t c a where parts:
      "tag nom_std (u ''//'') s = Some (i1, t)" "p_pkg nom_std i1 = Some (i2, p)"
      "nchar nom_std c_colon i2 = Some (i3, c)" "p_name nom_std i3 = Some (i4, n)"
      "opt_args nom_std (preceded_args nom_std (nchar nom_std c_at) (p_args nom_std)) i4 = Some (r, a)"
      "kvs = (case a of Some a \<Rightarrow> a | None \<Rightarrow> [])"
    using assms unfolding addr_parser_def by (auto split: option.splits)
  have "list_all (\<lambda>c. c \<noteq> c_colon \<and> c \<noteq> c_space) p"
    using parts(2) by (auto simp: p_pkg_def nom_std_def list_all_iff dest: set_takeWhileD)
  moreover have "wf_name n"
    using parts(4) by (auto simp: p_name_def wf_name_def list_all_iff dest: take_till1_std)
  moreover have "list_all wf_arg kvs"
    using parts(5,6) by (auto simp: nom_std_def [THEN arg_cong [where f = opt_args]]
        nom_std_def [THEN arg_cong [where f = preceded_args]] split: option.splits dest: p_args_std)
  ultimately show ?thesis by blast
qed

lemma parse_addr_wf: "parse_addr nom_std s = Ok a \<Longrightarrow> wf_addr a"
proof -
  assume "parse_addr nom_std s = Ok a"
  then obtain r p n kvs pkg where parts: "addr_parser nom_std s = Some (r, p, n, kvs)"
      "join_rel_checked_pkg [] p = Ok pkg"
      "a = \<lparr> addr_package = pkg, addr_name = n, addr_args = bt_of_list kvs \<rparr>"
    by (auto simp: parse_addr_def bt_of_list_def nom_std_def [THEN arg_cong [where f = all_consuming]]
        split: option.splits sum.splits if_splits)
  have "list_all (\<lambda>c. c \<noteq> c_colon \<and> c \<noteq> c_space) pkg"
    using join_rel_checked_pkg_chars [OF parts(2)] addr_parser_std [OF parts(1)]
    by (auto simp: list_all_iff join_raw_def)
  moreover have "list_all wf_arg (bt_of_list kvs)"
    using addr_parser_std [OF parts(1)] by (simp add: bt_of_list_def bt_fold_all)
  ultimately show ?thesis
    using addr_parser_std [OF parts(1)] join_rel_checked_pkg_clean [OF parts(2)]
    by (simp add: wf_addr_def parts(3))
qed

section \<open>Interning\<close>

definition entries :: "intern_table \<Rightarrow> (nat \<times> AddrInner) set" where
  "entries t = (\<Union>i<length (shards t). set (shards t ! i))"

definition intern_inv :: "(rstr list \<Rightarrow> 64 word) \<Rightarrow> intern_table \<Rightarrow> bool" where
  "intern_inv fx t \<longleftrightarrow> length (shards t) = SHARDS
     \<and> (\<forall>i<SHARDS. \<forall>(p, a)\<in>set (shards t ! i). shard_of fx a = i \<and> p < next_ptr t)
     \<and> (\<forall>(p, a)\<in>entries t. \<forall>(q, b)\<in>entries t. p = q \<longleftrightarrow> a = b)"

lemma shard_of_less: "shard_of fx a < SHARDS"
proof -
  have "unat (w AND 63 :: 64 word) \<le> unat (63 :: 64 word)" for w :: "64 word"
    by (intro word_le_nat_alt [THEN iffD1] word_and_le1)
  from this [of "fx (hash_writes a)"] show ?thesis by (simp add: shard_of_def)
qed

lemma shard_get_Some: "shard_get sh a = Some (p, b) \<Longrightarrow> b = a \<and> (p, a) \<in> set sh"
  by (auto simp: shard_get_def find_Some_iff) (metis nth_mem)

lemma shard_get_None: "shard_get sh a = None \<longleftrightarrow> (\<forall>p. (p, a) \<notin> set sh)"
  by (auto simp: shard_get_def find_None_iff)

lemma entries_shard:
  assumes "intern_inv fx t" and "(p, a) \<in> entries t"
  shows "(p, a) \<in> set (shards t ! shard_of fx a)" and "p < next_ptr t"
proof -
  obtain i where "i < SHARDS" "(p, a) \<in> set (shards t ! i)"
    using assms by (auto simp: entries_def intern_inv_def)
  moreover from this have "shard_of fx a = i" "p < next_ptr t"
    using assms(1) by (auto simp: intern_inv_def)
  ultimately show "(p, a) \<in> set (shards t ! shard_of fx a)" "p < next_ptr t" by simp_all
qed

lemma shard_entries: "i < length (shards t) \<Longrightarrow> set (shards t ! i) \<subseteq> entries t"
  by (auto simp: entries_def)

lemma entries_update:
  assumes "i < length (shards t)"
  shows "entries (t\<lparr> shards := (shards t)[i := x # shards t ! i] \<rparr>) = insert x (entries t)"
  using assms by (auto simp: entries_def nth_list_update split: if_splits)

lemma intern_read_inv:
  assumes "intern_inv fx t"
  shows "\<exists>r. intern_read fx a t = Some r \<and> (\<forall>p. r = Some p \<longrightarrow> (p, a) \<in> entries t)"
proof -
  have len: "shard_of fx a < length (shards t)" using assms shard_of_less by (simp add: intern_inv_def)
  then show ?thesis
    using shard_entries [OF len] by (auto simp: intern_read_def Let_def dest: shard_get_Some)
qed

lemma intern_write_inv:
  assumes inv: "intern_inv fx t"
  shows "\<exists>p t'. intern_write fx a t = Some (p, t') \<and> intern_inv fx t' \<and> (p, a) \<in> entries t' \<and> entries t \<subseteq> entries t'"
proof -
  let ?i = "shard_of fx a" and ?p = "next_ptr t"
  have len: "?i < length (shards t)" using inv shard_of_less by (simp add: intern_inv_def)
  show ?thesis
  proof (cases "shard_get (shards t ! ?i) a")
    case (Some e)
    then show ?thesis
      using len inv shard_entries [OF len] by (cases e) (auto simp: intern_write_def dest: shard_get_Some)
  next
    case None
    let ?t = "\<lparr> shards = (shards t)[?i := (?p, a) # shards t ! ?i], next_ptr = Suc ?p \<rparr>"
    have ent: "entries ?t = insert (?p, a) (entries t)"
      using entries_update [OF len, of "(?p, a)"] by (simp add: entries_def)
    have old: "shard_of fx b = i \<and> q < ?p" if "i < SHARDS" "(q, b) \<in> set (shards t ! i)" for i q b
      using inv that by (auto simp: intern_inv_def)
    have fresh: "(q, b) \<in> entries t \<Longrightarrow> q \<noteq> ?p \<and> b \<noteq> a" for q b
      using entries_shard [OF inv, of q b] None by (auto simp: shard_get_None)
    have "\<forall>i<SHARDS. \<forall>(q, b)\<in>set (shards ?t ! i). shard_of fx b = i \<and> q < next_ptr ?t"
    proof (intro allI impI ballI, clarify)
      fix i q b assume i: "i < SHARDS" and qb: "(q, b) \<in> set (shards ?t ! i)"
      show "shard_of fx b = i \<and> q < next_ptr ?t"
        using old [OF i, of q b] qb len i by (cases "i = ?i") auto
    qed
    moreover have "\<forall>(q, b)\<in>entries ?t. \<forall>(r, c)\<in>entries ?t. q = r \<longleftrightarrow> b = c"
      using inv fresh unfolding ent intern_inv_def by blast
    ultimately have "intern_inv fx ?t" using inv by (simp add: intern_inv_def)
    then show ?thesis using len None ent by (auto simp: intern_write_def Let_def)
  qed
qed

lemma intern_shards_inv: "intern_inv fx intern_shards"
  by (auto simp: intern_inv_def intern_shards_def entries_def)

lemma intern_step_inv:
  "intern_step fx s s' \<Longrightarrow> intern_inv fx (table s) \<and> set (returned s) \<subseteq> entries (table s)
    \<Longrightarrow> intern_inv fx (table s') \<and> set (returned s') \<subseteq> entries (table s')"
proof (induction rule: intern_step.induct)
  case (read_hit a s p)
  then show ?case using intern_read_inv [of fx "table s" a] by auto
next
  case (write_lock a s p t')
  then show ?case using intern_write_inv [of fx "table s" a] by auto
qed simp

lemma intern_reachable_inv:
  "(intern_step fx)\<^sup>*\<^sup>* intern_start s \<Longrightarrow> intern_inv fx (table s) \<and> set (returned s) \<subseteq> entries (table s)"
  by (induction rule: rtranclp_induct) (simp_all add: intern_shards_inv intern_step_inv)

section \<open>Properties\<close>

text \<open>C33: Every address the parser accepts prints to text that parses back to the same
  address: \<^verbatim>\<open>parse_addr\<close> then \<^verbatim>\<open>Addr::format\<close> then \<^verbatim>\<open>parse_addr\<close> is
  \<^verbatim>\<open>parse_addr\<close>, so an address survives being serialised.  The combinators are those
  nom documents.\<close>

theorem addr_format_parse_roundtrip:
  assumes "nom_laws N" and "parse_addr N s = Ok a"
  shows "parse_addr N (format_addr a) = Ok a"
  using assms nom_laws_unique parse_addr_wf parse_format_addr by blast

theorem addr_format_parse_roundtrip_witness:
  "nom_laws nom_std \<and> (\<exists>a. parse_addr nom_std (u ''//a/./b:n@k=\"x y\",z'') = Ok a
     \<and> format_addr a = u ''//a/b:n@k=\"x y\",z=\"\"'' \<and> parse_addr nom_std (format_addr a) = Ok a)"
proof -
  let ?a = "\<lparr> addr_package = u ''a/b'', addr_name = u ''n'', addr_args = [(u ''k'', u ''x y''), (u ''z'', [])] \<rparr>"
  have p: "parse_addr nom_std (u ''//a/./b:n@k=\"x y\",z'') = Ok ?a"
    by code_simp
  moreover have "format_addr ?a = u ''//a/b:n@k=\"x y\",z=\"\"''" by code_simp
  ultimately show ?thesis
    using addr_format_parse_roundtrip [OF nom_std_laws p] nom_std_laws by blast
qed

text \<open>A printed address is read back whenever its fields are what the grammar admits,
  whatever the argument values are, except for a double quote in a value: there the printer
  writes a quoted value the parser cannot read, and the address is lost.\<close>

theorem addr_quote_not_readable:
  assumes "nom_laws N"
  shows "(wf_addr a \<longrightarrow> parse_addr N (format_addr a) = Ok a)
    \<and> (\<exists>b. clean_pkg (addr_package b) \<and> wf_name (addr_name b) \<and> bt_ok (addr_args b)
         \<and> (\<exists>e. parse_addr N (format_addr b) = Err e))"
proof -
  let ?b = "\<lparr> addr_package = u ''p'', addr_name = u ''t'', addr_args = [(u ''k'', [c_quote])] \<rparr>"
  have "clean_pkg (u ''p'')" "wf_name (u ''t'')" "bt_ok (addr_args ?b)" by code_simp+
  moreover have "\<exists>e. parse_addr nom_std (format_addr ?b) = Err e"
    by (rule exI [of _ "InvalidAddress (format_addr ?b)"]) code_simp
  moreover have "N = nom_std" using assms by (rule nom_laws_unique)
  ultimately show ?thesis
    by (auto intro!: exI [of _ ?b] parse_format_addr)
qed

theorem addr_quote_not_readable_witness: "nom_laws nom_std \<and> (\<exists>b e. parse_addr nom_std (format_addr b) = Err e)"
  using addr_quote_not_readable [OF nom_std_laws] nom_std_laws by blast

text \<open>C28: Interning makes pointer equality content equality under every interleaving of the
  threads that intern: whatever the hash function and the order of lock acquisitions, no
  shard index is out of range, and two returned pointers are equal exactly when the two
  addresses have the same package, name and arguments.\<close>

theorem intern_pointer_equality:
  assumes "(intern_step fx)\<^sup>*\<^sup>* intern_start s"
    and "(p, a) \<in> set (returned s)" and "(q, b) \<in> set (returned s)"
  shows "(p = q \<longleftrightarrow> a = b) \<and> intern fx c (table s) \<noteq> None"
proof -
  have inv: "intern_inv fx (table s)" and sub: "set (returned s) \<subseteq> entries (table s)"
    using intern_reachable_inv [OF assms(1)] by simp_all
  have "p = q \<longleftrightarrow> a = b"
    using inv sub assms(2,3) unfolding intern_inv_def by blast
  moreover have "intern fx c (table s) \<noteq> None"
    using intern_read_inv [OF inv, of c] intern_write_inv [OF inv, of c]
    by (auto simp: intern_def split: option.splits)
  ultimately show ?thesis by blast
qed

theorem intern_pointer_equality_witness:
  "\<exists>s a. (intern_step (\<lambda>_. 0))\<^sup>*\<^sup>* intern_start s \<and> returned s = [(0, a), (0, a)]
     \<and> (0 = (0::nat) \<longleftrightarrow> a = a) \<and> intern (\<lambda>_. 0) a (table s) \<noteq> None"
proof -
  let ?a = "\<lparr> addr_package = u ''p'', addr_name = u ''t'', addr_args = [] \<rparr>"
  let ?t = "\<lparr> shards = (shards intern_shards)[0 := [(0, ?a)]], next_ptr = Suc 0 \<rparr>"
  let ?s = "\<lparr> table = ?t, missed = [], returned = [(0, ?a), (0, ?a)] \<rparr>"
  have sh0: "shard_of (\<lambda>_. 0) x = 0" for x by (simp add: shard_of_def)
  have "intern_step (\<lambda>_. 0) intern_start \<lparr> table = intern_shards, missed = [?a], returned = [] \<rparr>"
    using read_miss [of "\<lambda>_. 0" ?a intern_start]
    by (simp add: intern_read_def Let_def sh0 intern_shards_def shard_get_def)
  moreover have "intern_step (\<lambda>_. 0) \<lparr> table = intern_shards, missed = [?a], returned = [] \<rparr>
      \<lparr> table = ?t, missed = [], returned = [(0, ?a)] \<rparr>"
    using write_lock [of ?a "\<lparr> table = intern_shards, missed = [?a], returned = [] \<rparr>" "\<lambda>_. 0" 0 ?t]
    by (simp add: intern_write_def Let_def sh0 intern_shards_def shard_get_def)
  moreover have "intern_step (\<lambda>_. 0) \<lparr> table = ?t, missed = [], returned = [(0, ?a)] \<rparr> ?s"
    using read_hit [of "\<lambda>_. 0" ?a "\<lparr> table = ?t, missed = [], returned = [(0, ?a)] \<rparr>" 0]
    by (simp add: intern_read_def Let_def sh0 intern_shards_def shard_get_def)
  ultimately have run: "(intern_step (\<lambda>_. 0))\<^sup>*\<^sup>* intern_start ?s"
    by (meson converse_rtranclp_into_rtranclp rtranclp.rtrancl_refl)
  show ?thesis
    using intern_pointer_equality [OF run, of 0 ?a 0 ?a ?a] run by (intro exI [of _ ?s] exI [of _ ?a]) simp
qed

text \<open>The hash behind \<^verbatim>\<open>Addr::hash_str\<close> is taken over the fields of an address
  written one after the other with no separator, so it cannot tell apart two addresses of the
  same package and name whose arguments cut the same text differently: whatever xxh3 is, they
  have the same \<^verbatim>\<open>hash_str\<close>, which is the only part of the cache and lock paths that
  depends on the arguments.\<close>

theorem hash_str_collides:
  "\<exists>a b. wf_addr a \<and> wf_addr b \<and> a \<noteq> b \<and> addr_package a = addr_package b \<and> addr_name a = addr_name b
     \<and> (\<forall>xxh3. hash_str xxh3 a = hash_str xxh3 b)"
proof -
  let ?a = "\<lambda>k v. \<lparr> addr_package = u ''p'', addr_name = u ''t'', addr_args = [(k, v)] \<rparr>"
  have "wf_addr (?a (u ''os'') (u ''x''))" "wf_addr (?a (u ''o'') (u ''sx''))" by code_simp+
  moreover have "?a (u ''os'') (u ''x'') \<noteq> ?a (u ''o'') (u ''sx'')" by simp
  moreover have "hash_str xxh3 (?a (u ''os'') (u ''x'')) = hash_str xxh3 (?a (u ''o'') (u ''sx''))" for xxh3
    by (simp add: hash_str_def hash_writes_def)
  ultimately show ?thesis
    by (intro exI [of _ "?a (u ''os'') (u ''x'')"] exI [of _ "?a (u ''o'') (u ''sx'')"]) simp
qed

text \<open>Resolving a reference against a base package yields only well-formed addresses, and
  only for a reference that says how it is relative: \<^verbatim>\<open>:name\<close> stays in the base
  package, \<^verbatim>\<open>./\<close> and \<^verbatim>\<open>../\<close> need an explicit name and resolve inside the
  workspace, and a bare word is refused.\<close>

theorem parse_addr_with_base_sound:
  assumes "nom_laws N" and "parse_addr_with_base N input base = Ok a"
  shows "wf_addr a \<and> (starts_with (u '':'') input \<and> clean_pkg base \<and> c_colon \<notin> set base \<and> c_space \<notin> set base
        \<longrightarrow> addr_package a = base)
    \<and> (starts_with (u ''//'') input \<or> starts_with (u '':'') input
        \<or> (starts_with (u ''./'') input \<or> starts_with (u ''../'') input) \<and> c_colon \<in> set input)"
proof -
  have N: "N = nom_std" using assms(1) by (rule nom_laws_unique)
  have "wf_addr a"
    using assms(2) by (auto simp: N parse_addr_with_base_def Let_def split: if_splits option.splits sum.splits
        intro: parse_addr_wf)
  moreover have "addr_package a = base"
    if colon: "starts_with (u '':'') input" and base: "clean_pkg base" "c_colon \<notin> set base" "c_space \<notin> set base"
  proof -
    obtain rest where input: "input = c_colon # rest" using colon by (auto simp: starts_with_iff prefix_def)
    have "parse_addr nom_std (u ''//'' @ base @ c_colon # rest) = Ok a"
      using assms(2) by (simp add: N parse_addr_with_base_def input starts_with_def)
    moreover have "\<forall>c\<in>set base. \<not> (c = c_colon \<or> c = c_space)" using base by auto
    then have "p_pkg nom_std (base @ c_colon # rest) = Some (c_colon # rest, base)"
      using take_until [of base "\<lambda>c. c = c_colon \<or> c = c_space" "c_colon # rest"]
      by (simp add: p_pkg_def nom_std_def)
    ultimately show ?thesis
      using clean_pkg_fixpoint [OF base(1)]
      by (auto simp: parse_addr_def addr_parser_def nom_std_def [THEN arg_cong [where f = tag]]
          nom_std_def [THEN arg_cong [where f = all_consuming]] split: option.splits if_splits)
  qed
  moreover have "starts_with (u ''//'') input \<or> starts_with (u '':'') input
      \<or> (starts_with (u ''./'') input \<or> starts_with (u ''../'') input) \<and> c_colon \<in> set input"
    using assms(2) by (auto simp: parse_addr_with_base_def split: if_splits option.splits)
      (auto simp: split_once_None split_once_Some)
  ultimately show ?thesis by blast
qed

theorem parse_addr_with_base_sound_witness:
  "nom_laws nom_std \<and> (\<exists>a. parse_addr_with_base nom_std (u '':n@k=v'') (u ''b/p'') = Ok a \<and> addr_package a = u ''b/p'')"
proof -
  let ?a = "\<lparr> addr_package = u ''b/p'', addr_name = u ''n'', addr_args = [(u ''k'', u ''v'')] \<rparr>"
  have p: "parse_addr_with_base nom_std (u '':n@k=v'') (u ''b/p'') = Ok ?a" by code_simp
  show ?thesis
    using parse_addr_with_base_sound [OF nom_std_laws p] p nom_std_laws by auto
qed

end
