(* ===== verification/Matcher.thy ===== *)
theory Matcher
  imports Addr
begin

text \<open>
  The target matcher of crates/model: labels (htlabel.rs), the facts a listing carries
  (htmatcher/listed.rs), the matcher expression and its two address-level evaluators
  (htmatcher/matcher.rs), and the package pattern parser (htpkg/parse.rs).

  The evaluators are three-valued.  \<open>tri_eval\<close> is the interface they share (how \<^verbatim>\<open>Or\<close>,
  \<^verbatim>\<open>And\<close> and \<^verbatim>\<open>Not\<close> combine answers), and \<open>decides\<close> relates a cheap evaluator to
  an exact one: an answer other than \<^verbatim>\<open>MatchShrug\<close> is the exact answer.
\<close>

section \<open>Labels\<close>

definition is_label_char :: "rchar \<Rightarrow> bool" where
  "is_label_char c \<longleftrightarrow> is_ascii_alphanumeric c \<or> c = c_dash \<or> c = c_underscore"

definition is_valid_label :: "rstr \<Rightarrow> bool" where
  "is_valid_label s \<longleftrightarrow> s \<noteq> [] \<and> list_all is_label_char s"

text \<open>How an offending character is named in the error: the two words, a code point, or itself.\<close>

datatype described_char = A_space | A_tab | Code_point rchar | Quoted_char rchar

definition describe_char :: "rchar \<Rightarrow> described_char" where
  "describe_char c = (if c = 32 then A_space else if c = 9 then A_tab
     else if is_whitespace c \<or> is_control c then Code_point c else Quoted_char c)"

datatype label_error = EmptyLabel | InvalidLabel rstr described_char

definition validate_label :: "rstr \<Rightarrow> label_error + unit" where
  "validate_label s = (if s = [] then Err EmptyLabel
     else case find (\<lambda>c. \<not> is_label_char c) s of
       Some bad \<Rightarrow> Err (InvalidLabel s (describe_char bad))
     | None \<Rightarrow> Ok ())"

definition looks_like_query_expr :: "rstr \<Rightarrow> bool" where
  "looks_like_query_expr s \<longleftrightarrow> list_ex (\<lambda>c. c \<in> set (u ''&|!()'') \<or> is_whitespace c) s"

section \<open>Listed facts\<close>

abbreviation MAX_LISTED_DRIVER_LEN :: nat where "MAX_LISTED_DRIVER_LEN \<equiv> 256"

record ListedFacts =
  lf_labels :: "rstr list option"
  lf_driver :: "rstr option"
  lf_has_codegen :: "bool option"

definition UNKNOWN :: ListedFacts where
  "UNKNOWN = \<lparr> lf_labels = None, lf_driver = None, lf_has_codegen = None \<rparr>"

definition with_label_set :: "ListedFacts \<Rightarrow> rstr list \<Rightarrow> ListedFacts" where
  "with_label_set f labels = f\<lparr> lf_labels := Some labels \<rparr>"

definition with_labels :: "ListedFacts \<Rightarrow> rstr list \<Rightarrow> ListedFacts" where
  "with_labels f labels = with_label_set f (remdups_adj (sort labels))"

definition with_driver :: "ListedFacts \<Rightarrow> rstr \<Rightarrow> ListedFacts" where
  "with_driver f driver = f\<lparr> lf_driver :=
     (if driver \<noteq> [] \<and> byte_len driver \<le> MAX_LISTED_DRIVER_LEN then Some driver else None) \<rparr>"

definition with_has_codegen :: "ListedFacts \<Rightarrow> bool \<Rightarrow> ListedFacts" where
  "with_has_codegen f b = f\<lparr> lf_has_codegen := Some b \<rparr>"

definition is_unknown :: "ListedFacts \<Rightarrow> bool" where
  "is_unknown f \<longleftrightarrow> lf_labels f = None \<and> lf_driver f = None \<and> lf_has_codegen f = None"

definition agree :: "ListedFacts \<Rightarrow> ListedFacts \<Rightarrow> ListedFacts" where
  "agree self other = \<lparr>
     lf_labels = (if lf_labels self \<noteq> lf_labels other then None else lf_labels self),
     lf_driver = (if lf_driver self \<noteq> lf_driver other then None else lf_driver self),
     lf_has_codegen = (if lf_has_codegen self \<noteq> lf_has_codegen other then None else lf_has_codegen self) \<rparr>"

section \<open>Matchers\<close>

datatype MatchResult = MatchYes | MatchNo | MatchShrug

datatype Matcher =
    MAddr AddrInner
  | MLabel rstr
  | MDriver rstr
  | MPackage PkgBuf
  | MPackagePrefix PkgBuf
  | MTreeOutputTo PkgBuf
  | MOr "Matcher list"
  | MAnd "Matcher list"
  | MNot Matcher

text \<open>The loops of the \<^verbatim>\<open>Or\<close> and \<^verbatim>\<open>And\<close> arms over the answers of the operands, and the
  \<^verbatim>\<open>Not\<close> arm; the four evaluators have the same three.\<close>

fun or_loop :: "bool \<Rightarrow> MatchResult list \<Rightarrow> MatchResult" where
  "or_loop shrug [] = (if shrug then MatchShrug else MatchNo)"
| "or_loop shrug (MatchYes # rs) = MatchYes"
| "or_loop shrug (MatchShrug # rs) = or_loop True rs"
| "or_loop shrug (MatchNo # rs) = or_loop shrug rs"

fun and_loop :: "bool \<Rightarrow> MatchResult list \<Rightarrow> MatchResult" where
  "and_loop shrug [] = (if shrug then MatchShrug else MatchYes)"
| "and_loop shrug (MatchNo # rs) = MatchNo"
| "and_loop shrug (MatchShrug # rs) = and_loop True rs"
| "and_loop shrug (MatchYes # rs) = and_loop shrug rs"

fun not_result :: "MatchResult \<Rightarrow> MatchResult" where
  "not_result MatchYes = MatchNo"
| "not_result MatchNo = MatchYes"
| "not_result MatchShrug = MatchShrug"

fun matches_pkg :: "Matcher \<Rightarrow> PkgBuf \<Rightarrow> MatchResult" where
  "matches_pkg (MAddr a) pkg = (if addr_package a = pkg then MatchShrug else MatchNo)"
| "matches_pkg (MLabel _) pkg = MatchShrug"
| "matches_pkg (MDriver _) pkg = MatchShrug"
| "matches_pkg (MTreeOutputTo matcher_pkg) pkg =
     (if has_prefix pkg matcher_pkg \<or> has_prefix matcher_pkg pkg then MatchShrug else MatchNo)"
| "matches_pkg (MPackage p) pkg = (if pkg = p then MatchYes else MatchNo)"
| "matches_pkg (MPackagePrefix p) pkg = (if has_prefix pkg p then MatchYes else MatchNo)"
| "matches_pkg (MOr ms) pkg = or_loop False (map (\<lambda>m. matches_pkg m pkg) ms)"
| "matches_pkg (MAnd ms) pkg = and_loop False (map (\<lambda>m. matches_pkg m pkg) ms)"
| "matches_pkg (MNot m) pkg = not_result (matches_pkg m pkg)"

fun reads_listed_facts :: "Matcher \<Rightarrow> bool" where
  "reads_listed_facts (MLabel _) = True"
| "reads_listed_facts (MDriver _) = True"
| "reads_listed_facts (MTreeOutputTo _) = True"
| "reads_listed_facts (MOr ms) = list_ex (\<lambda>m. reads_listed_facts m) ms"
| "reads_listed_facts (MAnd ms) = list_ex (\<lambda>m. reads_listed_facts m) ms"
| "reads_listed_facts (MNot m) = reads_listed_facts m"
| "reads_listed_facts (MAddr _) = False"
| "reads_listed_facts (MPackage _) = False"
| "reads_listed_facts (MPackagePrefix _) = False"

fun matches_listed :: "Matcher \<Rightarrow> AddrInner \<Rightarrow> ListedFacts \<Rightarrow> MatchResult" where
  "matches_listed (MAddr a) addr facts = (if a = addr then MatchYes else MatchNo)"
| "matches_listed (MLabel l) addr facts = (case lf_labels facts of
     Some labels \<Rightarrow> if l \<in> set labels then MatchYes else MatchNo
   | None \<Rightarrow> MatchShrug)"
| "matches_listed (MDriver d) addr facts = (case lf_driver facts of
     Some driver \<Rightarrow> if driver = d then MatchYes else MatchNo
   | None \<Rightarrow> MatchShrug)"
| "matches_listed (MTreeOutputTo matcher_pkg) addr facts =
     (if lf_has_codegen facts = Some False then MatchNo
      else if has_prefix (addr_package addr) matcher_pkg \<or> has_prefix matcher_pkg (addr_package addr)
      then MatchShrug else MatchNo)"
| "matches_listed (MPackage pkg) addr facts = (if addr_package addr = pkg then MatchYes else MatchNo)"
| "matches_listed (MPackagePrefix p) addr facts =
     (if has_prefix (addr_package addr) p then MatchYes else MatchNo)"
| "matches_listed (MOr ms) addr facts = or_loop False (map (\<lambda>m. matches_listed m addr facts) ms)"
| "matches_listed (MAnd ms) addr facts = and_loop False (map (\<lambda>m. matches_listed m addr facts) ms)"
| "matches_listed (MNot m) addr facts = not_result (matches_listed m addr facts)"

definition matches_addr :: "Matcher \<Rightarrow> AddrInner \<Rightarrow> MatchResult" where
  "matches_addr m addr = matches_listed m addr UNKNOWN"

section \<open>Package patterns\<close>

datatype pattern_error = PatternEscapes pkg_error | InvalidPackageRef rstr

fun pat_result :: "(PkgBuf \<Rightarrow> Matcher) \<Rightarrow> pkg_error + rstr \<Rightarrow> pattern_error + Matcher" where
  "pat_result f (Inl e) = Err (PatternEscapes e)"
| "pat_result f (Inr p) = Ok (f p)"

definition parse_htpkg :: "rstr \<Rightarrow> PkgBuf \<Rightarrow> pattern_error + Matcher" where
  "parse_htpkg input base = (case strip_prefix (u ''//'') input of
     Some absr \<Rightarrow>
       if absr = u ''...'' then Ok (MPackagePrefix [])
       else (case strip_suffix (u ''/...'') absr of
           Some p \<Rightarrow> pat_result MPackagePrefix (join_rel_checked_pkg [] p)
         | None \<Rightarrow> pat_result MPackage (join_rel_checked_pkg [] absr))
   | None \<Rightarrow>
       if input = u ''.'' \<or> input = u ''..'' \<or> starts_with (u ''./'') input \<or> starts_with (u ''../'') input then
         (let (path_part, has_ellipsis) = (case strip_suffix (u ''/...'') input of
              Some p \<Rightarrow> (p, True) | None \<Rightarrow> (input, False))
          in case resolve_relative_pkg base path_part of
               Err e \<Rightarrow> Err (PatternEscapes e)
             | Ok pkg \<Rightarrow> if has_ellipsis then Ok (MPackagePrefix pkg) else Ok (MPackage pkg))
       else Err (InvalidPackageRef input))"

section \<open>The interface of the evaluators\<close>

lemma or_loop_Yes: "or_loop b rs = MatchYes \<longleftrightarrow> MatchYes \<in> set rs"
  by (induction b rs rule: or_loop.induct) auto

lemma or_loop_No: "or_loop b rs = MatchNo \<longleftrightarrow> \<not> b \<and> set rs \<subseteq> {MatchNo}"
  by (induction b rs rule: or_loop.induct) auto

lemma and_loop_Yes: "and_loop b rs = MatchYes \<longleftrightarrow> \<not> b \<and> set rs \<subseteq> {MatchYes}"
  by (induction b rs rule: and_loop.induct) auto

lemma and_loop_No: "and_loop b rs = MatchNo \<longleftrightarrow> MatchNo \<in> set rs"
  by (induction b rs rule: and_loop.induct) auto

lemma not_result_iff:
  "not_result r = MatchYes \<longleftrightarrow> r = MatchNo" "not_result r = MatchNo \<longleftrightarrow> r = MatchYes"
  by (cases r; simp)+

fun atomic :: "Matcher \<Rightarrow> bool" where
  "atomic (MOr _) = False"
| "atomic (MAnd _) = False"
| "atomic (MNot _) = False"
| "atomic _ = True"

text \<open>An evaluator of matchers in a context \<open>'c\<close> (a package, an address with its facts, a
  spec, a definition).\<close>

locale tri_eval =
  fixes eval :: "Matcher \<Rightarrow> 'c \<Rightarrow> MatchResult"
  assumes eval_Or: "eval (MOr ms) c = or_loop False (map (\<lambda>m. eval m c) ms)"
    and eval_And: "eval (MAnd ms) c = and_loop False (map (\<lambda>m. eval m c) ms)"
    and eval_Not: "eval (MNot m) c = not_result (eval m c)"
begin

lemma Or_Yes: "eval (MOr ms) c = MatchYes \<longleftrightarrow> (\<exists>m\<in>set ms. eval m c = MatchYes)"
  by (auto simp: eval_Or or_loop_Yes eq_commute [of MatchYes])

lemma Or_No: "eval (MOr ms) c = MatchNo \<longleftrightarrow> (\<forall>m\<in>set ms. eval m c = MatchNo)"
  by (auto simp: eval_Or or_loop_No)

lemma And_Yes: "eval (MAnd ms) c = MatchYes \<longleftrightarrow> (\<forall>m\<in>set ms. eval m c = MatchYes)"
  by (auto simp: eval_And and_loop_Yes)

lemma And_No: "eval (MAnd ms) c = MatchNo \<longleftrightarrow> (\<exists>m\<in>set ms. eval m c = MatchNo)"
  by (auto simp: eval_And and_loop_No eq_commute [of MatchNo])

lemma Not_Yes: "eval (MNot m) c = MatchYes \<longleftrightarrow> eval m c = MatchNo"
  and Not_No: "eval (MNot m) c = MatchNo \<longleftrightarrow> eval m c = MatchYes"
  by (simp_all add: eval_Not not_result_iff)

lemmas connectives = Or_Yes Or_No And_Yes And_No Not_Yes Not_No

text \<open>If the atoms are decided, so is every matcher.\<close>

lemma two_valued:
  assumes "\<And>m. atomic m \<Longrightarrow> eval m c = MatchYes \<or> eval m c = MatchNo"
  shows "eval m c = MatchYes \<or> eval m c = MatchNo"
proof (induction m)
  case (MOr ms)
  then show ?case unfolding Or_Yes Or_No by blast
next
  case (MAnd ms)
  then show ?case unfolding And_Yes And_No by blast
next
  case (MNot m)
  then show ?case unfolding Not_Yes Not_No by blast
qed (simp_all add: assms)

end

text \<open>A cheap evaluator against an exact one.  The law is about atoms only; the lemma carries
  it to every matcher.\<close>

locale decides =
  approx: tri_eval approx + exact: tri_eval exact
  for approx exact :: "Matcher \<Rightarrow> 'c \<Rightarrow> MatchResult" +
  fixes ok :: "'c \<Rightarrow> bool"
  assumes atom: "ok c \<Longrightarrow> atomic m \<Longrightarrow> approx m c \<noteq> MatchShrug \<Longrightarrow> exact m c = approx m c"
begin

lemma yes_no: "ok c \<Longrightarrow> (approx m c = MatchYes \<longrightarrow> exact m c = MatchYes) \<and> (approx m c = MatchNo \<longrightarrow> exact m c = MatchNo)"
proof (induction m)
  case (MOr ms)
  then show ?case by (auto simp: approx.connectives exact.connectives)
next
  case (MAnd ms)
  then show ?case by (auto simp: approx.connectives exact.connectives)
next
  case (MNot m)
  then show ?case by (auto simp: approx.connectives exact.connectives)
qed (simp_all add: atom)

lemma sound: "ok c \<Longrightarrow> approx m c \<noteq> MatchShrug \<Longrightarrow> exact m c = approx m c"
  using yes_no by (cases "approx m c") auto

end

interpretation pkg_eval: tri_eval matches_pkg
  by unfold_locales simp_all

interpretation listed_eval: tri_eval "\<lambda>m (addr, facts). matches_listed m addr facts"
  by unfold_locales (simp_all split: prod.split)

text \<open>Evaluating with no facts is decided by evaluating with any facts, and evaluating a
  package by evaluating an address of it.\<close>

interpretation addr_listed: decides
  "\<lambda>m (addr, facts). matches_addr m addr" "\<lambda>m (addr, facts). matches_listed m addr facts" "\<lambda>_. True"
proof unfold_locales
  fix c :: "AddrInner \<times> ListedFacts" and m
  assume "atomic m" "(case c of (addr, facts) \<Rightarrow> matches_addr m addr) \<noteq> MatchShrug"
  then show "(case c of (addr, facts) \<Rightarrow> matches_listed m addr facts) = (case c of (addr, facts) \<Rightarrow> matches_addr m addr)"
    by (cases m) (auto simp: matches_addr_def UNKNOWN_def split: prod.splits if_splits)
qed (simp_all add: matches_addr_def split: prod.split)

interpretation pkg_addr: decides
  "\<lambda>m addr. matches_pkg m (addr_package addr)" matches_addr "\<lambda>_. True"
proof unfold_locales
  fix c :: AddrInner and m
  assume "atomic m" "matches_pkg m (addr_package c) \<noteq> MatchShrug"
  then show "matches_addr m c = matches_pkg m (addr_package c)"
    by (cases m) (auto simp: matches_addr_def UNKNOWN_def split: if_splits)
qed (simp_all add: matches_addr_def)

section \<open>Properties\<close>

lemma agree_fields [simp]:
  "lf_labels (agree a b) = Some l \<longleftrightarrow> lf_labels a = Some l \<and> lf_labels b = Some l"
  "lf_driver (agree a b) = Some d \<longleftrightarrow> lf_driver a = Some d \<and> lf_driver b = Some d"
  "lf_has_codegen (agree a b) = Some g \<longleftrightarrow> lf_has_codegen a = Some g \<and> lf_has_codegen b = Some g"
  by (auto simp: agree_def)

lemma facts_eqI:
  assumes "\<And>l. lf_labels a = Some l \<longleftrightarrow> lf_labels b = Some l"
    and "\<And>d. lf_driver a = Some d \<longleftrightarrow> lf_driver b = Some d"
    and "\<And>g. lf_has_codegen a = Some g \<longleftrightarrow> lf_has_codegen b = Some g"
  shows "a = (b :: ListedFacts)"
  using assms by (intro ListedFacts.equality option_ext) simp_all

text \<open>Reconciling listings is order independent: \<^verbatim>\<open>ListedFacts::agree\<close> is commutative,
  associative and idempotent, and a field of the result is known exactly when both listings know
  it with the same value.\<close>

theorem agree_semilattice:
  "agree a b = agree b a \<and> agree (agree a b) c = agree a (agree b c) \<and> agree a a = a
   \<and> (lf_labels (agree a b) = Some l \<longleftrightarrow> lf_labels a = Some l \<and> lf_labels b = Some l)
   \<and> (lf_driver (agree a b) = Some d \<longleftrightarrow> lf_driver a = Some d \<and> lf_driver b = Some d)
   \<and> (lf_has_codegen (agree a b) = Some g \<longleftrightarrow> lf_has_codegen a = Some g \<and> lf_has_codegen b = Some g)"
  by (intro conjI facts_eqI; auto)

text \<open>A walk may skip merging listings for a matcher that does not read them: unless
  \<^verbatim>\<open>reads_listed_facts\<close> says so, the facts cannot change any answer.  And what the address
  or the package alone decides, the facts never overturn.\<close>

theorem unread_facts_do_not_matter:
  "(\<not> reads_listed_facts m \<longrightarrow> matches_listed m addr facts = matches_addr m addr)
   \<and> (matches_addr m addr \<noteq> MatchShrug \<longrightarrow> matches_listed m addr facts = matches_addr m addr)
   \<and> (matches_pkg m (addr_package addr) \<noteq> MatchShrug \<longrightarrow> matches_addr m addr = matches_pkg m (addr_package addr))"
proof (intro conjI impI)
  assume "\<not> reads_listed_facts m"
  then show "matches_listed m addr facts = matches_addr m addr"
    unfolding matches_addr_def
    by (induction m) (auto simp: list_ex_iff UNKNOWN_def cong: map_cong)
next
  assume "matches_addr m addr \<noteq> MatchShrug"
  then show "matches_listed m addr facts = matches_addr m addr"
    using addr_listed.sound [where c = "(addr, facts)" and m = m] by simp
next
  assume "matches_pkg m (addr_package addr) \<noteq> MatchShrug"
  then show "matches_addr m addr = matches_pkg m (addr_package addr)"
    using pkg_addr.sound [where c = addr and m = m] by simp
qed

theorem unread_facts_do_not_matter_witness:
  "\<not> reads_listed_facts (MPackage (u ''a''))
   \<and> (\<forall>a. matches_listed (MPackage (u ''a'')) a (with_driver UNKNOWN (u ''go'')) = matches_addr (MPackage (u ''a'')) a)"
  using unread_facts_do_not_matter [of "MPackage (u ''a'')" _ "with_driver UNKNOWN (u ''go'')"] by simp

text \<open>Label validation accepts exactly the well-formed labels and its error describes the
  first character outside the alphabet; a label it accepts cannot read like a query expression,
  so the hint for a misplaced query is never given for a valid label.\<close>

theorem label_validation:
  "(is_ok (validate_label s) \<longleftrightarrow> is_valid_label s)
   \<and> (is_valid_label s \<longrightarrow> \<not> looks_like_query_expr s)
   \<and> (\<forall>d. validate_label s = Err (InvalidLabel s d) \<longleftrightarrow>
        (\<exists>good bad rest. s = good @ bad # rest \<and> list_all is_label_char good \<and> \<not> is_label_char bad
           \<and> d = describe_char bad))"
proof (intro conjI impI allI)
  show "is_ok (validate_label s) \<longleftrightarrow> is_valid_label s"
    by (auto simp: validate_label_def is_valid_label_def list_all_iff find_None_iff split: option.splits)
       (auto simp: find_Some_iff)
next
  assume "is_valid_label s"
  moreover have "is_label_char c \<Longrightarrow> \<not> (c \<in> set (u ''&|!()'') \<or> is_whitespace c)" for c
    by (auto simp: is_label_char_def char_class_defs)
  ultimately show "\<not> looks_like_query_expr s"
    by (auto simp: is_valid_label_def looks_like_query_expr_def list_all_iff list_ex_iff)
next
  fix d
  have "validate_label s = Err (InvalidLabel s d)
      \<longleftrightarrow> (\<exists>bad. find (\<lambda>c. \<not> is_label_char c) s = Some bad \<and> d = describe_char bad)"
    by (cases "s = []") (auto simp: validate_label_def split: option.splits)
  then show "validate_label s = Err (InvalidLabel s d) \<longleftrightarrow>
      (\<exists>good bad rest. s = good @ bad # rest \<and> list_all is_label_char good \<and> \<not> is_label_char bad \<and> d = describe_char bad)"
    unfolding find_Some_split by auto
qed

theorem label_validation_witness:
  "is_valid_label (u ''go-test'') \<and> \<not> looks_like_query_expr (u ''go-test'')"
proof -
  have "is_valid_label (u ''go-test'')" by code_simp
  then show ?thesis using label_validation [of "u ''go-test''"] by blast
qed

text \<open>A package pattern always denotes one package or one subtree, and its root is a
  package inside the workspace with no \<^verbatim>\<open>.\<close> or \<^verbatim>\<open>..\<close> left; an absolute pattern
  does not depend on the base, and \<^verbatim>\<open>//p/...\<close> is the subtree of \<^verbatim>\<open>p\<close>.\<close>

theorem parse_htpkg_sound:
  assumes "parse_htpkg input base = Ok m"
  shows "(\<exists>p. clean_pkg p \<and> (m = MPackage p \<or> m = MPackagePrefix p))
    \<and> (starts_with (u ''//'') input \<longrightarrow> parse_htpkg input base' = Ok m)
    \<and> (\<forall>p. clean_pkg p \<and> p \<noteq> [] \<and> input = u ''//'' @ p @ u ''/...'' \<longrightarrow> m = MPackagePrefix p)"
proof (intro conjI impI allI)
  have root: "clean_pkg []" by (simp add: clean_pkg_def)
  show "\<exists>p. clean_pkg p \<and> (m = MPackage p \<or> m = MPackagePrefix p)"
    using assms root
    by (auto simp: parse_htpkg_def Let_def resolve_relative_pkg_def split: option.splits if_splits sum.splits
        elim!: pat_result.elims dest: join_rel_checked_pkg_clean)
next
  assume "starts_with (u ''//'') input"
  then show "parse_htpkg input base' = Ok m"
    using assms by (auto simp: parse_htpkg_def starts_with_def split: option.splits)
next
  fix p assume p: "clean_pkg p \<and> p \<noteq> [] \<and> input = u ''//'' @ p @ u ''/...''"
  then have "strip_suffix (u ''/...'') (p @ u ''/...'') = Some p" by (simp add: strip_suffix_Some)
  moreover have "p @ u ''/...'' \<noteq> u ''...''" using p by (auto simp: append_eq_Cons_conv)
  ultimately show "m = MPackagePrefix p"
    using assms p clean_pkg_fixpoint [of p] by (simp add: parse_htpkg_def del: u.simps)
qed

theorem parse_htpkg_sound_witness:
  "parse_htpkg (u ''//a/b/...'') [] = Ok (MPackagePrefix (u ''a/b''))
   \<and> parse_htpkg (u ''//a/b/...'') (u ''base'') = Ok (MPackagePrefix (u ''a/b''))"
proof -
  have p: "parse_htpkg (u ''//a/b/...'') [] = Ok (MPackagePrefix (u ''a/b''))" by code_simp
  have "starts_with (u ''//'') (u ''//a/b/...'')" by code_simp
  then show ?thesis using parse_htpkg_sound [OF p, of "u ''base''"] p by blast
qed

end
