(* ===== verification/Target.thy ===== *)
theory Target
  imports Matcher
begin

text \<open>
  Targets: the reference to a target's output (\<^verbatim>\<open>TargetAddr\<close>), the spec a provider
  returns and the definition a driver parses from it (crates/plugin/src/driver.rs and
  provider.rs), and the engine's evaluators of a matcher on them (engine/matcher_spec.rs,
  engine/matcher_target.rs), with the forced selection of a run
  (\<^verbatim>\<open>Selection\<close>, engine/request_state.rs) and the check of listed facts (engine/listed.rs).

  The records hold the fields the modelled code reads.  \<open>def_of_spec\<close> is what the evaluators
  rely on: a definition carries the address and the labels of the spec it was parsed from.
\<close>

section \<open>References to targets\<close>

record TargetAddr =
  ta_ref :: AddrInner
  ta_output :: "rstr option"
  ta_filters :: "rstr list"

definition format_target_addr :: "TargetAddr \<Rightarrow> rstr" where
  "format_target_addr t =
     (case ta_output t of
        Some out \<Rightarrow> format_addr (ta_ref t) @ [c_pipe] @ out
      | None \<Rightarrow> format_addr (ta_ref t))
     @ (if ta_filters t = [] then [] else u ''['' @ join_with c_comma (ta_filters t) @ u '']'')"

abbreviation c_lbracket :: rchar where "c_lbracket \<equiv> 91"
abbreviation c_rbracket :: rchar where "c_rbracket \<equiv> 93"
abbreviation c_lbrace :: rchar where "c_lbrace \<equiv> 123"
abbreviation c_rbrace :: rchar where "c_rbrace \<equiv> 125"

text \<open>The loop of \<^verbatim>\<open>split_filters\<close>: the brace depth, the current piece, the pieces so far.\<close>

fun split_filters_loop :: "nat \<Rightarrow> rstr \<Rightarrow> rstr list \<Rightarrow> rstr \<Rightarrow> rstr list" where
  "split_filters_loop depth cur out [] = out @ [cur]"
| "split_filters_loop depth cur out (c # cs) =
     (if c = c_lbrace then split_filters_loop (depth + 1) (cur @ [c]) out cs
      else if c = c_rbrace then split_filters_loop (depth - 1) (cur @ [c]) out cs
      else if c = c_comma \<and> depth = 0 then split_filters_loop depth [] (out @ [cur]) cs
      else split_filters_loop depth (cur @ [c]) out cs)"

definition split_filters :: "rstr \<Rightarrow> rstr list" where
  "split_filters rest = (if rest = [] then [] else split_filters_loop 0 [] [] rest)"

datatype target_addr_error = UnclosedBracket rstr | BadAddr addr_error | InvalidTargetAddr

fun lift_addr :: "addr_error + 'a \<Rightarrow> target_addr_error + 'a" where
  "lift_addr (Inl e) = Err (BadAddr e)"
| "lift_addr (Inr x) = Ok x"

definition parse_target_addr :: "nom \<Rightarrow> rstr \<Rightarrow> PkgBuf \<Rightarrow> target_addr_error + TargetAddr" where
  "parse_target_addr N v base =
     rbind (case rsplit_once c_lbracket v of
              Some (addr_part, rest) \<Rightarrow> (case strip_suffix [c_rbracket] rest of
                  None \<Rightarrow> Err (UnclosedBracket v)
                | Some rest \<Rightarrow> Ok (addr_part, split_filters rest))
            | None \<Rightarrow> Ok (v, []))
       (\<lambda>(v, filters). case split_on c_pipe v of
            [v] \<Rightarrow> rbind (lift_addr (parse_addr_with_base N v base))
              (\<lambda>r. Ok \<lparr> ta_ref = r, ta_output = None, ta_filters = filters \<rparr>)
          | [addr, out] \<Rightarrow> rbind (lift_addr (parse_addr_with_base N addr base))
              (\<lambda>r. Ok \<lparr> ta_ref = r, ta_output = Some out, ta_filters = filters \<rparr>)
          | _ \<Rightarrow> Err InvalidTargetAddr)"

section \<open>Specs and definitions\<close>

datatype InputMode = Standard | Link | Tool

record Input =
  i_ref :: TargetAddr
  i_mode :: InputMode
  i_origin_id :: rstr
  i_annotations :: "(rstr \<times> rstr) list"
  i_hashed :: bool
  i_runtime :: bool

datatype Content = FilePath rstr | DirPath rstr | Glob rstr

datatype CodegenMode = CodegenNone | CodegenCopy | CodegenInPlace

record Path =
  p_content :: Content
  p_codegen_tree :: CodegenMode
  p_collect :: bool

record Output =
  o_group :: rstr
  o_paths :: "Path list"

datatype Workdir = Caller | TreeRoot | SandboxDir | TreePackage

record Entrypoint =
  ep_accepts_args :: bool
  ep_workdir :: Workdir
  ep_offers_pty :: bool

record TargetDef =
  td_addr :: AddrInner
  td_labels :: "rstr list"
  td_inputs :: "Input list"
  td_outputs :: "Output list"
  td_support_files :: "Path list"
  td_entrypoint :: "Entrypoint option"
  td_transparent :: bool

record TargetSpec =
  ts_addr :: AddrInner
  ts_driver :: rstr
  ts_labels :: "rstr list"

definition output_names :: "TargetDef \<Rightarrow> rstr list" where
  "output_names def = rev (remdups (rev (map o_group (td_outputs def))))"

section \<open>Matching a spec\<close>

fun match_spec :: "Matcher \<Rightarrow> TargetSpec \<Rightarrow> MatchResult" where
  "match_spec (MAddr addr) spec = (if ts_addr spec = addr then MatchYes else MatchNo)"
| "match_spec (MLabel label) spec = (if label \<in> set (ts_labels spec) then MatchYes else MatchNo)"
| "match_spec (MDriver driver) spec = (if ts_driver spec = driver then MatchYes else MatchNo)"
| "match_spec (MPackage pkg) spec = (if addr_package (ts_addr spec) = pkg then MatchYes else MatchNo)"
| "match_spec (MPackagePrefix pkg) spec =
     (if has_prefix (addr_package (ts_addr spec)) pkg then MatchYes else MatchNo)"
| "match_spec (MOr ms) spec = or_loop False (map (\<lambda>m. match_spec m spec) ms)"
| "match_spec (MAnd ms) spec = and_loop False (map (\<lambda>m. match_spec m spec) ms)"
| "match_spec (MTreeOutputTo _) spec = MatchShrug"
| "match_spec (MNot m) spec = not_result (match_spec m spec)"

section \<open>Matching a definition\<close>

fun strip_dot_slash :: "rstr \<Rightarrow> rstr" where
  "strip_dot_slash (a # b # s) = (if a = c_dot \<and> b = c_slash then strip_dot_slash s else a # b # s)"
| "strip_dot_slash s = s"

definition path_to_pkg :: "rstr \<Rightarrow> rstr" where
  "path_to_pkg s = (if s = u ''.'' \<or> s = [] then []
     else trim_end_matches (\<lambda>c. c = c_slash) (strip_dot_slash s))"

definition parent_dir :: "rstr \<Rightarrow> rstr" where
  "parent_dir p = (case rsplit_once c_slash p of Some (parent, _) \<Rightarrow> parent | None \<Rightarrow> [])"

text \<open>The scan of \<^verbatim>\<open>glob_split\<close>, at index \<open>i\<close> with the start of the current segment.\<close>

fun glob_scan :: "nat \<Rightarrow> nat \<Rightarrow> rstr \<Rightarrow> rstr \<Rightarrow> rstr \<times> rstr" where
  "glob_scan seg_start i g [] = (g, [])"
| "glob_scan seg_start i g (c # cs) =
     (if c = c_slash then glob_scan (i + 1) (i + 1) g cs
      else if c \<in> {42, 63, 91, 123} then (take (seg_start - 1) g, drop seg_start g)
      else glob_scan seg_start (i + 1) g cs)"

definition glob_split :: "rstr \<Rightarrow> rstr \<times> rstr" where
  "glob_split g = glob_scan 0 0 g g"

text \<open>What one codegen path of an output says of the matcher's package.\<close>

definition path_matches :: "PkgBuf \<Rightarrow> Path \<Rightarrow> bool" where
  "path_matches matcher_pkg path = (
     if p_codegen_tree path = CodegenNone then False
     else (let (out_pkg, accept_either) = (case p_content path of
                FilePath p \<Rightarrow> (path_to_pkg (parent_dir p), False)
              | DirPath p \<Rightarrow> (path_to_pkg p, True)
              | Glob g \<Rightarrow> (path_to_pkg (fst (glob_split g)), True))
           in if accept_either then has_prefix out_pkg matcher_pkg \<or> has_prefix matcher_pkg out_pkg
              else has_prefix out_pkg matcher_pkg))"

fun match_target :: "Matcher \<Rightarrow> TargetSpec \<Rightarrow> TargetDef \<Rightarrow> MatchResult" where
  "match_target (MDriver driver) spec def = (if ts_driver spec = driver then MatchYes else MatchNo)"
| "match_target (MAddr addr) spec def = (if td_addr def = addr then MatchYes else MatchNo)"
| "match_target (MLabel label) spec def = (if label \<in> set (td_labels def) then MatchYes else MatchNo)"
| "match_target (MTreeOutputTo matcher_pkg) spec def =
     (if \<not> has_prefix (addr_package (td_addr def)) matcher_pkg
         \<and> \<not> has_prefix matcher_pkg (addr_package (td_addr def)) then MatchNo
      else if list_ex (\<lambda>out. list_ex (path_matches matcher_pkg) (o_paths out)) (td_outputs def)
      then MatchYes else MatchNo)"
| "match_target (MPackage pkg) spec def = (if addr_package (td_addr def) = pkg then MatchYes else MatchNo)"
| "match_target (MPackagePrefix p) spec def =
     (if has_prefix (addr_package (td_addr def)) p then MatchYes else MatchNo)"
| "match_target (MOr ms) spec def = or_loop False (map (\<lambda>m. match_target m spec def) ms)"
| "match_target (MAnd ms) spec def = and_loop False (map (\<lambda>m. match_target m spec def) ms)"
| "match_target (MNot m) spec def = not_result (match_target m spec def)"

section \<open>Listed facts against what a target resolves to\<close>

datatype ListedFactsTrust = Trust | Ignore

definition from_kill_switch :: "bool \<Rightarrow> ListedFactsTrust" where
  "from_kill_switch s = (if s then Ignore else Trust)"

definition trusts :: "ListedFactsTrust \<Rightarrow> bool" where
  "trusts t \<longleftrightarrow> t = Trust"

definition def_has_codegen :: "TargetDef \<Rightarrow> bool" where
  "def_has_codegen def \<longleftrightarrow>
     list_ex (\<lambda>p. p_codegen_tree p \<noteq> CodegenNone) (concat (map o_paths (td_outputs def)))"

datatype ListedField = FieldLabels | FieldDriver | FieldHasCodegen

text \<open>The differing fields; the two rendered values of each entry are left out.\<close>

definition listed_differences :: "ListedFacts \<Rightarrow> TargetSpec \<Rightarrow> TargetDef option \<Rightarrow> ListedField list" where
  "listed_differences facts spec def =
     (case lf_labels facts of
        Some listed \<Rightarrow>
          (let resolved = (case lf_labels (with_labels UNKNOWN (ts_labels spec)) of Some r \<Rightarrow> r | None \<Rightarrow> [])
           in if listed \<noteq> resolved then [FieldLabels] else [])
      | None \<Rightarrow> [])
   @ (case lf_driver facts of
        Some listed \<Rightarrow> if listed \<noteq> ts_driver spec then [FieldDriver] else []
      | None \<Rightarrow> [])
   @ (case (lf_has_codegen facts, def) of
        (Some listed, Some def) \<Rightarrow> if listed \<noteq> def_has_codegen def then [FieldHasCodegen] else []
      | _ \<Rightarrow> [])"

section \<open>The forced selection\<close>

text \<open>\<^verbatim>\<open>slice::binary_search_by\<close> on a sorted slice, as a bisection of \<open>[lo, hi)\<close>.\<close>

function bisect :: "'a::linorder list \<Rightarrow> 'a \<Rightarrow> nat \<Rightarrow> nat \<Rightarrow> bool" where
  "bisect xs x lo hi = (if lo < hi then
     (let mid = (lo + hi) div 2; y = xs ! mid
      in if y = x then True else if y < x then bisect xs x (mid + 1) hi else bisect xs x lo mid)
   else False)"
  by pat_completeness auto
termination
  by (relation "measure (\<lambda>(_, _, lo, hi). hi - lo)") auto

definition binary_search :: "'a::linorder list \<Rightarrow> 'a \<Rightarrow> bool" where
  "binary_search xs x = bisect xs x 0 (length xs)"

record Selection =
  sel_matcher :: Matcher
  sel_packages :: "PkgBuf list list"
  sel_force :: bool
  sel_no_scratch :: bool

definition selects :: "Selection \<Rightarrow> AddrInner \<Rightarrow> TargetSpec \<Rightarrow> TargetDef \<Rightarrow> bool" where
  "selects self addr spec def =
     (let by_addr = matches_addr (sel_matcher self) addr
      in if by_addr = MatchNo then False
         else if \<not> list_ex (\<lambda>pkgs. binary_search pkgs (addr_package addr)) (sel_packages self) then False
         else if by_addr = MatchYes then True
         else (case match_spec (sel_matcher self) spec of
             MatchYes \<Rightarrow> True
           | MatchNo \<Rightarrow> False
           | MatchShrug \<Rightarrow> match_target (sel_matcher self) spec def = MatchYes))"

definition effective :: "Selection \<Rightarrow> bool \<Rightarrow> bool \<Rightarrow> AddrInner \<Rightarrow> TargetSpec \<Rightarrow> TargetDef \<Rightarrow> bool \<times> bool" where
  "effective self force no_scratch addr spec def =
     (let adds = (sel_force self \<and> \<not> force) \<or> (sel_no_scratch self \<and> \<not> no_scratch)
      in if \<not> adds \<or> \<not> selects self addr spec def then (force, no_scratch)
         else (force \<or> sel_force self, no_scratch \<or> sel_no_scratch self))"

section \<open>The bisection\<close>

declare bisect.simps [simp del]

lemma bisect_iff:
  "\<lbrakk>sorted xs; hi \<le> length xs\<rbrakk> \<Longrightarrow> bisect xs x lo hi \<longleftrightarrow> (\<exists>i. lo \<le> i \<and> i < hi \<and> xs ! i = x)"
proof (induction xs x lo hi rule: bisect.induct)
  case (1 xs x lo hi)
  let ?mid = "(lo + hi) div 2"
  show ?case
  proof (cases "lo < hi")
    case False
    then show ?thesis by (subst bisect.simps) auto
  next
    case True
    then have mid: "lo \<le> ?mid" "?mid < hi" by auto
    have below: "xs ! i \<le> xs ! ?mid" if "i \<le> ?mid" for i
      using "1.prems" mid that by (simp add: sorted_nth_mono)
    have above: "xs ! ?mid \<le> xs ! i" if "?mid \<le> i" "i < hi" for i
      using "1.prems" that by (simp add: sorted_nth_mono)
    consider "xs ! ?mid = x" | "xs ! ?mid < x" | "x < xs ! ?mid" by (metis neq_iff)
    then show ?thesis
    proof cases
      case 1
      then show ?thesis using True mid by (subst bisect.simps) (auto simp: Let_def)
    next
      case 2
      then have "bisect xs x lo hi = bisect xs x (?mid + 1) hi"
        using True by (subst bisect.simps) (auto simp: Let_def)
      also have "\<dots> \<longleftrightarrow> (\<exists>i. ?mid + 1 \<le> i \<and> i < hi \<and> xs ! i = x)"
        using "1.IH"(1) [OF True refl refl] 2 "1.prems" by simp
      also have "\<dots> \<longleftrightarrow> (\<exists>i. lo \<le> i \<and> i < hi \<and> xs ! i = x)"
      proof (intro ex_cong1)
        fix i show "(?mid + 1 \<le> i \<and> i < hi \<and> xs ! i = x) = (lo \<le> i \<and> i < hi \<and> xs ! i = x)"
          using below [of i] 2 mid by (cases "i \<le> ?mid") auto
      qed
      finally show ?thesis .
    next
      case 3
      then have "bisect xs x lo hi = bisect xs x lo ?mid"
        using True by (subst bisect.simps) (auto simp: Let_def)
      also have "\<dots> \<longleftrightarrow> (\<exists>i. lo \<le> i \<and> i < ?mid \<and> xs ! i = x)"
        using "1.IH"(2) [OF True refl refl] 3 "1.prems" mid by simp
      also have "\<dots> \<longleftrightarrow> (\<exists>i. lo \<le> i \<and> i < hi \<and> xs ! i = x)"
      proof (intro ex_cong1)
        fix i show "(lo \<le> i \<and> i < ?mid \<and> xs ! i = x) = (lo \<le> i \<and> i < hi \<and> xs ! i = x)"
          using above [of i] 3 mid by (cases "?mid \<le> i") auto
      qed
      finally show ?thesis .
    qed
  qed
qed

lemma binary_search_iff: "sorted xs \<Longrightarrow> binary_search xs x \<longleftrightarrow> x \<in> set xs"
  by (auto simp: binary_search_def bisect_iff in_set_conv_nth)

section \<open>The ladder of evaluators\<close>

definition def_of_spec :: "TargetSpec \<Rightarrow> TargetDef \<Rightarrow> bool" where
  "def_of_spec spec def \<longleftrightarrow> td_addr def = ts_addr spec \<and> set (td_labels def) = set (ts_labels spec)"

lemma no_codegen_no_match:
  "\<not> def_has_codegen def \<Longrightarrow> \<not> list_ex (\<lambda>out. list_ex (path_matches p) (o_paths out)) (td_outputs def)"
  by (auto simp: def_has_codegen_def list_ex_iff path_matches_def)

lemma listed_labels_exact:
  assumes "listed_differences facts spec d = []" and "lf_labels facts = Some labels"
  shows "set labels = set (ts_labels spec)"
  using assms by (simp add: listed_differences_def Let_def with_labels_def with_label_set_def split: if_splits)

lemma listed_driver_exact:
  assumes "listed_differences facts spec d = []" and "lf_driver facts = Some driver"
  shows "driver = ts_driver spec"
  using assms by (simp add: listed_differences_def split: if_splits)

lemma listed_codegen_exact:
  assumes "listed_differences facts spec (Some def) = []" and "lf_has_codegen facts = Some b"
  shows "b = def_has_codegen def"
  using assms by (simp add: listed_differences_def split: if_splits)

interpretation target_eval: tri_eval "\<lambda>m (spec, def). match_target m spec def"
  by unfold_locales (simp_all split: prod.split)

interpretation pkg_target: decides
  "\<lambda>m (spec, def). matches_pkg m (addr_package (ts_addr spec))" "\<lambda>m (spec, def). match_target m spec def"
  "\<lambda>(spec, def). def_of_spec spec def"
proof unfold_locales
  fix c :: "TargetSpec \<times> TargetDef" and m
  assume "case c of (spec, def) \<Rightarrow> def_of_spec spec def" "atomic m"
    "(case c of (spec, def) \<Rightarrow> matches_pkg m (addr_package (ts_addr spec))) \<noteq> MatchShrug"
  then show "(case c of (spec, def) \<Rightarrow> match_target m spec def) = (case c of (spec, def) \<Rightarrow> matches_pkg m (addr_package (ts_addr spec)))"
    by (cases m) (auto simp: def_of_spec_def split: prod.splits if_splits)
qed (simp_all split: prod.split)

interpretation spec_target: decides
  "\<lambda>m (spec, def). match_spec m spec" "\<lambda>m (spec, def). match_target m spec def"
  "\<lambda>(spec, def). def_of_spec spec def"
proof unfold_locales
  fix c :: "TargetSpec \<times> TargetDef" and m
  assume "case c of (spec, def) \<Rightarrow> def_of_spec spec def" "atomic m"
    "(case c of (spec, def) \<Rightarrow> match_spec m spec) \<noteq> MatchShrug"
  then show "(case c of (spec, def) \<Rightarrow> match_target m spec def) = (case c of (spec, def) \<Rightarrow> match_spec m spec)"
    by (cases m) (auto simp: def_of_spec_def split: prod.splits)
qed (simp_all split: prod.split)

interpretation listed_target: decides
  "\<lambda>m (facts, spec, def). matches_listed m (ts_addr spec) facts" "\<lambda>m (facts, spec, def). match_target m spec def"
  "\<lambda>(facts, spec, def). def_of_spec spec def \<and> listed_differences facts spec (Some def) = []"
proof unfold_locales
  fix c :: "ListedFacts \<times> TargetSpec \<times> TargetDef" and m
  assume ok: "case c of (facts, spec, def) \<Rightarrow> def_of_spec spec def \<and> listed_differences facts spec (Some def) = []"
    and m: "atomic m" "(case c of (facts, spec, def) \<Rightarrow> matches_listed m (ts_addr spec) facts) \<noteq> MatchShrug"
  obtain facts spec def where c: "c = (facts, spec, def)" by (cases c)
  have d: "def_of_spec spec def" "listed_differences facts spec (Some def) = []" using ok c by auto
  note exact = listed_labels_exact [OF d(2)] listed_driver_exact [OF d(2)] listed_codegen_exact [OF d(2)]
  have "match_target m spec def = matches_listed m (ts_addr spec) facts"
    using m d(1) exact no_codegen_no_match [of def] unfolding c
    by (cases m) (auto simp: def_of_spec_def split: option.splits if_splits)
  then show "(case c of (facts, spec, def) \<Rightarrow> match_target m spec def)
      = (case c of (facts, spec, def) \<Rightarrow> matches_listed m (ts_addr spec) facts)"
    by (simp add: c)
qed (simp_all split: prod.split)

lemma match_target_two_valued: "match_target m spec def = MatchYes \<or> match_target m spec def = MatchNo"
proof -
  have "match_target a spec def = MatchYes \<or> match_target a spec def = MatchNo" if "atomic a" for a
    using that by (cases a) auto
  then show ?thesis using target_eval.two_valued [of "(spec, def)" m] by simp
qed

section \<open>Reading back a reference\<close>

text \<open>The brace depth after a filter, when no comma of it stands outside braces.\<close>

fun filter_depth :: "nat \<Rightarrow> rstr \<Rightarrow> nat option" where
  "filter_depth d [] = Some d"
| "filter_depth d (c # cs) =
     (if c = c_lbrace then filter_depth (d + 1) cs
      else if c = c_rbrace then filter_depth (d - 1) cs
      else if c = c_comma \<and> d = 0 then None
      else filter_depth d cs)"

definition wf_filter :: "rstr \<Rightarrow> bool" where
  "wf_filter f \<longleftrightarrow> f \<noteq> [] \<and> c_lbracket \<notin> set f \<and> filter_depth 0 f = Some 0"

definition wf_target_addr :: "TargetAddr \<Rightarrow> bool" where
  "wf_target_addr t \<longleftrightarrow> wf_addr (ta_ref t) \<and> c_pipe \<notin> set (format_addr (ta_ref t))
     \<and> c_lbracket \<notin> set (format_addr (ta_ref t))
     \<and> list_all (\<lambda>out. c_pipe \<notin> set out \<and> c_lbracket \<notin> set out) (case ta_output t of Some out \<Rightarrow> [out] | None \<Rightarrow> [])
     \<and> list_all wf_filter (ta_filters t)"

lemma split_filters_loop_depth:
  "filter_depth d f = Some d' \<Longrightarrow> split_filters_loop d cur out (f @ rest) = split_filters_loop d' (cur @ f) out rest"
  by (induction d f arbitrary: cur rule: filter_depth.induct) (auto split: if_splits)

lemma split_filters_loop_join:
  "fs \<noteq> [] \<Longrightarrow> list_all wf_filter fs \<Longrightarrow> split_filters_loop 0 [] out (join_with c_comma fs) = out @ fs"
proof (induction c_comma fs arbitrary: out rule: join_with.induct)
  case (2 w)
  then show ?case using split_filters_loop_depth [of 0 w 0 "[]" out "[]"] by (simp add: wf_filter_def)
next
  case (3 w v ws)
  then show ?case
    using split_filters_loop_depth [of 0 w 0 "[]" out "c_comma # join_with c_comma (v # ws)"]
    by (simp add: wf_filter_def)
qed simp

lemma split_filters_join: "fs \<noteq> [] \<Longrightarrow> list_all wf_filter fs \<Longrightarrow> split_filters (join_with c_comma fs) = fs"
  using split_filters_loop_join [of fs "[]"]
  by (auto simp: split_filters_def join_with_eq_Nil wf_filter_def)

lemma format_addr_absolute: "starts_with (u ''//'') (format_addr a)"
  by (simp add: format_addr_def starts_with_iff)

lemma parse_format_target_addr:
  assumes "wf_target_addr t"
  shows "parse_target_addr nom_std (format_target_addr t) base = Ok t"
proof -
  define body where "body = (case ta_output t of Some out \<Rightarrow> format_addr (ta_ref t) @ [c_pipe] @ out | None \<Rightarrow> format_addr (ta_ref t))"
  have addr: "parse_addr_with_base nom_std (format_addr (ta_ref t)) base = Ok (ta_ref t)"
    using assms format_addr_absolute [of "ta_ref t"]
    by (simp add: parse_addr_with_base_def wf_target_addr_def parse_format_addr)
  have nb: "c_lbracket \<notin> set body" using assms by (auto simp: body_def wf_target_addr_def split: option.splits)
  have body_split: "split_on c_pipe body = (case ta_output t of Some out \<Rightarrow> [format_addr (ta_ref t), out] | None \<Rightarrow> [format_addr (ta_ref t)])"
    using assms by (auto simp: body_def wf_target_addr_def split_on_append split: option.splits)
  have tail: "(case split_on c_pipe body of
            [v] \<Rightarrow> rbind (lift_addr (parse_addr_with_base nom_std v base))
              (\<lambda>r. Ok \<lparr> ta_ref = r, ta_output = None, ta_filters = ta_filters t \<rparr>)
          | [addr, out] \<Rightarrow> rbind (lift_addr (parse_addr_with_base nom_std addr base))
              (\<lambda>r. Ok \<lparr> ta_ref = r, ta_output = Some out, ta_filters = ta_filters t \<rparr>)
          | _ \<Rightarrow> Err InvalidTargetAddr) = Ok t"
    unfolding body_split by (cases "ta_output t") (simp_all add: addr)
  show ?thesis
  proof (cases "ta_filters t = []")
    case True
    then have "format_target_addr t = body" by (simp add: format_target_addr_def body_def)
    moreover have "rsplit_once c_lbracket body = None" using nb by (simp add: rsplit_once_None)
    ultimately show ?thesis using tail [unfolded True] by (simp add: parse_target_addr_def)
  next
    case False
    define fs where "fs = join_with c_comma (ta_filters t)"
    have fmt: "format_target_addr t = body @ c_lbracket # fs @ [c_rbracket]"
      using False by (simp add: format_target_addr_def body_def fs_def)
    have "c_lbracket \<notin> set fs"
      using set_join_with [of c_comma "ta_filters t"] assms
      by (auto simp: fs_def wf_target_addr_def list_all_iff wf_filter_def)
    then have "rsplit_once c_lbracket (format_target_addr t) = Some (body, fs @ [c_rbracket])"
      unfolding fmt by (intro rsplit_once_append) simp
    moreover have "strip_suffix [c_rbracket] (fs @ [c_rbracket]) = Some fs" by (simp add: strip_suffix_Some)
    moreover have "split_filters fs = ta_filters t"
      unfolding fs_def using assms False by (intro split_filters_join) (simp_all add: wf_target_addr_def)
    ultimately show ?thesis using tail by (simp add: parse_target_addr_def)
  qed
qed

section \<open>Properties\<close>

text \<open>C22: Pruning a package is sound: when the package path alone decides a matcher, every
  target of that package gets the same answer from its parsed definition, so a package skipped
  on \<^verbatim>\<open>MatchNo\<close> holds no target the matcher selects.\<close>

theorem package_prune_sound:
  assumes "def_of_spec spec def" and "matches_pkg m (addr_package (ts_addr spec)) \<noteq> MatchShrug"
  shows "match_target m spec def = matches_pkg m (addr_package (ts_addr spec))"
  using assms pkg_target.sound [where c = "(spec, def)" and m = m] by simp

theorem package_prune_sound_witness:
  "\<exists>spec def. def_of_spec spec def \<and> matches_pkg (MNot (MTreeOutputTo (u ''b''))) (addr_package (ts_addr spec)) = MatchYes
     \<and> match_target (MNot (MTreeOutputTo (u ''b''))) spec def = MatchYes"
proof -
  let ?a = "\<lparr> addr_package = u ''a'', addr_name = u ''t'', addr_args = [] \<rparr>"
  let ?s = "\<lparr> ts_addr = ?a, ts_driver = u ''exec'', ts_labels = [] \<rparr>"
  let ?d = "\<lparr> td_addr = ?a, td_labels = [], td_inputs = [], td_outputs = [], td_support_files = [], td_entrypoint = None, td_transparent = False \<rparr>"
  have "def_of_spec ?s ?d" by (simp add: def_of_spec_def)
  moreover have "matches_pkg (MNot (MTreeOutputTo (u ''b''))) (addr_package (ts_addr ?s)) = MatchYes" by code_simp
  ultimately show ?thesis
    using package_prune_sound [of ?s ?d "MNot (MTreeOutputTo (u ''b''))"] by (intro exI [of _ ?s] exI [of _ ?d]) simp
qed

text \<open>C13: A listed answer is final: when the facts of a listing pass the comparison
  \<^verbatim>\<open>heph validate\<close> makes (\<^verbatim>\<open>listed_differences\<close> is empty), an answer
  \<^verbatim>\<open>matches_listed\<close> decides from them is the answer of the parsed definition, through any
  nesting of \<^verbatim>\<open>And\<close>, \<^verbatim>\<open>Or\<close> and \<^verbatim>\<open>Not\<close>.\<close>

theorem listed_answer_final:
  assumes "def_of_spec spec def" and "listed_differences facts spec (Some def) = []"
    and "matches_listed m (ts_addr spec) facts \<noteq> MatchShrug"
  shows "match_target m spec def = matches_listed m (ts_addr spec) facts"
  using assms listed_target.sound [where c = "(facts, spec, def)" and m = m] by simp

theorem listed_answer_final_witness:
  "\<exists>spec def facts. def_of_spec spec def \<and> listed_differences facts spec (Some def) = []
     \<and> match_target (MAnd [MLabel (u ''lint''), MNot (MTreeOutputTo [])]) spec def = MatchYes"
proof -
  let ?a = "\<lparr> addr_package = u ''a'', addr_name = u ''t'', addr_args = [] \<rparr>"
  let ?s = "\<lparr> ts_addr = ?a, ts_driver = u ''exec'', ts_labels = [u ''lint'', u ''go'', u ''lint''] \<rparr>"
  let ?d = "\<lparr> td_addr = ?a, td_labels = [u ''lint'', u ''go''], td_inputs = [], td_outputs = [], td_support_files = [], td_entrypoint = None, td_transparent = False \<rparr>"
  let ?f = "with_has_codegen (with_labels UNKNOWN [u ''lint'', u ''go'']) False"
  let ?m = "MAnd [MLabel (u ''lint''), MNot (MTreeOutputTo [])]"
  have 1: "def_of_spec ?s ?d" by (auto simp: def_of_spec_def)
  have 2: "listed_differences ?f ?s (Some ?d) = []" by code_simp
  have 3: "matches_listed ?m (ts_addr ?s) ?f = MatchYes" by code_simp
  show ?thesis
    using listed_answer_final [OF 1 2, of ?m] 1 2 3 by (intro exI [of _ ?s] exI [of _ ?d] exI [of _ ?f]) simp
qed

text \<open>A parsed definition decides every matcher, and the answer is the boolean one:
  \<^verbatim>\<open>match_target\<close> never shrugs, \<^verbatim>\<open>Or\<close> is some, \<^verbatim>\<open>And\<close> is all,
  \<^verbatim>\<open>Not\<close> is negation.\<close>

theorem match_target_boolean:
  "match_target m spec def \<noteq> MatchShrug
   \<and> (match_target (MOr ms) spec def = MatchYes \<longleftrightarrow> (\<exists>m\<in>set ms. match_target m spec def = MatchYes))
   \<and> (match_target (MAnd ms) spec def = MatchNo \<longleftrightarrow> (\<exists>m\<in>set ms. match_target m spec def = MatchNo))
   \<and> (match_target (MNot m) spec def = MatchYes \<longleftrightarrow> match_target m spec def \<noteq> MatchYes)"
  using target_eval.connectives [of _ "(spec, def)"] match_target_two_valued [of m spec def] by auto

text \<open>C36: The forced selection agrees with the walk: on sorted package lists
  \<^verbatim>\<open>Selection::selects\<close> holds exactly when the target's package is enumerated by some
  provider and the matcher accepts the parsed definition, so the shortcuts on the address and
  the spec never change the decision, and \<^verbatim>\<open>effective\<close> adds the run's flags to exactly the
  selected targets.\<close>

theorem selection_agrees_with_match:
  assumes "def_of_spec spec def" and "ts_addr spec = addr" and "list_all sorted (sel_packages sel)"
  shows "(selects sel addr spec def \<longleftrightarrow>
      (\<exists>pkgs\<in>set (sel_packages sel). addr_package addr \<in> set pkgs) \<and> match_target (sel_matcher sel) spec def = MatchYes)
    \<and> effective sel force no_scratch addr spec def =
      (if selects sel addr spec def then (force \<or> sel_force sel, no_scratch \<or> sel_no_scratch sel) else (force, no_scratch))"
proof -
  let ?m = "sel_matcher sel"
  have search: "list_ex (\<lambda>pkgs. binary_search pkgs (addr_package addr)) (sel_packages sel)
      \<longleftrightarrow> (\<exists>pkgs\<in>set (sel_packages sel). addr_package addr \<in> set pkgs)"
    using assms(3) by (auto simp: list_ex_iff list_all_iff binary_search_iff)
  have spec: "match_spec ?m spec \<noteq> MatchShrug \<Longrightarrow> match_target ?m spec def = match_spec ?m spec"
    using assms(1) spec_target.sound [where c = "(spec, def)" and m = ?m] by simp
  have addr: "matches_addr ?m addr \<noteq> MatchShrug \<Longrightarrow> match_target ?m spec def = matches_addr ?m addr"
    using assms(1,2) listed_target.sound [where c = "(UNKNOWN, spec, def)" and m = ?m]
    by (simp add: matches_addr_def listed_differences_def UNKNOWN_def)
  have "selects sel addr spec def \<longleftrightarrow>
      (\<exists>pkgs\<in>set (sel_packages sel). addr_package addr \<in> set pkgs) \<and> match_target ?m spec def = MatchYes"
    unfolding selects_def Let_def search using addr spec
    by (cases "matches_addr ?m addr"; cases "match_spec ?m spec") auto
  then show ?thesis by (auto simp: effective_def Let_def)
qed

theorem selection_agrees_with_match_witness:
  "\<exists>sel addr spec def. def_of_spec spec def \<and> ts_addr spec = addr \<and> list_all sorted (sel_packages sel)
     \<and> selects sel addr spec def \<and> effective sel False False addr spec def = (True, False)"
proof -
  let ?a = "\<lparr> addr_package = u ''a'', addr_name = u ''t'', addr_args = [] \<rparr>"
  let ?s = "\<lparr> ts_addr = ?a, ts_driver = u ''exec'', ts_labels = [u ''lint''] \<rparr>"
  let ?d = "\<lparr> td_addr = ?a, td_labels = [u ''lint''], td_inputs = [], td_outputs = [], td_support_files = [], td_entrypoint = None, td_transparent = False \<rparr>"
  let ?sel = "\<lparr> sel_matcher = MLabel (u ''lint''), sel_packages = [[u ''a'', u ''b'']], sel_force = True, sel_no_scratch = False \<rparr>"
  have h: "def_of_spec ?s ?d" "ts_addr ?s = ?a" "list_all sorted (sel_packages ?sel)" by (simp_all add: def_of_spec_def)
  show ?thesis
    using selection_agrees_with_match [OF h, of False False] h
    by (intro exI [of _ ?sel] exI [of _ ?a] exI [of _ ?s] exI [of _ ?d]) simp
qed

text \<open>A reference to a target's output survives being written out: parsing its printed
  form gives it back, filters with glob alternation included, as long as no part of it contains
  an opening bracket and only the output separator is a pipe.\<close>

theorem target_addr_roundtrip:
  assumes "nom_laws N" and "wf_target_addr t"
  shows "parse_target_addr N (format_target_addr t) base = Ok t"
  using assms nom_laws_unique parse_format_target_addr by blast

theorem target_addr_roundtrip_witness:
  "\<exists>t. wf_target_addr t \<and> format_target_addr t = u ''//foo:bar|src[a/{x,y}.go,b.go]''
     \<and> parse_target_addr nom_std (format_target_addr t) [] = Ok t"
proof -
  let ?t = "\<lparr> ta_ref = \<lparr> addr_package = u ''foo'', addr_name = u ''bar'', addr_args = [] \<rparr>,
      ta_output = Some (u ''src''), ta_filters = [u ''a/{x,y}.go'', u ''b.go''] \<rparr>"
  have "wf_target_addr ?t" by code_simp
  moreover have "format_target_addr ?t = u ''//foo:bar|src[a/{x,y}.go,b.go]''" by code_simp
  ultimately show ?thesis using target_addr_roundtrip [OF nom_std_laws, of ?t "[]"] by blast
qed

text \<open>The filter suffix is cut at the last opening bracket, so a filter that is a glob with
  a character class is not read as written: the rest of the class becomes the filter and the
  text before it becomes part of the target name, with no error.\<close>

theorem target_addr_class_filter_misread:
  assumes "nom_laws N"
  shows "\<exists>t. parse_target_addr N (u ''//foo:bar[src/[ab].go]'') [] = Ok t
    \<and> addr_name (ta_ref t) = u ''bar[src/'' \<and> ta_filters t = [u ''ab].go'']"
proof -
  let ?t = "\<lparr> ta_ref = \<lparr> addr_package = u ''foo'', addr_name = u ''bar[src/'', addr_args = [] \<rparr>,
      ta_output = None, ta_filters = [u ''ab].go''] \<rparr>"
  have "parse_target_addr nom_std (u ''//foo:bar[src/[ab].go]'') [] = Ok ?t" by code_simp
  then show ?thesis using nom_laws_unique [OF assms] by (intro exI [of _ ?t]) simp
qed

theorem target_addr_class_filter_misread_witness:
  "nom_laws nom_std \<and> (\<exists>t. parse_target_addr nom_std (u ''//foo:bar[src/[ab].go]'') [] = Ok t)"
  using target_addr_class_filter_misread [OF nom_std_laws] nom_std_laws by blast

end
