(* ===== verification/Discovery.thy ===== *)
theory Discovery
  imports Target "HOL-Library.Multiset"
begin

text \<open>
  Discovery: which packages a selector walks (engine/packages.rs) and which listed targets of a
  package it considers, with what facts (engine/query.rs).

  A hash map grouping the listings of a package by name is modelled by filtering the listings;
  the per-address cache of merged facts is the function it caches.
\<close>

section \<open>Packages\<close>

text \<open>\<^verbatim>\<open>Iterator::max_by_key\<close>: the last element with the greatest key.\<close>

fun max_by_len :: "rstr list \<Rightarrow> rstr option" where
  "max_by_len [] = None"
| "max_by_len (p # ps) = Some (fold (\<lambda>q best. if byte_len best \<le> byte_len q then q else best) ps p)"

fun narrowing_prefix :: "Matcher \<Rightarrow> PkgBuf" where
  "narrowing_prefix (MPackage p) = p"
| "narrowing_prefix (MPackagePrefix p) = p"
| "narrowing_prefix (MAddr a) = addr_package a"
| "narrowing_prefix (MAnd ms) = (case max_by_len (map (\<lambda>m. narrowing_prefix m) ms) of Some p \<Rightarrow> p | None \<Rightarrow> [])"
| "narrowing_prefix _ = []"

text \<open>The block of one provider: its answer sorted and deduplicated.\<close>

definition provider_block :: "PkgBuf list \<Rightarrow> PkgBuf list" where
  "provider_block pkgs = remdups_adj (sort pkgs)"

text \<open>The scan of \<^verbatim>\<open>merge_packages\<close> over the concatenated blocks; \<open>seen\<close> is the hash set,
  \<open>out\<close> the packages kept so far.\<close>

fun merge_scan :: "bool \<Rightarrow> Matcher \<Rightarrow> PkgBuf set \<Rightarrow> PkgBuf list \<Rightarrow> PkgBuf list \<Rightarrow> PkgBuf list" where
  "merge_scan scoped m seen out [] = out"
| "merge_scan scoped m seen out (p # ps) =
     (if p \<in> seen then merge_scan scoped m seen out ps
      else if scoped \<and> matches_pkg m p = MatchNo then merge_scan scoped m (insert p seen) out ps
      else merge_scan scoped m (insert p seen) (out @ [p]) ps)"

definition merge_packages :: "Matcher \<Rightarrow> PkgBuf list list \<Rightarrow> PkgBuf list" where
  "merge_packages m per_provider =
     (let scoped = (m \<noteq> MPackagePrefix [])
      in merge_scan scoped m {} [] (concat per_provider))"

section \<open>Listings\<close>

record Candidate =
  c_addr :: AddrInner
  c_facts :: ListedFacts
  c_lister :: nat

record ListerView =
  v_lister :: nat
  v_exact :: "(AddrInner \<times> ListedFacts) list"
  v_whole :: ListedFacts

definition same_name :: "Candidate \<Rightarrow> Candidate \<Rightarrow> bool" where
  "same_name c d \<longleftrightarrow> addr_package (c_addr c) = addr_package (c_addr d) \<and> addr_name (c_addr c) = addr_name (c_addr d)"

text \<open>\<^verbatim>\<open>entry(addr).and_modify(agree).or_insert\<close>.\<close>

fun exact_entry :: "Candidate \<Rightarrow> (AddrInner \<times> ListedFacts) list \<Rightarrow> (AddrInner \<times> ListedFacts) list" where
  "exact_entry c [] = [(c_addr c, c_facts c)]"
| "exact_entry c ((a, f) # es) =
     (if a = c_addr c then (a, agree f (c_facts c)) # es else (a, f) # exact_entry c es)"

definition view_add :: "Candidate \<Rightarrow> ListerView \<Rightarrow> ListerView" where
  "view_add c v = v\<lparr> v_whole := agree (v_whole v) (c_facts c), v_exact := exact_entry c (v_exact v) \<rparr>"

fun add_listing :: "Candidate \<Rightarrow> ListerView list \<Rightarrow> ListerView list" where
  "add_listing c [] = [view_add c \<lparr> v_lister = c_lister c, v_exact = [], v_whole = c_facts c \<rparr>]"
| "add_listing c (v # vs) = (if v_lister v = c_lister c then view_add c v # vs else v # add_listing c vs)"

definition described :: "AddrInner \<Rightarrow> ListerView \<Rightarrow> ListedFacts" where
  "described a v = (case map_of (v_exact v) a of Some f \<Rightarrow> f | None \<Rightarrow> v_whole v)"

definition merged_facts :: "ListerView list \<Rightarrow> AddrInner \<Rightarrow> ListedFacts" where
  "merged_facts listers a = (case map (described a) listers of
     [] \<Rightarrow> UNKNOWN
   | f # fs \<Rightarrow> fold (\<lambda>f acc. agree acc f) fs f)"

definition reconcile_by_name :: "Candidate list \<Rightarrow> Candidate list" where
  "reconcile_by_name cs =
     map (\<lambda>c. c\<lparr> c_facts := merged_facts (fold add_listing (filter (same_name c) cs) []) (c_addr c) \<rparr>) cs"

text \<open>\<^verbatim>\<open>retain\<close> with a set of seen addresses: the first candidate of each address.\<close>

fun retain_first :: "AddrInner set \<Rightarrow> Candidate list \<Rightarrow> Candidate list" where
  "retain_first seen [] = []"
| "retain_first seen (c # cs) =
     (if c_addr c \<in> seen then retain_first seen cs else c # retain_first (insert (c_addr c) seen) cs)"

definition merge_listings :: "Candidate list \<Rightarrow> Candidate list" where
  "merge_listings cs = retain_first {} (reconcile_by_name cs)"

section \<open>Confirming a match\<close>

text \<open>What resolving an address can answer, as far as the walk distinguishes it.\<close>

datatype spec_error =
    TargetNotFound AddrInner
  | CycleErr
  | Cancelled
  | OtherSpecError rstr

definition skip_unresolvable :: "AddrInner \<Rightarrow> spec_error + 'a \<Rightarrow> spec_error + 'a option" where
  "skip_unresolvable addr res = (case res of
     Ok v \<Rightarrow> Ok (Some v)
   | Err (TargetNotFound a) \<Rightarrow> if a = addr then Ok None else Err (TargetNotFound a)
   | Err e \<Rightarrow> Err e)"

text \<open>\<open>gaps\<close> says whether the discovery keeps going; a skip it records is the second component.\<close>

definition confirm_exists ::
  "bool \<Rightarrow> (AddrInner \<Rightarrow> spec_error + TargetSpec) \<Rightarrow> AddrInner \<Rightarrow> (spec_error + AddrInner option) \<times> (AddrInner \<times> spec_error) list" where
  "confirm_exists gaps get_spec addr = (case skip_unresolvable addr (get_spec addr) of
     Ok (Some _) \<Rightarrow> (Ok (Some addr), [])
   | Ok None \<Rightarrow> (Ok None, [])
   | Err e \<Rightarrow>
       if e = CycleErr then (Ok None, [])
       else if gaps \<and> e \<noteq> Cancelled then (Ok None, [(addr, e)])
       else (Err e, []))"

definition confirm_match ::
  "bool \<Rightarrow> (AddrInner \<Rightarrow> spec_error + TargetSpec) \<Rightarrow> Matcher \<Rightarrow> AddrInner \<Rightarrow> (spec_error + AddrInner option) \<times> (AddrInner \<times> spec_error) list" where
  "confirm_match gaps get_spec m addr =
     (if matches_addr m addr = MatchYes then (Ok (Some addr), []) else confirm_exists gaps get_spec addr)"

section \<open>Narrowing\<close>

lemma max_by_len_in: "max_by_len ps = Some p \<Longrightarrow> p \<in> set ps"
proof (cases ps)
  case (Cons q qs)
  have "fold (\<lambda>q best. if byte_len best \<le> byte_len q then q else best) qs b \<in> insert b (set qs)" for b
  proof (induction qs arbitrary: b)
    case (Cons a qs)
    show ?case using Cons.IH [of a] Cons.IH [of b] by auto
  qed simp
  then show "max_by_len ps = Some p \<Longrightarrow> p \<in> set ps" using Cons by auto
qed simp

lemma narrowing_prefix_target:
  assumes "def_of_spec spec def" and "match_target m spec def = MatchYes"
  shows "has_prefix (addr_package (ts_addr spec)) (narrowing_prefix m)"
  using assms
proof (induction m rule: narrowing_prefix.induct)
  case (4 ms)
  then have all: "\<forall>m\<in>set ms. match_target m spec def = MatchYes"
    using target_eval.And_Yes [of ms "(spec, def)"] by simp
  show ?case
  proof (cases "max_by_len (map (\<lambda>m. narrowing_prefix m) ms)")
    case (Some p)
    then have "p \<in> set (map (\<lambda>m. narrowing_prefix m) ms)" by (rule max_by_len_in)
    then obtain m where "m \<in> set ms" "p = narrowing_prefix m" by auto
    then show ?thesis using "4.IH" "4.prems"(1) all Some by auto
  qed simp
qed (auto simp: def_of_spec_def split: if_splits)

section \<open>Merging packages\<close>

lemma merge_scan_spec:
  "\<exists>R. merge_scan scoped m seen out ps = out @ R \<and> distinct R \<and> subseq R ps
     \<and> set R = {p \<in> set ps. p \<notin> seen \<and> \<not> (scoped \<and> matches_pkg m p = MatchNo)}"
proof (induction scoped m seen out ps rule: merge_scan.induct)
  case (2 scoped m seen out p ps)
  consider (seen) "p \<in> seen" | (reject) "p \<notin> seen" "scoped \<and> matches_pkg m p = MatchNo"
    | (keep) "p \<notin> seen" "\<not> (scoped \<and> matches_pkg m p = MatchNo)" by blast
  then show ?case
  proof cases
    case seen
    then obtain R where "merge_scan scoped m seen out ps = out @ R" "distinct R" "subseq R ps"
        "set R = {p \<in> set ps. p \<notin> seen \<and> \<not> (scoped \<and> matches_pkg m p = MatchNo)}"
      using "2.IH"(1) by blast
    then show ?thesis using seen by (intro exI [of _ R]) auto
  next
    case reject
    then obtain R where "merge_scan scoped m (insert p seen) out ps = out @ R" "distinct R" "subseq R ps"
        "set R = {q \<in> set ps. q \<notin> insert p seen \<and> \<not> (scoped \<and> matches_pkg m q = MatchNo)}"
      using "2.IH"(2) by blast
    then show ?thesis using reject by (intro exI [of _ R]) auto
  next
    case keep
    then obtain R where "merge_scan scoped m (insert p seen) (out @ [p]) ps = (out @ [p]) @ R" "distinct R" "subseq R ps"
        "set R = {q \<in> set ps. q \<notin> insert p seen \<and> \<not> (scoped \<and> matches_pkg m q = MatchNo)}"
      using "2.IH"(3) by blast
    then show ?thesis using keep by (intro exI [of _ "p # R"]) auto
  qed
qed simp

lemma merge_packages_spec:
  "distinct (merge_packages m bs) \<and> subseq (merge_packages m bs) (concat bs)
   \<and> set (merge_packages m bs) = {p \<in> set (concat bs). matches_pkg m p \<noteq> MatchNo}"
proof -
  obtain R where R: "merge_scan (m \<noteq> MPackagePrefix []) m {} [] (concat bs) = R" "distinct R" "subseq R (concat bs)"
      "set R = {p \<in> set (concat bs). \<not> (m \<noteq> MPackagePrefix [] \<and> matches_pkg m p = MatchNo)}"
    using merge_scan_spec [of "m \<noteq> MPackagePrefix []" m "{}" "[]" "concat bs"] by auto
  then show ?thesis by (auto simp: merge_packages_def Let_def)
qed

lemma distinct_remdups_adj_sorted: "sorted xs \<Longrightarrow> distinct (remdups_adj xs)" for xs :: "'a::linorder list"
  by (induction xs rule: remdups_adj.induct) auto

lemma provider_block_spec: "sorted (provider_block ps)" "distinct (provider_block ps)" "set (provider_block ps) = set ps"
  by (simp_all add: provider_block_def sorted_remdups_adj distinct_remdups_adj_sorted)

lemma provider_block_cong: "set ps = set qs \<Longrightarrow> provider_block ps = provider_block qs"
  using provider_block_spec by (metis sorted_distinct_set_unique)

section \<open>Reconciling listings\<close>

text \<open>The listings that describe a candidate: those of its name by a provider that either lists
  this very address or does not list it at all.\<close>

definition describes :: "Candidate list \<Rightarrow> AddrInner \<Rightarrow> Candidate \<Rightarrow> bool" where
  "describes L a d \<longleftrightarrow> d \<in> set L \<and> (c_addr d = a \<or> \<not> (\<exists>e\<in>set L. c_lister e = c_lister d \<and> c_addr e = a))"

lemma add_listing_iff:
  "distinct (map v_lister vs) \<Longrightarrow> add_listing c vs =
     (if c_lister c \<in> v_lister ` set vs then map (\<lambda>v. if v_lister v = c_lister c then view_add c v else v) vs
      else vs @ [view_add c \<lparr> v_lister = c_lister c, v_exact = [], v_whole = c_facts c \<rparr>])"
proof (induction vs)
  case (Cons v vs)
  have "c_lister c \<notin> v_lister ` set vs \<Longrightarrow> map (\<lambda>v. if v_lister v = c_lister c then view_add c v else v) vs = vs"
    by (intro map_idI) (metis image_eqI)
  then show ?case using Cons by auto
qed simp

lemma map_of_exact_entry:
  "map_of (exact_entry c es) a = (if a = c_addr c
     then Some (case map_of es a of Some f \<Rightarrow> agree f (c_facts c) | None \<Rightarrow> c_facts c) else map_of es a)"
  by (induction es) (auto split: option.splits)

lemma v_lister_view_add [simp]: "v_lister (view_add c v) = v_lister v"
  by (simp add: view_add_def)

text \<open>A question to the facts that a reconciliation answers exactly when both sides do.\<close>

locale fact_query =
  fixes K :: "ListedFacts \<Rightarrow> bool"
  assumes K_agree: "K (agree a b) \<longleftrightarrow> K a \<and> K b"
begin

definition exact_ok :: "Candidate list \<Rightarrow> ListerView \<Rightarrow> AddrInner \<Rightarrow> bool" where
  "exact_ok L v a \<longleftrightarrow> (case map_of (v_exact v) a of
       None \<Rightarrow> \<not> (\<exists>d\<in>set L. c_lister d = v_lister v \<and> c_addr d = a)
     | Some f \<Rightarrow> (\<exists>d\<in>set L. c_lister d = v_lister v \<and> c_addr d = a)
         \<and> (K f \<longleftrightarrow> (\<forall>d\<in>set L. c_lister d = v_lister v \<and> c_addr d = a \<longrightarrow> K (c_facts d))))"

definition whole_ok :: "Candidate list \<Rightarrow> ListerView \<Rightarrow> bool" where
  "whole_ok L v \<longleftrightarrow> (K (v_whole v) \<longleftrightarrow> (\<forall>d\<in>set L. c_lister d = v_lister v \<longrightarrow> K (c_facts d)))"

definition view_ok :: "Candidate list \<Rightarrow> ListerView \<Rightarrow> bool" where
  "view_ok L v \<longleftrightarrow> whole_ok L v \<and> (\<forall>a. exact_ok L v a)"

lemma exact_ok_add: "exact_ok L v a \<Longrightarrow> v_lister v = c_lister c \<Longrightarrow> exact_ok (L @ [c]) (view_add c v) a"
  unfolding exact_ok_def by (auto simp: view_add_def K_agree map_of_exact_entry split: option.splits)

lemma view_ok_add: "view_ok L v \<Longrightarrow> v_lister v = c_lister c \<Longrightarrow> view_ok (L @ [c]) (view_add c v)"
  by (auto simp: view_ok_def whole_ok_def exact_ok_add) (auto simp: view_add_def K_agree)

lemma exact_ok_other: "exact_ok L v a \<Longrightarrow> v_lister v \<noteq> c_lister c \<Longrightarrow> exact_ok (L @ [c]) v a"
  unfolding exact_ok_def by (auto split: option.splits)

lemma view_ok_other: "view_ok L v \<Longrightarrow> v_lister v \<noteq> c_lister c \<Longrightarrow> view_ok (L @ [c]) v"
  by (auto simp: view_ok_def whole_ok_def exact_ok_other)

lemma view_ok_new:
  assumes "\<forall>d\<in>set L. c_lister d \<noteq> c_lister c"
  shows "view_ok (L @ [c]) (view_add c \<lparr> v_lister = c_lister c, v_exact = [], v_whole = c_facts c \<rparr>)"
  using assms by (auto simp: view_ok_def whole_ok_def exact_ok_def view_add_def K_agree)

lemma views_ok:
  "let vs = fold add_listing L [] in
     distinct (map v_lister vs) \<and> v_lister ` set vs = c_lister ` set L \<and> (\<forall>v\<in>set vs. view_ok L v)"
proof (induction L rule: rev_induct)
  case (snoc c L)
  define vs where "vs = fold add_listing L []"
  have IH: "distinct (map v_lister vs)" "v_lister ` set vs = c_lister ` set L" "\<forall>v\<in>set vs. view_ok L v"
    using snoc.IH by (simp_all add: vs_def Let_def)
  let ?f = "\<lambda>v. if v_lister v = c_lister c then view_add c v else v"
  have lst: "map v_lister (map ?f vs) = map v_lister vs" by simp
  show ?case
  proof (cases "c_lister c \<in> v_lister ` set vs")
    case True
    then have vs': "fold add_listing (L @ [c]) [] = map ?f vs"
      using add_listing_iff [OF IH(1), of c] by (simp add: vs_def)
    have "\<forall>v\<in>set vs. view_ok (L @ [c]) (?f v)"
      using IH(3) by (simp add: view_ok_add view_ok_other)
    then have "\<forall>v\<in>set (map ?f vs). view_ok (L @ [c]) v" unfolding set_map ball_simps .
    moreover have "v_lister ` set (map ?f vs) = v_lister ` set vs" using lst by (metis list.set_map)
    ultimately show ?thesis
      using IH True unfolding vs' Let_def lst by (auto simp del: map_map set_map)
  next
    case False
    let ?n = "view_add c \<lparr> v_lister = c_lister c, v_exact = [], v_whole = c_facts c \<rparr>"
    have vs': "fold add_listing (L @ [c]) [] = vs @ [?n]"
      using add_listing_iff [OF IH(1), of c] False by (simp add: vs_def)
    have "view_ok (L @ [c]) v" if "v \<in> set vs" for v
    proof -
      have "v_lister v \<noteq> c_lister c" using False that by (metis image_eqI)
      then show ?thesis using IH(3) that by (simp add: view_ok_other)
    qed
    moreover have "view_ok (L @ [c]) ?n" using False IH(2) by (intro view_ok_new ballI) (metis image_eqI)
    ultimately show ?thesis using IH False unfolding vs' Let_def by auto
  qed
qed simp

lemma K_fold_agree: "K (fold (\<lambda>f acc. agree acc f) fs f) \<longleftrightarrow> K f \<and> (\<forall>g\<in>set fs. K g)"
  by (induction fs arbitrary: f) (auto simp: K_agree)

lemma merged_facts_iff:
  assumes "L \<noteq> []"
  shows "K (merged_facts (fold add_listing L []) a) \<longleftrightarrow> (\<forall>d. describes L a d \<longrightarrow> K (c_facts d))"
proof -
  define vs where "vs = fold add_listing L []"
  have vs: "v_lister ` set vs = c_lister ` set L" "\<forall>v\<in>set vs. view_ok L v"
    using views_ok [of L] by (simp_all add: vs_def Let_def)
  have "vs \<noteq> []" using vs(1) assms by auto
  then have "K (merged_facts vs a) \<longleftrightarrow> (\<forall>v\<in>set vs. K (described a v))"
    by (cases vs) (auto simp: merged_facts_def K_fold_agree)
  also have "\<dots> \<longleftrightarrow> (\<forall>v\<in>set vs. \<forall>d. describes L a d \<and> c_lister d = v_lister v \<longrightarrow> K (c_facts d))"
  proof (intro ball_cong refl)
    fix v assume "v \<in> set vs"
    then have ok: "view_ok L v" using vs(2) by blast
    show "K (described a v) \<longleftrightarrow> (\<forall>d. describes L a d \<and> c_lister d = v_lister v \<longrightarrow> K (c_facts d))"
    proof (cases "map_of (v_exact v) a")
      case None
      then have none: "\<not> (\<exists>d\<in>set L. c_lister d = v_lister v \<and> c_addr d = a)"
        and whole: "K (v_whole v) \<longleftrightarrow> (\<forall>d\<in>set L. c_lister d = v_lister v \<longrightarrow> K (c_facts d))"
        using ok by (auto simp: view_ok_def whole_ok_def exact_ok_def dest!: spec [of _ a])
      then show ?thesis using None by (auto simp: described_def describes_def)
    next
      case (Some f)
      then have ex: "\<exists>d\<in>set L. c_lister d = v_lister v \<and> c_addr d = a"
        and Kf: "K f \<longleftrightarrow> (\<forall>d\<in>set L. c_lister d = v_lister v \<and> c_addr d = a \<longrightarrow> K (c_facts d))"
        using ok by (auto simp: view_ok_def exact_ok_def dest!: spec [of _ a])
      then show ?thesis using Some by (auto simp: described_def describes_def)
    qed
  qed
  also have "\<dots> \<longleftrightarrow> (\<forall>d. describes L a d \<longrightarrow> K (c_facts d))"
    using vs(1) by (auto simp: describes_def image_iff)
  finally show ?thesis by (simp add: vs_def)
qed

end

interpretation labels_query: fact_query "\<lambda>f. lf_labels f = Some l" for l
  by unfold_locales simp

interpretation driver_query: fact_query "\<lambda>f. lf_driver f = Some d" for d
  by unfold_locales simp

interpretation codegen_query: fact_query "\<lambda>f. lf_has_codegen f = Some g" for g
  by unfold_locales simp

lemma reconcile_nth:
  assumes "i < length cs"
  shows "reconcile_by_name cs ! i = (cs ! i)\<lparr> c_facts :=
    merged_facts (fold add_listing (filter (same_name (cs ! i)) cs) []) (c_addr (cs ! i)) \<rparr>"
  using assms by (simp add: reconcile_by_name_def)

lemma same_name_ne: "i < length cs \<Longrightarrow> filter (same_name (cs ! i)) cs \<noteq> []"
  by (auto simp: filter_empty_conv same_name_def intro!: bexI [of _ "cs ! i"])

lemma retain_first_spec:
  "subseq (retain_first seen cs) cs \<and> distinct (map c_addr (retain_first seen cs))
   \<and> c_addr ` set (retain_first seen cs) = c_addr ` set cs - seen"
proof (induction seen cs rule: retain_first.induct)
  case (2 seen c cs)
  then show ?case by (cases "c_addr c \<in> seen") (auto simp: image_iff)
qed simp

section \<open>Properties\<close>

text \<open>C20: Reconciling the listings of a package gives each candidate exactly the facts that
  every listing describing it agrees on: a field is known with a value if and only if each
  provider that lists the name and either lists this address or lists it only with other
  arguments says so in all its describing listings.  The rule mentions only the set of listings,
  so it does not depend on their order, and no candidate is dropped, added or moved.\<close>

theorem reconcile_facts_exact:
  assumes "i < length cs"
  defines "r \<equiv> reconcile_by_name cs ! i" and "L \<equiv> filter (same_name (cs ! i)) cs"
  shows "map c_addr (reconcile_by_name cs) = map c_addr cs
    \<and> (lf_labels (c_facts r) = Some l \<longleftrightarrow> (\<forall>d. describes L (c_addr (cs ! i)) d \<longrightarrow> lf_labels (c_facts d) = Some l))
    \<and> (lf_driver (c_facts r) = Some dr \<longleftrightarrow> (\<forall>d. describes L (c_addr (cs ! i)) d \<longrightarrow> lf_driver (c_facts d) = Some dr))
    \<and> (lf_has_codegen (c_facts r) = Some g \<longleftrightarrow> (\<forall>d. describes L (c_addr (cs ! i)) d \<longrightarrow> lf_has_codegen (c_facts d) = Some g))"
proof -
  have ne: "L \<noteq> []" unfolding L_def using assms(1) by (rule same_name_ne)
  have facts: "c_facts r = merged_facts (fold add_listing L []) (c_addr (cs ! i))"
    using reconcile_nth [OF assms(1)] by (simp add: r_def L_def)
  have "map c_addr (reconcile_by_name cs) = map c_addr cs" by (simp add: reconcile_by_name_def)
  then show ?thesis
    unfolding facts
    using labels_query.merged_facts_iff [OF ne, where l = l and a = "c_addr (cs ! i)"]
      driver_query.merged_facts_iff [OF ne, where d = dr and a = "c_addr (cs ! i)"]
      codegen_query.merged_facts_iff [OF ne, where g = g and a = "c_addr (cs ! i)"] by blast
qed

theorem reconcile_facts_exact_witness:
  "\<exists>cs. length cs = 2 \<and> lf_driver (c_facts (cs ! 0)) = Some (u ''go'')
     \<and> lf_driver (c_facts (reconcile_by_name cs ! 0)) \<noteq> Some (u ''go'')"
proof -
  let ?a = "\<lambda>v. \<lparr> addr_package = u ''p'', addr_name = u ''t'', addr_args = v \<rparr>"
  let ?c1 = "\<lparr> c_addr = ?a [(u ''os'', u ''linux'')], c_facts = with_driver UNKNOWN (u ''go''), c_lister = 0 \<rparr>"
  let ?c2 = "\<lparr> c_addr = ?a [], c_facts = with_driver UNKNOWN (u ''exec''), c_lister = 1 \<rparr>"
  have f: "filter (same_name (([?c1, ?c2]) ! 0)) [?c1, ?c2] = [?c1, ?c2]" by (simp add: same_name_def)
  have "describes [?c1, ?c2] (c_addr (([?c1, ?c2]) ! 0)) ?c2" by (simp add: describes_def)
  moreover have "lf_driver (c_facts ?c2) = Some (u ''exec'')" "lf_driver (c_facts ?c1) = Some (u ''go'')" by code_simp+
  moreover have "u ''exec'' \<noteq> u ''go''" by simp
  ultimately show ?thesis
    using reconcile_facts_exact [of 0 "[?c1, ?c2]", where dr = "u ''go''", unfolded f]
    by (intro exI [of _ "[?c1, ?c2]"]) force
qed

text \<open>C27: A selector's walk misses nothing it should select: if a target's parsed definition
  matches and any provider lists its package, then the package is walked, and it lies under the
  prefix the providers were asked to narrow their walk to.  The packages walked are distinct,
  keep the providers' order, and do not depend on the order in which a provider returned its
  packages.\<close>

theorem selector_walk_complete:
  assumes "def_of_spec spec def" and "match_target m spec def = MatchYes"
    and "addr_package (ts_addr spec) \<in> set (concat answers)"
    and "list_all2 (\<lambda>a b. set a = set b) answers answers'"
  shows "addr_package (ts_addr spec) \<in> set (merge_packages m (map provider_block answers))
    \<and> has_prefix (addr_package (ts_addr spec)) (narrowing_prefix m)
    \<and> distinct (merge_packages m (map provider_block answers))
    \<and> subseq (merge_packages m (map provider_block answers)) (concat (map provider_block answers))
    \<and> merge_packages m (map provider_block answers') = merge_packages m (map provider_block answers)"
proof -
  have "matches_pkg m (addr_package (ts_addr spec)) \<noteq> MatchNo"
    using assms(1,2) pkg_target.yes_no [where c = "(spec, def)" and m = m] by auto
  moreover have "set (concat (map provider_block answers)) = set (concat answers)"
    by (simp add: provider_block_spec)
  moreover have "map provider_block answers' = map provider_block answers"
    using assms(4) by (induction rule: list_all2_induct) (auto intro: provider_block_cong)
  ultimately show ?thesis
    using merge_packages_spec [of m "map provider_block answers"] assms narrowing_prefix_target [OF assms(1,2)] by auto
qed

theorem selector_walk_complete_witness:
  "\<exists>spec def. match_target (MAnd [MPackagePrefix (u ''a''), MLabel (u ''lint'')]) spec def = MatchYes
     \<and> u ''a/b'' \<in> set (merge_packages (MAnd [MPackagePrefix (u ''a''), MLabel (u ''lint'')])
         (map provider_block [[u ''z'', u ''a/b'']]))"
proof -
  let ?a = "\<lparr> addr_package = u ''a/b'', addr_name = u ''t'', addr_args = [] \<rparr>"
  let ?s = "\<lparr> ts_addr = ?a, ts_driver = u ''exec'', ts_labels = [u ''lint''] \<rparr>"
  let ?d = "\<lparr> td_addr = ?a, td_labels = [u ''lint''], td_inputs = [], td_outputs = [], td_support_files = [], td_entrypoint = None, td_transparent = False \<rparr>"
  let ?m = "MAnd [MPackagePrefix (u ''a''), MLabel (u ''lint'')]"
  have 1: "def_of_spec ?s ?d" by (simp add: def_of_spec_def)
  have 2: "match_target ?m ?s ?d = MatchYes" by code_simp
  show ?thesis
    using selector_walk_complete [OF 1 2, of "[[u ''z'', u ''a/b'']]" "[[u ''a/b'', u ''z'']]"] 2
    by (intro exI [of _ ?s] exI [of _ ?d]) auto
qed

text \<open>Dropping a candidate that does not resolve never hides a missing dependency: an
  address is dropped as not there only when the not-found error names that very address; an
  error naming another address is an error of the walk, or is recorded when the discovery keeps
  going, and a cancellation is never recorded as a skip.  An address the matcher decides alone
  passes through unresolved.\<close>

lemma confirm_match_outcomes:
  "confirm_match gaps get_spec m addr = (
     if matches_addr m addr = MatchYes then (Ok (Some addr), [])
     else case get_spec addr of
       Ok _ \<Rightarrow> (Ok (Some addr), [])
     | Err e \<Rightarrow>
         if e = TargetNotFound addr \<or> e = CycleErr then (Ok None, [])
         else if gaps \<and> e \<noteq> Cancelled then (Ok None, [(addr, e)])
         else (Err e, []))"
  by (auto simp: confirm_match_def confirm_exists_def skip_unresolvable_def split: sum.splits spec_error.splits)

end
