(* ===== verification/Dep_Dag.thy ===== *)
theory Dep_Dag
  imports Prelude "HOL-Library.Word"
begin

text \<open>
  The request's dependency graph (engine/request_state.rs): \<^verbatim>\<open>DepDag\<close>, an online
  cycle-detecting graph kept with Pearce and Kelly's incremental topological order, and
  \<^verbatim>\<open>RequestState::track_dep\<close>, through which every resolution records its edge.

  A node is an interned address, so the pointer key of \<^verbatim>\<open>index_of\<close> is the address itself;
  the address type is a parameter \<open>'a\<close>.  Node indices are natural numbers; \<open>get_or_insert\<close>
  truncates to 32 bits as the cast does, and \<open>edge_key\<close> packs two indices by shift and or.
  An index out of range is the outcome \<open>Panic\<close>.  A \<^verbatim>\<open>Vec\<close> used as a stack is a list with
  its top first.

  The lemmas show that the order is a topological order of the recorded edges after every
  call, and that an edge is rejected exactly when it closes a cycle.
\<close>

unbundle bit_operations_syntax

record 'a DepDag =
  nodes :: "'a list"
  succ :: "nat list list"
  pred :: "nat list list"
  ord :: "nat list"
  index_of :: "'a \<rightharpoonup> nat"
  edges :: "nat set"

datatype 'a dag_error = CycleError 'a 'a | Panic

definition empty_dag :: "'a DepDag" where
  "empty_dag = \<lparr> nodes = [], succ = [], pred = [], ord = [], index_of = Map.empty, edges = {} \<rparr>"

definition edge_key :: "nat \<Rightarrow> nat \<Rightarrow> nat" where
  "edge_key from to = push_bit 32 from OR to"

definition get_or_insert :: "'a \<Rightarrow> 'a DepDag \<Rightarrow> nat \<times> 'a DepDag" where
  "get_or_insert addr d = (case index_of d addr of
     Some idx \<Rightarrow> (idx, d)
   | None \<Rightarrow>
       (let idx = length (nodes d) mod 2 ^ 32
        in (idx, d\<lparr> nodes := nodes d @ [addr], succ := succ d @ [[]], pred := pred d @ [[]],
              ord := ord d @ [idx], index_of := (index_of d)(addr \<mapsto> idx) \<rparr>)))"

definition commit_edge :: "nat \<Rightarrow> nat \<Rightarrow> 'a DepDag \<Rightarrow> 'a DepDag" where
  "commit_edge f t d = d\<lparr> succ := (succ d)[f := succ d ! f @ [t]], pred := (pred d)[t := pred d ! t @ [f]],
     edges := insert (edge_key f t) (edges d) \<rparr>"

section \<open>The two searches\<close>

text \<open>One pass over the neighbours of the node taken off the stack.  \<open>stop\<close> is the node
  whose sight ends the forward search, \<open>keep\<close> the test on the order of a neighbour.\<close>

fun region_scan ::
  "nat option \<Rightarrow> (nat \<Rightarrow> bool) \<Rightarrow> nat \<Rightarrow> nat list \<Rightarrow> nat set \<times> nat list \<times> nat list
     \<Rightarrow> (nat set \<times> nat list \<times> nat list) option option" where
  "region_scan stop keep n [] st = Some (Some st)"
| "region_scan stop keep n (w # ws) (visited, delta, stack) =
     (if stop = Some w then Some None
      else if \<not> w < n then None
      else if keep w \<and> w \<notin> visited
      then region_scan stop keep n ws (insert w visited, delta @ [w], w # stack)
      else region_scan stop keep n ws (visited, delta, stack))"

text \<open>The \<^verbatim>\<open>while let\<close> loop.  The outer \<open>None\<close> is a panic, the inner one the sight of
  \<open>stop\<close>.\<close>

function (sequential) region_loop ::
  "nat list list \<Rightarrow> nat option \<Rightarrow> (nat \<Rightarrow> bool) \<Rightarrow> nat \<Rightarrow> nat set \<times> nat list \<times> nat list \<Rightarrow> nat list option option" where
  "region_loop adj stop keep n (visited, delta, []) = Some (Some delta)"
| "region_loop adj stop keep n (visited, delta, x # stack) =
     (if \<not> x < length adj then None
      else case region_scan stop keep n (adj ! x) (visited, delta, stack) of
        None \<Rightarrow> None
      | Some None \<Rightarrow> Some None
      | Some (Some st) \<Rightarrow> region_loop adj stop keep n st)"
  by pat_completeness auto

definition loop_measure :: "nat \<Rightarrow> nat set \<times> nat list \<times> nat list \<Rightarrow> nat" where
  "loop_measure n st = (case st of (visited, _, stack) \<Rightarrow> card ({..<n} - visited) + length stack)"

lemma region_scan_measure:
  "region_scan stop keep n ws st = Some (Some st') \<Longrightarrow> loop_measure n st' = loop_measure n st"
proof (induction stop keep n ws st rule: region_scan.induct)
  case (2 stop keep n w ws visited delta stack)
  show ?case
  proof (cases "stop = Some w \<or> \<not> w < n")
    case True
    then show ?thesis using "2.prems" by (auto split: if_splits)
  next
    case ok: False
    show ?thesis
    proof (cases "keep w \<and> w \<notin> visited")
      case True
      have "{..<n} - visited = insert w ({..<n} - insert w visited)" using ok True by auto
      then have "card ({..<n} - visited) = Suc (card ({..<n} - insert w visited))"
        by (metis Diff_iff card_insert_disjoint finite_Diff finite_lessThan insertI1)
      then have "loop_measure n (insert w visited, delta @ [w], w # stack) = loop_measure n (visited, delta, stack)"
        unfolding loop_measure_def prod.case by (simp only: list.size add_Suc add_Suc_right add_0_right)
      moreover have "region_scan stop keep n ws (insert w visited, delta @ [w], w # stack) = Some (Some st')"
        using "2.prems" ok True by simp
      ultimately show ?thesis using "2.IH"(1) ok True by simp
    next
      case False
      then show ?thesis using "2.IH"(2) "2.prems" ok by (auto simp: loop_measure_def)
    qed
  qed
qed simp

termination region_loop
proof (relation "measure (\<lambda>(_, _, _, n, st). loop_measure n st)")
  fix adj :: "nat list list" and stop keep n visited delta x stack opt st
  assume "\<not> \<not> x < length adj" "region_scan stop keep n (adj ! x) (visited, delta, stack) = Some opt" "opt = Some st"
  then have "loop_measure n st = loop_measure n (visited, delta, stack)"
    by (auto dest: region_scan_measure)
  then show "((adj, stop, keep, n, st), adj, stop, keep, n, visited, delta, x # stack)
      \<in> measure (\<lambda>(_, _, _, n, st). loop_measure n st)"
    by (simp add: loop_measure_def split: prod.splits)
qed simp

section \<open>Adding an edge\<close>

text \<open>The loops that hand the sorted positions out again, from position \<open>k\<close> on.\<close>

fun assign_from :: "nat \<Rightarrow> nat list \<Rightarrow> nat list \<Rightarrow> nat list \<Rightarrow> nat list" where
  "assign_from k positions [] od = od"
| "assign_from k positions (n # ns) od = assign_from (k + 1) positions ns (od[n := positions ! k])"

definition reorder :: "nat list \<Rightarrow> nat list \<Rightarrow> nat list \<Rightarrow> nat list" where
  "reorder od delta_minus delta_plus =
     (let dm = sort_key (\<lambda>n. od ! n) delta_minus;
          dp = sort_key (\<lambda>n. od ! n) delta_plus;
          positions = sort (map (\<lambda>n. od ! n) dm @ map (\<lambda>n. od ! n) dp)
      in assign_from (length dm) positions dp (assign_from 0 positions dm od))"

definition add_dep :: "'a \<Rightarrow> 'a \<Rightarrow> 'a DepDag \<Rightarrow> ('a dag_error + unit) \<times> 'a DepDag" where
  "add_dep from to d0 =
     (let (f, d1) = get_or_insert from d0; (t, d) = get_or_insert to d1
      in if f = t then (Err (CycleError from to), d)
         else if edge_key f t \<in> edges d then (Ok (), d)
         else if \<not> (f < length (ord d) \<and> t < length (ord d)) then (Err Panic, d)
         else (let upper = ord d ! f; lower = ord d ! t
           in if upper < lower then (Ok (), commit_edge f t d)
              else (case region_loop (succ d) (Some f) (\<lambda>w. ord d ! w \<le> upper) (length (ord d)) ({t}, [t], [t]) of
                  None \<Rightarrow> (Err Panic, d)
                | Some None \<Rightarrow> (Err (CycleError from to), d)
                | Some (Some delta_plus) \<Rightarrow>
                    (case region_loop (pred d) None (\<lambda>w. lower \<le> ord d ! w) (length (ord d)) ({f}, [f], [f]) of
                       Some (Some delta_minus) \<Rightarrow>
                         (Ok (), commit_edge f t (d\<lparr> ord := reorder (ord d) delta_minus delta_plus \<rparr>))
                     | _ \<Rightarrow> (Err Panic, d)))))"

section \<open>Recording a dependency\<close>

record 'a RequestState =
  rs_parent :: "'a option"
  rs_skip_providers :: "rstr set"
  rs_crumbs :: "'a list"
  rs_speculative :: bool
  rs_tracked :: "'a set"

definition with_parent :: "'a \<Rightarrow> 'a RequestState \<Rightarrow> 'a RequestState" where
  "with_parent parent rs = \<lparr> rs_parent = Some parent, rs_skip_providers = rs_skip_providers rs,
     rs_crumbs = parent # rs_crumbs rs, rs_speculative = rs_speculative rs, rs_tracked = {} \<rparr>"

definition with_skip_provider :: "rstr \<Rightarrow> 'a RequestState \<Rightarrow> 'a RequestState" where
  "with_skip_provider name rs = \<lparr> rs_parent = rs_parent rs, rs_skip_providers = insert name (rs_skip_providers rs),
     rs_crumbs = rs_crumbs rs, rs_speculative = rs_speculative rs, rs_tracked = {} \<rparr>"

definition speculative :: "'a RequestState \<Rightarrow> 'a RequestState" where
  "speculative rs = \<lparr> rs_parent = rs_parent rs, rs_skip_providers = rs_skip_providers rs,
     rs_crumbs = rs_crumbs rs, rs_speculative = True, rs_tracked = {} \<rparr>"

text \<open>The breadcrumb walk of the speculative branch.\<close>

fun crumb_walk :: "'a \<Rightarrow> 'a list \<Rightarrow> 'a dag_error + unit" where
  "crumb_walk addr [] = Ok ()"
| "crumb_walk addr (c # cs) = (if c = addr then Err (CycleError c addr) else crumb_walk addr cs)"

definition track_dep :: "'a \<Rightarrow> 'a RequestState \<Rightarrow> 'a DepDag \<Rightarrow> ('a dag_error + unit) \<times> 'a RequestState \<times> 'a DepDag" where
  "track_dep addr rs d =
     (if rs_speculative rs then (crumb_walk addr (rs_crumbs rs), rs, d)
      else case rs_parent rs of
        None \<Rightarrow> (Ok (), rs, d)
      | Some parent \<Rightarrow>
          if addr \<in> rs_tracked rs then (Ok (), rs, d)
          else (case add_dep parent addr d of
              (Err e, d') \<Rightarrow> (Err e, rs, d')
            | (Ok _, d') \<Rightarrow> (Ok (), rs\<lparr> rs_tracked := insert addr (rs_tracked rs) \<rparr>, d')))"

section \<open>What a search finds\<close>

definition region_step :: "nat list list \<Rightarrow> (nat \<Rightarrow> bool) \<Rightarrow> (nat \<times> nat) set" where
  "region_step adj keep = {(x, w). w \<in> set (adj ! x) \<and> keep w}"

lemma region_scan_ok:
  "region_scan stop keep n ws (V, D, S) = Some (Some (V', D', S')) \<Longrightarrow>
     stop \<notin> Some ` set ws \<and> (\<exists>new. V' = V \<union> set new \<and> D' = D @ new \<and> S' = rev new @ S \<and> distinct new
       \<and> set new = {w \<in> set ws. keep w \<and> w < n} - V \<and> (\<forall>w\<in>set ws. w < n))"
proof (induction stop keep n ws "(V, D, S)" arbitrary: V D S rule: region_scan.induct)
  case (2 stop keep n w ws V D S)
  have w: "stop \<noteq> Some w" "w < n" using "2.prems" by (auto split: if_splits)
  show ?case
  proof (cases "keep w \<and> w \<notin> V")
    case True
    then obtain new where "V' = insert w V \<union> set new" "D' = (D @ [w]) @ new" "S' = rev new @ w # S" "distinct new"
        "set new = {v \<in> set ws. keep v \<and> v < n} - insert w V" "stop \<notin> Some ` set ws" "\<forall>w\<in>set ws. w < n"
      using "2.hyps"(1) "2.prems" w by auto
    then show ?thesis using w True by (intro conjI exI [of _ "w # new"]) auto
  next
    case False
    then obtain new where "V' = V \<union> set new" "D' = D @ new" "S' = rev new @ S" "distinct new"
        "set new = {v \<in> set ws. keep v \<and> v < n} - V" "stop \<notin> Some ` set ws" "\<forall>w\<in>set ws. w < n"
      using "2.hyps"(2) "2.prems" w by auto
    then show ?thesis using w False by (intro conjI exI [of _ new]) auto
  qed
qed simp

lemma region_scan_stop: "region_scan stop keep n ws st = Some None \<Longrightarrow> stop \<in> Some ` set ws"
  by (induction stop keep n ws st rule: region_scan.induct) (auto split: if_splits)

lemma region_scan_no_panic: "\<forall>w\<in>set ws. w < n \<Longrightarrow> region_scan stop keep n ws st \<noteq> None"
  by (induction stop keep n ws st rule: region_scan.induct) auto

definition region_inv :: "nat list list \<Rightarrow> nat option \<Rightarrow> (nat \<Rightarrow> bool) \<Rightarrow> nat \<Rightarrow> nat set \<times> nat list \<times> nat list \<Rightarrow> bool" where
  "region_inv adj stop keep root st = (case st of (V, D, S) \<Rightarrow>
     set D = V \<and> distinct D \<and> set S \<subseteq> V \<and> root \<in> V \<and> V \<subseteq> (region_step adj keep)\<^sup>* `` {root}
     \<and> (\<forall>x\<in>V - set S. \<forall>w\<in>set (adj ! x). stop \<noteq> Some w \<and> (keep w \<longrightarrow> w \<in> V)))"

lemma region_inv_step:
  assumes inv: "region_inv adj stop keep root (V, D, x # S)"
    and scan: "region_scan stop keep n (adj ! x) (V, D, S) = Some (Some st)"
  shows "region_inv adj stop keep root st"
proof -
  obtain V' D' S' where st: "st = (V', D', S')" by (cases st)
  obtain new where new: "V' = V \<union> set new" "D' = D @ new" "S' = rev new @ S" "distinct new"
      "set new = {w \<in> set (adj ! x). keep w \<and> w < n} - V" "\<forall>w\<in>set (adj ! x). w < n"
    and stop: "stop \<notin> Some ` set (adj ! x)"
    using region_scan_ok [OF scan [unfolded st]] by blast
  have I: "set D = V" "distinct D" "insert x (set S) \<subseteq> V" "root \<in> V" "V \<subseteq> (region_step adj keep)\<^sup>* `` {root}"
      "\<forall>y\<in>V - insert x (set S). \<forall>w\<in>set (adj ! y). stop \<noteq> Some w \<and> (keep w \<longrightarrow> w \<in> V)"
    using inv by (auto simp: region_inv_def)
  have x: "x \<in> (region_step adj keep)\<^sup>* `` {root}" using I(3,5) by blast
  have "set new \<subseteq> (region_step adj keep)\<^sup>* `` {root}"
  proof
    fix w assume "w \<in> set new"
    then have "(x, w) \<in> region_step adj keep" using new(5) by (simp add: region_step_def)
    with x show "w \<in> (region_step adj keep)\<^sup>* `` {root}" by (auto intro: rtrancl_into_rtrancl)
  qed
  moreover have "stop \<noteq> Some w \<and> (keep w \<longrightarrow> w \<in> V')" if "y \<in> V' - set S'" "w \<in> set (adj ! y)" for y w
  proof (cases "y = x")
    case True
    then show ?thesis using that new stop by (auto simp: image_iff)
  next
    case False
    then have "y \<in> V - insert x (set S)" using that new(1,3) by auto
    then show ?thesis using I(6) that(2) new(1) by blast
  qed
  moreover have "set D' = V'" "distinct D'" "set S' \<subseteq> V'" "root \<in> V'" using I(1-4) new(1-5) by auto
  ultimately show ?thesis using I(5) new(1) unfolding region_inv_def st by auto
qed

lemma region_loop_ok:
  "\<lbrakk>region_loop adj stop keep n st = Some (Some D); region_inv adj stop keep root st\<rbrakk>
   \<Longrightarrow> distinct D \<and> set D = (region_step adj keep)\<^sup>* `` {root} \<and> (\<forall>x\<in>set D. stop \<notin> Some ` set (adj ! x))"
proof (induction adj stop keep n st rule: region_loop.induct)
  case (1 adj stop keep n V delta)
  then have inv: "set D = V" "distinct D" "root \<in> V" "V \<subseteq> (region_step adj keep)\<^sup>* `` {root}"
      "\<forall>x\<in>V. \<forall>w\<in>set (adj ! x). stop \<noteq> Some w \<and> (keep w \<longrightarrow> w \<in> V)"
    by (auto simp: region_inv_def)
  have "y \<in> V" if "(root, y) \<in> (region_step adj keep)\<^sup>*" for y
    using that
  proof (induction rule: rtrancl_induct)
    case (step y z)
    then show ?case using inv(5) by (auto simp: region_step_def)
  qed (rule inv(3))
  then show ?case using inv by auto
next
  case (2 adj stop keep n V delta x S)
  obtain st where scan: "region_scan stop keep n (adj ! x) (V, delta, S) = Some (Some st)" and x: "x < length adj"
    and loop: "region_loop adj stop keep n st = Some (Some D)"
    using "2.prems"(1) by (auto split: if_splits option.splits)
  have "region_inv adj stop keep root st" using region_inv_step [OF "2.prems"(2) scan] .
  then show ?case using "2.IH" [OF _ scan refl loop] x by simp
qed

lemma region_loop_stop:
  "\<lbrakk>region_loop adj stop keep n st = Some None; region_inv adj stop keep root st\<rbrakk>
   \<Longrightarrow> \<exists>x. (root, x) \<in> (region_step adj keep)\<^sup>* \<and> stop \<in> Some ` set (adj ! x)"
proof (induction adj stop keep n st rule: region_loop.induct)
  case (2 adj stop keep n V delta x S)
  then have x: "x < length adj" by (auto split: if_splits)
  show ?case
  proof (cases "region_scan stop keep n (adj ! x) (V, delta, S)")
    case None
    then show ?thesis using "2.prems" x by simp
  next
    case (Some r)
    show ?thesis
    proof (cases r)
      case None
      then have "stop \<in> Some ` set (adj ! x)" using Some by (auto dest: region_scan_stop)
      moreover have "(root, x) \<in> (region_step adj keep)\<^sup>*" using "2.prems"(2) by (auto simp: region_inv_def)
      ultimately show ?thesis by blast
    next
      case (Some st)
      note scan = \<open>region_scan stop keep n (adj ! x) (V, delta, S) = Some r\<close> [unfolded Some]
      then have "region_inv adj stop keep root st" using region_inv_step [OF "2.prems"(2)] by blast
      moreover have "region_loop adj stop keep n st = Some None" using "2.prems"(1) x scan by simp
      ultimately show ?thesis using "2.IH" [OF _ scan refl] x by simp
    qed
  qed
qed simp

lemma region_loop_no_panic:
  "\<lbrakk>region_inv adj stop keep root st; fst st \<subseteq> {..<n}; length adj = n; \<forall>x<n. \<forall>w\<in>set (adj ! x). w < n\<rbrakk>
   \<Longrightarrow> region_loop adj stop keep n st \<noteq> None"
proof (induction adj stop keep n st rule: region_loop.induct)
  case (2 adj stop keep n V delta x S)
  have x: "x < length adj" using "2.prems" by (auto simp: region_inv_def)
  have "region_scan stop keep n (adj ! x) (V, delta, S) \<noteq> None"
    using "2.prems"(3,4) x by (intro region_scan_no_panic) auto
  then obtain r where scan: "region_scan stop keep n (adj ! x) (V, delta, S) = Some r" by blast
  show ?case
  proof (cases r)
    case None
    then show ?thesis using scan x by simp
  next
    case (Some st)
    obtain V' D' S' where st: "st = (V', D', S')" by (cases st)
    have "fst st \<subseteq> {..<n}"
      using region_scan_ok [OF scan [unfolded Some st]] "2.prems"(2) by (auto simp: st)
    moreover have "region_inv adj stop keep root st"
      using region_inv_step [OF "2.prems"(1) scan [unfolded Some]] .
    ultimately have "region_loop adj stop keep n st \<noteq> None"
      using "2.IH" [OF _ scan Some] x "2.prems" by simp
    then show ?thesis using scan Some x by simp
  qed
qed simp

lemma region_inv_start: "region_inv adj stop keep root ({root}, [root], [root])"
  by (simp add: region_inv_def)

lemma region_loop_no_stop: "region_loop adj None keep n ({r}, [r], [r]) \<noteq> Some None"
  using region_loop_stop [OF _ region_inv_start] by blast

declare region_loop.simps [simp del]

section \<open>Handing the positions out again\<close>

lemma strict_sorted_nth_mono: "sorted_wrt (<) P \<Longrightarrow> i < length P \<Longrightarrow> j < length P \<Longrightarrow> P ! i < P ! j \<longleftrightarrow> i < j"
  for P :: "nat list"
  by (metis linorder_neqE_nat order_less_asym order_less_irrefl sorted_wrt_nth_less)

text \<open>Of two strictly sorted lists, one contained in the other, the larger one is below at equal
  distance from the front and above at equal distance from the end.\<close>

lemma sorted_sub_front:
  fixes A P :: "nat list"
  assumes "sorted_wrt (<) A" "sorted_wrt (<) P" "set A \<subseteq> set P" "i < length A"
  shows "P ! i \<le> A ! i"
proof (rule ccontr)
  assume "\<not> P ! i \<le> A ! i"
  then have less: "A ! i < P ! i" by simp
  have distA: "distinct A" and distP: "distinct P" using assms strict_sorted_iff by auto
  have lenP: "length A \<le> length P"
    using assms(3) distA distP by (metis card_mono distinct_card finite_set)
  have "set (take (Suc i) A) \<subseteq> set (take i P)"
  proof
    fix x assume "x \<in> set (take (Suc i) A)"
    then obtain j where j: "j \<le> i" "x = A ! j" using assms(4) by (auto simp: in_set_conv_nth less_Suc_eq_le)
    then have "x \<le> A ! i" using assms(1,4) by (metis le_neq_implies_less less_imp_le order_refl sorted_wrt_nth_less)
    moreover have "x \<in> set P" using j assms(3,4) by auto
    then obtain k where k: "k < length P" "x = P ! k" by (auto simp: in_set_conv_nth)
    ultimately have "P ! k < P ! i" using less by simp
    then have "k < i" using strict_sorted_nth_mono [OF assms(2), of k i] k(1) assms(4) lenP by simp
    then show "x \<in> set (take i P)" using k by (auto simp: in_set_conv_nth)
  qed
  then have "card (set (take (Suc i) A)) \<le> card (set (take i P))" by (simp add: card_mono)
  moreover have "card (set (take (Suc i) A)) = Suc i" using distA assms(4) by (simp add: distinct_card)
  moreover have "card (set (take i P)) \<le> i" by (metis card_length le_trans length_take min.cobounded2)
  ultimately show False by simp
qed

lemma sorted_sub_back:
  fixes A P :: "nat list"
  assumes "sorted_wrt (<) A" "sorted_wrt (<) P" "set A \<subseteq> set P" "i < length A"
  shows "A ! i \<le> P ! (length P - length A + i)"
proof (rule ccontr)
  let ?k = "length P - length A + i"
  assume "\<not> A ! i \<le> P ! ?k"
  then have less: "P ! ?k < A ! i" by simp
  have distA: "distinct A" and distP: "distinct P" using assms strict_sorted_iff by auto
  have lenP: "length A \<le> length P"
    using assms(3) distA distP by (metis card_mono distinct_card finite_set)
  then have klen: "?k < length P" using assms(4) by simp
  have "set (drop i A) \<subseteq> set (drop (Suc ?k) P)"
  proof
    fix x assume "x \<in> set (drop i A)"
    then obtain j where j: "i \<le> j" "j < length A" "x = A ! j"
      by (auto simp: in_set_conv_nth) (metis le_add1 less_diff_conv add.commute)
    then have "A ! i \<le> x" using assms(1) by (metis le_neq_implies_less less_imp_le order_refl sorted_wrt_nth_less)
    moreover have "x \<in> set P" using j assms(3) by auto
    then obtain m where m: "m < length P" "x = P ! m" by (auto simp: in_set_conv_nth)
    ultimately have "P ! ?k < P ! m" using less by simp
    then have "?k < m" using strict_sorted_nth_mono [OF assms(2), of ?k m] m(1) klen by simp
    then have "x = drop (Suc ?k) P ! (m - Suc ?k)" "m - Suc ?k < length (drop (Suc ?k) P)" using m by auto
    then show "x \<in> set (drop (Suc ?k) P)" by (metis nth_mem)
  qed
  then have "card (set (drop i A)) \<le> card (set (drop (Suc ?k) P))" by (simp add: card_mono)
  moreover have "card (set (drop i A)) = length A - i" using distA by (simp add: distinct_card)
  moreover have "card (set (drop (Suc ?k) P)) \<le> length P - Suc ?k" by (metis card_length length_drop)
  ultimately show False using assms(4) lenP by simp
qed

lemma assign_from_length [simp]: "length (assign_from k pos ns od) = length od"
  by (induction ns arbitrary: k od) auto

lemma assign_from_other: "x \<notin> set ns \<Longrightarrow> assign_from k pos ns od ! x = od ! x"
  by (induction ns arbitrary: k od) auto

lemma assign_from_nth:
  "\<lbrakk>distinct ns; \<forall>x\<in>set ns. x < length od; i < length ns\<rbrakk> \<Longrightarrow> assign_from k pos ns od ! (ns ! i) = pos ! (k + i)"
proof (induction ns arbitrary: k od i)
  case (Cons n ns)
  then show ?case by (cases i) (simp_all add: assign_from_other)
qed simp

text \<open>What a reorder does: the positions of the two regions are permuted so that the backward
  region comes first, each region keeps its own order, and no node of the backward region moves
  up, none of the forward region down.\<close>

lemma reorder_props:
  fixes od :: "nat list"
  assumes dist: "distinct od" and dm: "distinct dm0" and dp: "distinct dp0" and disj: "set dm0 \<inter> set dp0 = {}"
    and bound: "\<forall>x\<in>set dm0 \<union> set dp0. x < length od"
  defines "od' \<equiv> reorder od dm0 dp0" and "S \<equiv> set dm0 \<union> set dp0"
  shows "length od' = length od"
    and "x \<notin> S \<Longrightarrow> od' ! x = od ! x"
    and "x \<in> S \<Longrightarrow> od' ! x \<in> (!) od ` S"
    and "x \<in> set dm0 \<Longrightarrow> od' ! x \<le> od ! x"
    and "x \<in> set dp0 \<Longrightarrow> od ! x \<le> od' ! x"
    and "x \<in> set dm0 \<Longrightarrow> y \<in> set dp0 \<Longrightarrow> od' ! x < od' ! y"
    and "x \<in> set dm0 \<Longrightarrow> y \<in> set dm0 \<Longrightarrow> od ! x < od ! y \<Longrightarrow> od' ! x < od' ! y"
    and "x \<in> set dp0 \<Longrightarrow> y \<in> set dp0 \<Longrightarrow> od ! x < od ! y \<Longrightarrow> od' ! x < od' ! y"
    and "distinct od'" and "set od' = set od"
proof -
  define m where "m = sort_key (\<lambda>n. od ! n) dm0"
  define q where "q = sort_key (\<lambda>n. od ! n) dp0"
  define A where "A = map (\<lambda>n. od ! n) m"
  define B where "B = map (\<lambda>n. od ! n) q"
  define pos where "pos = sort (A @ B)"
  have od': "od' = assign_from (length m) pos q (assign_from 0 pos m od)"
    by (simp add: od'_def reorder_def Let_def m_def q_def A_def B_def pos_def)
  have sm: "set m = set dm0" "distinct m" and sq: "set q = set dp0" "distinct q"
    using dm dp by (simp_all add: m_def q_def)
  have inj: "inj_on ((!) od) S"
    unfolding S_def using dist bound by (auto simp: inj_on_def nth_eq_iff_index_eq)
  have lA: "length A = length m" and lB: "length B = length q" by (simp_all add: A_def B_def)
  have "od ! x \<noteq> od ! y" if "x \<in> set dm0" "y \<in> set dp0" for x y
    using that inj disj inj_onD [OF inj, of x y] by (auto simp: S_def)
  then have disjAB: "set A \<inter> set B = {}" using sm(1) sq(1) by (auto simp: A_def B_def)
  have dA: "distinct A" "distinct B" "set A \<inter> set B = {}"
    using sm sq inj disjAB by (auto simp: A_def B_def S_def distinct_map inj_on_def)
  have "sorted A" "sorted B" by (simp_all add: A_def B_def m_def q_def)
  then have stA: "sorted_wrt (<) A" and stB: "sorted_wrt (<) B" using dA by (simp_all add: strict_sorted_iff)
  have stP: "sorted_wrt (<) pos" using dA by (simp add: pos_def strict_sorted_iff)
  have lP: "length pos = length m + length q" by (simp add: pos_def lA lB)
  have setP: "set pos = (!) od ` S" by (auto simp: pos_def A_def B_def sm sq S_def)
  have m_at: "od' ! (m ! i) = pos ! i" if "i < length m" for i
    using that sm sq disj bound unfolding od'
    by (subst assign_from_other) (auto simp: assign_from_nth)
  have q_at: "od' ! (q ! i) = pos ! (length m + i)" if "i < length q" for i
    using that sq bound unfolding od' by (subst assign_from_nth) auto
  show len: "length od' = length od" by (simp add: od')
  show other: "x \<notin> S \<Longrightarrow> od' ! x = od ! x" for x
    using sm sq by (simp add: od' assign_from_other S_def)
  have m_ix: "\<exists>i<length m. x = m ! i" if "x \<in> set dm0" for x using that sm(1) by (metis in_set_conv_nth)
  have q_ix: "\<exists>i<length q. x = q ! i" if "x \<in> set dp0" for x using that sq(1) by (metis in_set_conv_nth)
  show inS: "x \<in> S \<Longrightarrow> od' ! x \<in> (!) od ` S" for x
    using m_ix [of x] q_ix [of x] m_at q_at lP by (auto simp: S_def setP [unfolded S_def, symmetric])
  show "x \<in> set dm0 \<Longrightarrow> od' ! x \<le> od ! x" for x
  proof -
    assume "x \<in> set dm0"
    then obtain i where i: "i < length m" "x = m ! i" using m_ix by blast
    have "pos ! i \<le> A ! i" using stA stP i lA by (intro sorted_sub_front) (auto simp: pos_def)
    then show ?thesis using i m_at by (simp add: A_def)
  qed
  show "x \<in> set dp0 \<Longrightarrow> od ! x \<le> od' ! x" for x
  proof -
    assume "x \<in> set dp0"
    then obtain i where i: "i < length q" "x = q ! i" using q_ix by blast
    have "B ! i \<le> pos ! (length pos - length B + i)"
      using stB stP i lB by (intro sorted_sub_back) (auto simp: pos_def)
    then show ?thesis using i q_at lP lB by (simp add: B_def)
  qed
  show "x \<in> set dm0 \<Longrightarrow> y \<in> set dp0 \<Longrightarrow> od' ! x < od' ! y" for x y
  proof -
    assume "x \<in> set dm0" "y \<in> set dp0"
    then obtain i j where "i < length m" "x = m ! i" "j < length q" "y = q ! j" using m_ix q_ix by blast
    then show ?thesis using m_at q_at lP stP by (simp add: sorted_wrt_nth_less)
  qed
  show "x \<in> set dm0 \<Longrightarrow> y \<in> set dm0 \<Longrightarrow> od ! x < od ! y \<Longrightarrow> od' ! x < od' ! y" for x y
  proof -
    assume "x \<in> set dm0" "y \<in> set dm0" and less: "od ! x < od ! y"
    then obtain i j where ij: "i < length m" "x = m ! i" "j < length m" "y = m ! j" using m_ix by blast
    then have "A ! i < A ! j" using less by (simp add: A_def)
    then have "i < j" using strict_sorted_nth_mono [OF stA] ij lA by simp
    then show ?thesis using ij m_at lP stP by (simp add: sorted_wrt_nth_less)
  qed
  show "x \<in> set dp0 \<Longrightarrow> y \<in> set dp0 \<Longrightarrow> od ! x < od ! y \<Longrightarrow> od' ! x < od' ! y" for x y
  proof -
    assume "x \<in> set dp0" "y \<in> set dp0" and less: "od ! x < od ! y"
    then obtain i j where ij: "i < length q" "x = q ! i" "j < length q" "y = q ! j" using q_ix by blast
    then have "B ! i < B ! j" using less by (simp add: B_def)
    then have "i < j" using strict_sorted_nth_mono [OF stB] ij lB by simp
    then show ?thesis using ij q_at lP stP by (simp add: sorted_wrt_nth_less)
  qed
  have dpos: "distinct pos" using stP by (simp add: strict_sorted_iff)
  have L: "set (m @ q) = S" "distinct (m @ q)" using sm sq disj by (auto simp: S_def)
  have L_at: "od' ! ((m @ q) ! i) = pos ! i" if "i < length (m @ q)" for i
    using that m_at [of i] q_at [of "i - length m"] by (auto simp: nth_append)
  have inj': "od' ! x \<noteq> od' ! y" if xS: "x \<in> S" and yS: "y \<in> S" and ne: "x \<noteq> y" for x y
  proof -
    have ix: "\<exists>i<length (m @ q). z = (m @ q) ! i" if "z \<in> S" for z
      using that unfolding L(1) [symmetric] in_set_conv_nth by blast
    obtain i j where i: "i < length (m @ q)" "x = (m @ q) ! i" and j: "j < length (m @ q)" "y = (m @ q) ! j"
      using ix [OF xS] ix [OF yS] by blast
    then have "i \<noteq> j" using ne by blast
    then have "pos ! i \<noteq> pos ! j" using i(1) j(1) lP dpos by (simp add: nth_eq_iff_index_eq)
    then show ?thesis using L_at [OF i(1)] L_at [OF j(1)] i(2) j(2) by simp
  qed
  show "distinct od'"
    unfolding distinct_conv_nth
  proof (intro allI impI)
    fix x y assume xy: "x < length od'" "y < length od'" "x \<noteq> y"
    have notin: "od ! z \<notin> (!) od ` S" if "z \<notin> S" "z < length od" for z
      using that dist bound by (auto simp: S_def nth_eq_iff_index_eq)
    consider "x \<in> S" "y \<in> S" | "x \<in> S" "y \<notin> S" | "x \<notin> S" "y \<in> S" | "x \<notin> S" "y \<notin> S" by blast
    then show "od' ! x \<noteq> od' ! y"
    proof cases
      case 1 then show ?thesis using inj' xy(3) by blast
    next
      case 2 then show ?thesis using inS other notin xy len by metis
    next
      case 3 then show ?thesis using inS other notin xy len by metis
    next
      case 4 then show ?thesis using other dist xy len by (simp add: nth_eq_iff_index_eq)
    qed
  qed
  moreover have "set od' \<subseteq> set od"
  proof
    fix v assume "v \<in> set od'"
    then obtain x where x: "x < length od" "v = od' ! x" using len by (metis in_set_conv_nth)
    then show "v \<in> set od" using other [of x] inS [of x] bound by (cases "x \<in> S") (auto simp: S_def)
  qed
  ultimately show "set od' = set od"
    using dist len by (metis card_subset_eq distinct_card finite_set)
qed

section \<open>The invariant\<close>

definition idx_edges :: "'a DepDag \<Rightarrow> (nat \<times> nat) set" where
  "idx_edges d = {(i, j). i < length (succ d) \<and> j \<in> set (succ d ! i)}"

definition dag_edges :: "'a DepDag \<Rightarrow> ('a \<times> 'a) set" where
  "dag_edges d = (\<lambda>(i, j). (nodes d ! i, nodes d ! j)) ` idx_edges d"

definition dag_inv :: "'a DepDag \<Rightarrow> bool" where
  "dag_inv d \<longleftrightarrow> (let n = length (nodes d) in
     length (succ d) = n \<and> length (pred d) = n \<and> length (ord d) = n \<and> n \<le> 2 ^ 32
   \<and> distinct (nodes d) \<and> (\<forall>a i. index_of d a = Some i \<longleftrightarrow> i < n \<and> nodes d ! i = a)
   \<and> distinct (ord d) \<and> set (ord d) = {..<n}
   \<and> (\<forall>i j. (i, j) \<in> idx_edges d \<longrightarrow> j < n \<and> ord d ! i < ord d ! j)
   \<and> (\<forall>i j. (i, j) \<in> idx_edges d \<longleftrightarrow> j < n \<and> i \<in> set (pred d ! j))
   \<and> edges d = (\<lambda>(i, j). edge_key i j) ` idx_edges d)"

lemma dag_invD:
  assumes "dag_inv d"
  shows "length (succ d) = length (nodes d)" "length (pred d) = length (nodes d)" "length (ord d) = length (nodes d)"
    and "length (nodes d) \<le> 2 ^ 32" "distinct (nodes d)"
    and "\<And>a i. index_of d a = Some i \<longleftrightarrow> i < length (nodes d) \<and> nodes d ! i = a"
    and "distinct (ord d)" "set (ord d) = {..<length (nodes d)}"
    and "\<And>i j. (i, j) \<in> idx_edges d \<Longrightarrow> i < length (nodes d) \<and> j < length (nodes d) \<and> ord d ! i < ord d ! j"
    and "\<And>i j. (i, j) \<in> idx_edges d \<longleftrightarrow> j < length (nodes d) \<and> i \<in> set (pred d ! j)"
    and "edges d = (\<lambda>(i, j). edge_key i j) ` idx_edges d"
proof -
  let ?n = "length (nodes d)"
  have inv: "length (succ d) = ?n \<and> length (pred d) = ?n \<and> length (ord d) = ?n \<and> ?n \<le> 2 ^ 32"
      "distinct (nodes d) \<and> (\<forall>a i. index_of d a = Some i \<longleftrightarrow> i < ?n \<and> nodes d ! i = a)"
      "distinct (ord d) \<and> set (ord d) = {..<?n}"
      "\<forall>i j. (i, j) \<in> idx_edges d \<longrightarrow> j < ?n \<and> ord d ! i < ord d ! j"
      "\<forall>i j. (i, j) \<in> idx_edges d \<longleftrightarrow> j < ?n \<and> i \<in> set (pred d ! j)"
      "edges d = (\<lambda>(i, j). edge_key i j) ` idx_edges d"
    using assms unfolding dag_inv_def Let_def by blast+
  show "length (succ d) = ?n" "length (pred d) = ?n" "length (ord d) = ?n" "?n \<le> 2 ^ 32" using inv(1) by blast+
  show "distinct (nodes d)" "\<And>a i. index_of d a = Some i \<longleftrightarrow> i < ?n \<and> nodes d ! i = a" using inv(2) by blast+
  show "distinct (ord d)" "set (ord d) = {..<?n}" using inv(3) by blast+
  show "edges d = (\<lambda>(i, j). edge_key i j) ` idx_edges d" by (rule inv(6))
  fix i j
  show "(i, j) \<in> idx_edges d \<longleftrightarrow> j < ?n \<and> i \<in> set (pred d ! j)" using inv(5) by blast
  assume ij: "(i, j) \<in> idx_edges d"
  then have "i < length (succ d)" by (simp add: idx_edges_def)
  then show "i < ?n \<and> j < ?n \<and> ord d ! i < ord d ! j" using inv(1,4) ij by auto
qed

lemma dag_invI:
  assumes "length (succ d) = length (nodes d)" "length (pred d) = length (nodes d)" "length (ord d) = length (nodes d)"
    and "length (nodes d) \<le> 2 ^ 32" "distinct (nodes d)"
    and "\<And>a i. index_of d a = Some i \<longleftrightarrow> i < length (nodes d) \<and> nodes d ! i = a"
    and "distinct (ord d)" "set (ord d) = {..<length (nodes d)}"
    and "\<And>i j. (i, j) \<in> idx_edges d \<Longrightarrow> j < length (nodes d) \<and> ord d ! i < ord d ! j"
    and "\<And>i j. (i, j) \<in> idx_edges d \<longleftrightarrow> j < length (nodes d) \<and> i \<in> set (pred d ! j)"
    and "edges d = (\<lambda>(i, j). edge_key i j) ` idx_edges d"
  shows "dag_inv d"
  unfolding dag_inv_def Let_def using assms by blast

lemma edge_key_add: "t < 2 ^ 32 \<Longrightarrow> edge_key f t = f * 2 ^ 32 + t"
proof -
  assume "t < 2 ^ 32"
  then have "take_bit 32 t = t" by (simp add: take_bit_nat_eq_self)
  then have "bit t k \<Longrightarrow> k < 32" for k by (metis bit_take_bit_iff)
  then have "\<not> bit (push_bit 32 f) k \<or> \<not> bit t k" for k
    by (metis bit_push_bit_iff linorder_not_less)
  then have "push_bit 32 f OR t = push_bit 32 f + t" by (simp add: disjunctive_add)
  then show ?thesis by (simp add: edge_key_def push_bit_eq_mult)
qed

lemma edge_key_inj:
  assumes "t < 2 ^ 32" "t' < 2 ^ 32"
  shows "edge_key f t = edge_key f' t' \<longleftrightarrow> f = f' \<and> t = t'"
proof
  assume "edge_key f t = edge_key f' t'"
  then have eq: "f * 2 ^ 32 + t = f' * 2 ^ 32 + t'" using assms by (simp add: edge_key_add)
  have "(f * 2 ^ 32 + t) div 2 ^ 32 = f" "(f' * 2 ^ 32 + t') div 2 ^ 32 = f'"
       "(f * 2 ^ 32 + t) mod 2 ^ 32 = t" "(f' * 2 ^ 32 + t') mod 2 ^ 32 = t'"
    using assms by (simp_all add: div_mult_self3 mod_mult_self3)
  then show "f = f' \<and> t = t'" using eq by metis
qed simp

lemma edge_in_edges:
  assumes "dag_inv d" "f < length (nodes d)" "t < length (nodes d)"
  shows "edge_key f t \<in> edges d \<longleftrightarrow> (f, t) \<in> idx_edges d"
proof -
  have lt: "j < 2 ^ 32" if "j < length (nodes d)" for j using that dag_invD(4) [OF assms(1)] by simp
  show ?thesis
  proof
    assume "edge_key f t \<in> edges d"
    then obtain i j where ij: "(i, j) \<in> idx_edges d" "edge_key f t = edge_key i j"
      using dag_invD(11) [OF assms(1)] by auto
    then have "j < length (nodes d)" using dag_invD(9) [OF assms(1)] by blast
    then show "(f, t) \<in> idx_edges d" using ij edge_key_inj [OF lt [OF assms(3)] lt] by simp
  next
    assume "(f, t) \<in> idx_edges d"
    then show "edge_key f t \<in> edges d" using dag_invD(11) [OF assms(1)] by force
  qed
qed

lemma empty_dag_inv: "dag_inv empty_dag"
  by (simp add: dag_inv_def empty_dag_def idx_edges_def)

lemma get_or_insert_inv:
  assumes inv: "dag_inv d" and room: "length (nodes d) < 2 ^ 32"
    and g: "get_or_insert a d = (i, d')"
  shows "dag_inv d' \<and> i < length (nodes d') \<and> nodes d' ! i = a \<and> idx_edges d' = idx_edges d
    \<and> (\<exists>ext. nodes d' = nodes d @ ext \<and> length ext \<le> 1)"
proof -
  note D = dag_invD [OF inv]
  show ?thesis
  proof (cases "index_of d a")
    case (Some k)
    then have "i = k" "d' = d" using g by (auto simp: get_or_insert_def)
    then show ?thesis using inv Some D(6) [of a k] by auto
  next
    case None
    let ?n = "length (nodes d)"
    have d': "i = ?n" "d' = d\<lparr> nodes := nodes d @ [a], succ := succ d @ [[]], pred := pred d @ [[]],
        ord := ord d @ [?n], index_of := (index_of d)(a \<mapsto> ?n) \<rparr>"
      using g None room by (auto simp: get_or_insert_def Let_def)
    have E: "idx_edges d' = idx_edges d"
      using D(1) by (auto simp: idx_edges_def d' nth_append less_Suc_eq split: if_splits)
    have fresh: "a \<notin> set (nodes d)" using None D(6) by (metis in_set_conv_nth option.distinct(1))
    have idx: "index_of d' b = Some k \<longleftrightarrow> k < length (nodes d') \<and> nodes d' ! k = b" for b k
      using D(6) [of b k] fresh None by (auto simp: d' nth_append less_Suc_eq)
    have topo: "j < Suc ?n \<and> ord d' ! k < ord d' ! j" if "(k, j) \<in> idx_edges d" for k j
      using D(9) [OF that] D(3) by (simp add: d' nth_append)
    have pr: "(k, j) \<in> idx_edges d \<longleftrightarrow> j < Suc ?n \<and> k \<in> set (pred d' ! j)" for k j
      using D(10) [of k j] D(2) by (auto simp: d' nth_append less_Suc_eq)
    have "dag_inv d'"
    proof (rule dag_invI)
      show "distinct (nodes d')" using D(5) fresh by (simp add: d')
      show "distinct (ord d')" "set (ord d') = {..<length (nodes d')}" using D(7,8) by (simp_all add: d' lessThan_Suc)
      show "edges d' = (\<lambda>(i, j). edge_key i j) ` idx_edges d'" unfolding E using D(11) by (simp add: d')
      show "index_of d' b = Some k \<longleftrightarrow> k < length (nodes d') \<and> nodes d' ! k = b" for b k by (rule idx)
      show "(k, j) \<in> idx_edges d' \<Longrightarrow> j < length (nodes d') \<and> ord d' ! k < ord d' ! j" for k j
        using topo unfolding E by (simp add: d')
      show "(k, j) \<in> idx_edges d' \<longleftrightarrow> j < length (nodes d') \<and> k \<in> set (pred d' ! j)" for k j
        using pr unfolding E by (simp add: d')
    qed (use D(1-3) room in \<open>simp_all add: d'\<close>)
    then show ?thesis using E by (simp add: d')
  qed
qed

section \<open>The two regions\<close>

lemma idx_path_ord:
  assumes "dag_inv d" "(x, y) \<in> (idx_edges d)\<^sup>+"
  shows "x < length (nodes d) \<and> y < length (nodes d) \<and> ord d ! x < ord d ! y"
  using assms(2)
proof (induction rule: trancl_induct)
  case (base y)
  then show ?case using dag_invD(9) [OF assms(1)] by blast
next
  case (step y z)
  then show ?case using dag_invD(9) [OF assms(1)] by fastforce
qed

lemma idx_path_less: "dag_inv d \<Longrightarrow> (x, y) \<in> (idx_edges d)\<^sup>* \<Longrightarrow> x < length (nodes d) \<longleftrightarrow> y < length (nodes d)"
  by (metis idx_path_ord rtranclD)

lemma forward_region:
  assumes inv: "dag_inv d" and t: "t < length (nodes d)" "ord d ! t \<le> upper"
  shows "(region_step (succ d) (\<lambda>w. ord d ! w \<le> upper))\<^sup>* `` {t} = {y. (t, y) \<in> (idx_edges d)\<^sup>* \<and> ord d ! y \<le> upper}"
    (is "?R\<^sup>* `` _ = ?S")
proof (intro set_eqI iffI)
  fix y assume "y \<in> ?R\<^sup>* `` {t}"
  then have "(t, y) \<in> ?R\<^sup>*" by simp
  then show "y \<in> ?S"
  proof (induction rule: rtrancl_induct)
    case base
    then show ?case using t by simp
  next
    case (step y z)
    then have "y < length (nodes d)" using idx_path_less [OF inv, of t y] t by simp
    then have "(y, z) \<in> idx_edges d" using step(2) dag_invD(1) [OF inv] by (simp add: region_step_def idx_edges_def)
    then show ?case using step by (auto simp: region_step_def intro: rtrancl_into_rtrancl)
  qed
next
  fix y assume "y \<in> ?S"
  then have "(t, y) \<in> (idx_edges d)\<^sup>*" "ord d ! y \<le> upper" by simp_all
  then show "y \<in> ?R\<^sup>* `` {t}"
  proof (induction rule: rtrancl_induct)
    case (step y z)
    have "ord d ! y < ord d ! z" using dag_invD(9) [OF inv step(2)] by blast
    then have "(t, y) \<in> ?R\<^sup>*" using step by simp
    moreover have "(y, z) \<in> ?R" using step(2,4) by (simp add: region_step_def idx_edges_def)
    ultimately show ?case by (simp add: rtrancl_into_rtrancl)
  qed simp
qed

lemma backward_region:
  assumes inv: "dag_inv d" and f: "f < length (nodes d)" "lower \<le> ord d ! f"
  shows "(region_step (pred d) (\<lambda>w. lower \<le> ord d ! w))\<^sup>* `` {f} = {y. (y, f) \<in> (idx_edges d)\<^sup>* \<and> lower \<le> ord d ! y}"
    (is "?R\<^sup>* `` _ = ?S")
proof (intro set_eqI iffI)
  fix y assume "y \<in> ?R\<^sup>* `` {f}"
  then have "(f, y) \<in> ?R\<^sup>*" by simp
  then show "y \<in> ?S"
  proof (induction rule: rtrancl_induct)
    case base
    then show ?case using f by simp
  next
    case (step y z)
    then have "y < length (nodes d)" using idx_path_less [OF inv, of y f] f by simp
    then have "(z, y) \<in> idx_edges d" using step(2) dag_invD(10) [OF inv, of z y] by (simp add: region_step_def)
    then show ?case using step by (auto simp: region_step_def intro: converse_rtrancl_into_rtrancl)
  qed
next
  fix y assume "y \<in> ?S"
  then have "(y, f) \<in> (idx_edges d)\<^sup>*" "lower \<le> ord d ! y" by simp_all
  then show "y \<in> ?R\<^sup>* `` {f}"
  proof (induction rule: converse_rtrancl_induct)
    case (step y z)
    have "ord d ! y < ord d ! z" using dag_invD(9) [OF inv step(1)] by blast
    then have "(f, z) \<in> ?R\<^sup>*" using step by simp
    moreover have "(z, y) \<in> ?R" using step(1,4) dag_invD(10) [OF inv, of y z] by (simp add: region_step_def)
    ultimately show ?case by (simp add: rtrancl_into_rtrancl)
  qed simp
qed

text \<open>The reorder makes the order a topological one of the edges and the new edge.\<close>

lemma reorder_topological:
  assumes inv: "dag_inv d" and ft: "f < length (nodes d)" "t < length (nodes d)"
    and viol: "ord d ! t \<le> ord d ! f" and nopath: "(t, f) \<notin> (idx_edges d)\<^sup>*"
    and dp: "distinct dp" "set dp = {y. (t, y) \<in> (idx_edges d)\<^sup>* \<and> ord d ! y \<le> ord d ! f}"
    and dm: "distinct dm" "set dm = {y. (y, f) \<in> (idx_edges d)\<^sup>* \<and> ord d ! t \<le> ord d ! y}"
  defines "od' \<equiv> reorder (ord d) dm dp"
  shows "length od' = length (ord d)" "distinct od'" "set od' = set (ord d)" "od' ! f < od' ! t"
    and "(a, b) \<in> idx_edges d \<Longrightarrow> od' ! a < od' ! b"
proof -
  let ?E = "idx_edges d" and ?o = "ord d"
  have disj: "set dm \<inter> set dp = {}"
    using nopath by (auto simp: dp(2) dm(2) intro: rtrancl_trans)
  have bound: "\<forall>x\<in>set dm \<union> set dp. x < length ?o"
    using idx_path_less [OF inv] ft dag_invD(3) [OF inv] by (auto simp: dp(2) dm(2))
  note P = reorder_props [OF dag_invD(7) [OF inv] dm(1) dp(1) disj bound, folded od'_def]
  show "length od' = length ?o" "distinct od'" "set od' = set ?o" by (rule P)+
  have fm: "f \<in> set dm" and tp: "t \<in> set dp" using viol by (simp_all add: dm(2) dp(2))
  then show "od' ! f < od' ! t" by (rule P(6))
  have range: "?o ! t \<le> od' ! x \<and> od' ! x \<le> ?o ! f" if "x \<in> set dm \<union> set dp" for x
  proof -
    have "?o ! t \<le> ?o ! y \<and> ?o ! y \<le> ?o ! f" if "y \<in> set dm \<union> set dp" for y
    proof -
      have "?o ! y \<le> ?o ! f" if "(y, f) \<in> ?E\<^sup>*"
        using that idx_path_ord [OF inv, of y f] by (metis order_le_less rtranclD)
      moreover have "?o ! t \<le> ?o ! y" if "(t, y) \<in> ?E\<^sup>*"
        using that idx_path_ord [OF inv, of t y] by (metis order_le_less rtranclD)
      ultimately show ?thesis using that by (auto simp: dm(2) dp(2))
    qed
    then show ?thesis using P(3) [OF that] by auto
  qed
  assume ab: "(a, b) \<in> ?E"
  have oab: "?o ! a < ?o ! b" using dag_invD(9) [OF inv ab] by blast
  consider (mm) "a \<in> set dm" "b \<in> set dm" | (pp) "a \<in> set dp" "b \<in> set dp" | (mp) "a \<in> set dm" "b \<in> set dp"
    | (pm) "a \<in> set dp" "b \<in> set dm" | (mo) "a \<in> set dm" "b \<notin> set dm \<union> set dp"
    | (po) "a \<in> set dp" "b \<notin> set dm \<union> set dp" | (om) "a \<notin> set dm \<union> set dp" "b \<in> set dm"
    | (op) "a \<notin> set dm \<union> set dp" "b \<in> set dp" | (oo) "a \<notin> set dm \<union> set dp" "b \<notin> set dm \<union> set dp"
    by blast
  then show "od' ! a < od' ! b"
  proof cases
    case mm then show ?thesis using P(7) oab by blast
  next
    case pp then show ?thesis using P(8) oab by blast
  next
    case mp then show ?thesis using P(6) by blast
  next
    case pm
    then have "(t, a) \<in> ?E\<^sup>*" "(b, f) \<in> ?E\<^sup>*" by (simp_all add: dp(2) dm(2))
    then have "(t, f) \<in> ?E\<^sup>*" using ab by (meson converse_rtrancl_into_rtrancl rtrancl_trans)
    then show ?thesis using nopath by blast
  next
    case mo
    then show ?thesis using P(4) [of a] P(2) [of b] oab by simp
  next
    case po
    then have "(t, b) \<in> ?E\<^sup>*" using ab by (auto simp: dp(2) intro: rtrancl_into_rtrancl)
    then have "?o ! f < ?o ! b" using po(2) by (auto simp: dp(2))
    then show ?thesis using range [of a] po P(2) [of b] by simp
  next
    case om
    then have "(a, f) \<in> ?E\<^sup>*" using ab by (auto simp: dm(2) intro: converse_rtrancl_into_rtrancl)
    then have "?o ! a < ?o ! t" using om(1) by (auto simp: dm(2))
    then show ?thesis using range [of b] om P(2) [of a] by simp
  next
    case op
    then show ?thesis using P(5) [of b] P(2) [of a] oab by simp
  next
    case oo
    then show ?thesis using P(2) oab by simp
  qed
qed

section \<open>Committing and adding\<close>

lemma commit_edge_inv:
  assumes inv: "dag_inv d" and ft: "f < length (nodes d)" "t < length (nodes d)" and new: "(f, t) \<notin> idx_edges d"
    and od: "length od' = length (ord d)" "distinct od'" "set od' = set (ord d)" "od' ! f < od' ! t"
    and topo: "\<And>a b. (a, b) \<in> idx_edges d \<Longrightarrow> od' ! a < od' ! b"
  defines "d' \<equiv> commit_edge f t (d\<lparr> ord := od' \<rparr>)"
  shows "dag_inv d' \<and> nodes d' = nodes d \<and> idx_edges d' = insert (f, t) (idx_edges d)"
proof -
  note D = dag_invD [OF inv]
  have nodes: "nodes d' = nodes d" by (simp add: d'_def commit_edge_def)
  have E: "idx_edges d' = insert (f, t) (idx_edges d)"
    using ft D(1) by (auto simp: idx_edges_def d'_def commit_edge_def nth_list_update split: if_splits)
  have "dag_inv d'"
  proof (rule dag_invI)
    show "index_of d' a = Some i \<longleftrightarrow> i < length (nodes d') \<and> nodes d' ! i = a" for a i
      using D(6) by (simp add: d'_def commit_edge_def)
    show "(i, j) \<in> idx_edges d' \<Longrightarrow> j < length (nodes d') \<and> ord d' ! i < ord d' ! j" for i j
      using D(9) topo od(4) ft unfolding E by (auto simp: d'_def commit_edge_def)
    show "(i, j) \<in> idx_edges d' \<longleftrightarrow> j < length (nodes d') \<and> i \<in> set (pred d' ! j)" for i j
      using D(10) [of i j] ft D(2) unfolding E by (auto simp: d'_def commit_edge_def nth_list_update)
    show "edges d' = (\<lambda>(i, j). edge_key i j) ` idx_edges d'"
      using D(11) unfolding E by (simp add: d'_def commit_edge_def)
  qed (use D(1-5,7,8) od(1-3) in \<open>simp_all add: d'_def commit_edge_def\<close>)
  then show ?thesis using nodes E by blast
qed

lemma dag_path_idx:
  assumes inv: "dag_inv d" and i: "i < length (nodes d)" and path: "(nodes d ! i, y) \<in> (dag_edges d)\<^sup>*"
  shows "\<exists>j<length (nodes d). y = nodes d ! j \<and> (i, j) \<in> (idx_edges d)\<^sup>*"
  using path
proof (induction rule: rtrancl_induct)
  case base
  then show ?case using i by blast
next
  case (step y z)
  then obtain j where j: "j < length (nodes d)" "y = nodes d ! j" "(i, j) \<in> (idx_edges d)\<^sup>*" by blast
  obtain k l where kl: "(k, l) \<in> idx_edges d" "y = nodes d ! k" "z = nodes d ! l"
    using step(2) by (auto simp: dag_edges_def)
  have "k = j" using dag_invD(5,9) [OF inv] kl j by (metis nth_eq_iff_index_eq)
  then show ?case using j kl dag_invD(9) [OF inv kl(1)] by (blast intro: rtrancl_into_rtrancl)
qed

lemma idx_path_dag: "(i, j) \<in> (idx_edges d)\<^sup>* \<Longrightarrow> (nodes d ! i, nodes d ! j) \<in> (dag_edges d)\<^sup>*"
proof (induction rule: rtrancl_induct)
  case (step y z)
  have "(nodes d ! y, nodes d ! z) \<in> dag_edges d" using step(2) by (force simp: dag_edges_def)
  then show ?case using step by (simp add: rtrancl_into_rtrancl)
qed simp

lemma dag_path_iff:
  assumes "dag_inv d" "i < length (nodes d)" "j < length (nodes d)"
  shows "(nodes d ! i, nodes d ! j) \<in> (dag_edges d)\<^sup>* \<longleftrightarrow> (i, j) \<in> (idx_edges d)\<^sup>*"
  using dag_path_idx [OF assms(1,2)] idx_path_dag assms dag_invD(5) [OF assms(1)]
  by (metis nth_eq_iff_index_eq)

lemma dag_edges_extend:
  assumes "dag_inv d" "nodes d' = nodes d @ ext" "idx_edges d' = idx_edges d"
  shows "dag_edges d' = dag_edges d"
proof -
  have "(\<lambda>(i, j). (nodes d' ! i, nodes d' ! j)) p = (\<lambda>(i, j). (nodes d ! i, nodes d ! j)) p" if "p \<in> idx_edges d" for p
    using that dag_invD(9) [OF assms(1), of "fst p" "snd p"] assms(2) by (cases p) (auto simp: nth_append)
  then show ?thesis unfolding dag_edges_def assms(3) by (rule image_cong [OF refl])
qed

text \<open>The indexed half of \<^verbatim>\<open>add_dep\<close>, once both nodes exist.\<close>

definition add_idx :: "nat \<Rightarrow> nat \<Rightarrow> 'a DepDag \<Rightarrow> ('a dag_error + unit) \<times> 'a DepDag \<Rightarrow> bool" where
  "add_idx f t d res \<longleftrightarrow> dag_inv (snd res) \<and> nodes (snd res) = nodes d
     \<and> (if (t, f) \<in> (idx_edges d)\<^sup>* then fst res = Err (CycleError (nodes d ! f) (nodes d ! t)) \<and> snd res = d
        else fst res = Ok () \<and> idx_edges (snd res) = insert (f, t) (idx_edges d))"

lemma add_dep_spec_idx:
  assumes inv: "dag_inv d" and ft: "f < length (nodes d)" "t < length (nodes d)"
    and g: "get_or_insert from d0 = (f, d1)" "get_or_insert to d1 = (t, d)"
    and names: "nodes d ! f = from" "nodes d ! t = to"
  shows "add_idx f t d (add_dep from to d0)"
proof -
  let ?E = "idx_edges d"
  note D = dag_invD [OF inv]
  let ?fwd = "region_loop (succ d) (Some f) (\<lambda>w. ord d ! w \<le> ord d ! f) (length (ord d)) ({t}, [t], [t])"
  let ?bwd = "region_loop (pred d) None (\<lambda>w. ord d ! t \<le> ord d ! w) (length (ord d)) ({f}, [f], [f])"
  have lt: "\<not> (t, f) \<in> ?E\<^sup>*" if "ord d ! f < ord d ! t" "f \<noteq> t"
    using that idx_path_ord [OF inv, of t f] by (auto dest!: rtranclD)
  consider (self) "f = t" | (dup) "f \<noteq> t" "(f, t) \<in> ?E" | (fwd) "f \<noteq> t" "(f, t) \<notin> ?E" "ord d ! f < ord d ! t"
    | (viol) "f \<noteq> t" "(f, t) \<notin> ?E" "ord d ! t \<le> ord d ! f" by fastforce
  then show ?thesis
  proof cases
    case self
    then have "add_dep from to d0 = (Err (CycleError from to), d)" using g by (simp add: add_dep_def)
    then show ?thesis using self inv names by (simp add: add_idx_def)
  next
    case dup
    then have "\<not> (t, f) \<in> ?E\<^sup>*" using lt D(9) by blast
    then show ?thesis using dup inv by (simp add: add_idx_def add_dep_def g edge_in_edges [OF inv ft] insert_absorb)
  next
    case fwd
    have "d\<lparr> ord := ord d \<rparr> = d" by simp
    then have "dag_inv (commit_edge f t d) \<and> nodes (commit_edge f t d) = nodes d \<and> idx_edges (commit_edge f t d) = insert (f, t) ?E"
      using commit_edge_inv [OF inv ft fwd(2), of "ord d"] fwd(3) D(7,9) by simp
    then show ?thesis
      using fwd lt ft D(3) by (simp add: add_idx_def add_dep_def g edge_in_edges [OF inv ft] Let_def)
  next
    case viol
    have succ_lt: "\<forall>x<length (nodes d). \<forall>w\<in>set (succ d ! x). w < length (nodes d)"
      using D(1,9) by (auto simp: idx_edges_def)
    have pred_lt: "\<forall>x<length (nodes d). \<forall>w\<in>set (pred d ! x). w < length (nodes d)"
      using D(9,10) by blast
    have fwd_some: "?fwd \<noteq> None"
      using region_loop_no_panic [OF region_inv_start, of t "length (ord d)" "succ d"] ft succ_lt D(1,3) by simp
    have bwd_some: "?bwd \<noteq> None"
      using region_loop_no_panic [OF region_inv_start, of f "length (ord d)" "pred d"] ft pred_lt D(2,3) by simp
    have bwd_stop: "?bwd \<noteq> Some None" by (rule region_loop_no_stop)
    note reg = forward_region [OF inv ft(2) viol(3)]
    show ?thesis
    proof (cases "(t, f) \<in> ?E\<^sup>*")
      case True
      have "?fwd = Some None"
      proof (rule ccontr)
        assume "?fwd \<noteq> Some None"
        then obtain D' where D': "?fwd = Some (Some D')" using fwd_some by auto
        have ok: "set D' = {y. (t, y) \<in> ?E\<^sup>* \<and> ord d ! y \<le> ord d ! f}" "\<forall>x\<in>set D'. f \<notin> set (succ d ! x)"
          using region_loop_ok [OF D' region_inv_start] reg by auto
        obtain p where p: "(t, p) \<in> ?E\<^sup>*" "(p, f) \<in> ?E" using True viol(1) by (metis rtranclE)
        then have "p \<in> set D'" using D(9) [OF p(2)] by (simp add: ok(1))
        then show False using ok(2) p(2) by (auto simp: idx_edges_def)
      qed
      then show ?thesis
        using True viol ft inv names D(3) by (simp add: add_idx_def add_dep_def g edge_in_edges [OF inv ft] Let_def)
    next
      case False
      have "?fwd \<noteq> Some None"
      proof
        assume stopped: "?fwd = Some None"
        obtain x where "(t, x) \<in> (region_step (succ d) (\<lambda>w. ord d ! w \<le> ord d ! f))\<^sup>*" "Some f \<in> Some ` set (succ d ! x)"
          using region_loop_stop [OF stopped region_inv_start] by blast
        then have x: "x \<in> (region_step (succ d) (\<lambda>w. ord d ! w \<le> ord d ! f))\<^sup>* `` {t}" "f \<in> set (succ d ! x)" by auto
        then have "(t, x) \<in> ?E\<^sup>*" unfolding reg by simp
        then have "x < length (nodes d)" using idx_path_less [OF inv] ft by blast
        then have "(x, f) \<in> ?E" using x(2) D(1) by (simp add: idx_edges_def)
        then show False using False \<open>(t, x) \<in> ?E\<^sup>*\<close> by (meson rtrancl_into_rtrancl)
      qed
      then obtain dp where dp: "?fwd = Some (Some dp)" using fwd_some by auto
      obtain dm where dm: "?bwd = Some (Some dm)" using bwd_some bwd_stop by auto
      have dp_ok: "distinct dp" "set dp = {y. (t, y) \<in> ?E\<^sup>* \<and> ord d ! y \<le> ord d ! f}"
        using region_loop_ok [OF dp region_inv_start] reg by auto
      have dm_ok: "distinct dm" "set dm = {y. (y, f) \<in> ?E\<^sup>* \<and> ord d ! t \<le> ord d ! y}"
        using region_loop_ok [OF dm region_inv_start] backward_region [OF inv ft(1) viol(3)] by auto
      note R = reorder_topological [OF inv ft viol(3) False dp_ok dm_ok]
      let ?d' = "commit_edge f t (d\<lparr> ord := reorder (ord d) dm dp \<rparr>)"
      have "dag_inv ?d' \<and> nodes ?d' = nodes d \<and> idx_edges ?d' = insert (f, t) ?E"
        by (rule commit_edge_inv [OF inv ft viol(2) R(1-4)]) (rule R(5))
      then show ?thesis
        using False viol ft D(3) dp dm by (simp add: add_idx_def add_dep_def g edge_in_edges [OF inv ft] Let_def)
    qed
  qed
qed

lemma add_dep_spec:
  fixes "from" "to" :: 'a
  assumes inv: "dag_inv d" and room: "length (nodes d) + 2 \<le> 2 ^ 32"
  defines "res \<equiv> add_dep from to d"
  shows "dag_inv (snd res) \<and> length (nodes (snd res)) \<le> length (nodes d) + 2
    \<and> (if (to, from) \<in> (dag_edges d)\<^sup>* then fst res = Err (CycleError from to) \<and> dag_edges (snd res) = dag_edges d
       else fst res = Ok () \<and> dag_edges (snd res) = insert (from, to) (dag_edges d))"
proof -
  obtain f d1 where g1: "get_or_insert from d = (f, d1)" by force
  obtain t d2 where g2: "get_or_insert to d1 = (t, d2)" by force
  have "length (nodes d) < 2 ^ 32" using room by simp
  from get_or_insert_inv [OF inv this g1] obtain e1 where
    1: "dag_inv d1" "f < length (nodes d1)" "nodes d1 ! f = from" "idx_edges d1 = idx_edges d"
      "nodes d1 = nodes d @ e1" "length e1 \<le> 1" by blast
  then have "length (nodes d1) < 2 ^ 32" using room by simp
  from get_or_insert_inv [OF 1(1) this g2] obtain e2 where
    2: "dag_inv d2" "t < length (nodes d2)" "nodes d2 ! t = to" "idx_edges d2 = idx_edges d1"
      "nodes d2 = nodes d1 @ e2" "length e2 \<le> 1" by blast
  have f: "f < length (nodes d2)" "nodes d2 ! f = from" using 1 2 by (auto simp: nth_append)
  have E: "dag_edges d2 = dag_edges d"
    using dag_edges_extend [OF inv, of d2 "e1 @ e2"] 1 2 by simp
  have res: "add_idx f t d2 res"
    unfolding res_def by (rule add_dep_spec_idx [OF 2(1) f(1) 2(2) g1 g2 f(2) 2(3)])
  have path: "(to, from) \<in> (dag_edges d)\<^sup>* \<longleftrightarrow> (t, f) \<in> (idx_edges d2)\<^sup>*"
    using dag_path_iff [OF 2(1) 2(2) f(1)] E 2(3) f(2) by simp
  have "dag_edges (snd res) = insert (from, to) (dag_edges d)" if "idx_edges (snd res) = insert (f, t) (idx_edges d2)"
    using that res E 2(3) f(2) by (simp add: add_idx_def dag_edges_def)
  moreover have "length (nodes d2) \<le> length (nodes d) + 2" using 1 2 by simp
  ultimately show ?thesis
    using res path E 2(1,3) f(2) unfolding add_idx_def by (cases "(t, f) \<in> (idx_edges d2)\<^sup>*") simp_all
qed

lemma dag_acyclic: "dag_inv d \<Longrightarrow> acyclic (dag_edges d)"
proof (rule acyclicI, intro allI notI)
  fix x assume inv: "dag_inv d" and "(x, x) \<in> (dag_edges d)\<^sup>+"
  then obtain y where y: "(x, y) \<in> dag_edges d" "(y, x) \<in> (dag_edges d)\<^sup>*" by (meson tranclD)
  then obtain i j where ij: "(i, j) \<in> idx_edges d" "x = nodes d ! i" "y = nodes d ! j" by (auto simp: dag_edges_def)
  have "(j, i) \<in> (idx_edges d)\<^sup>*" using y(2) ij dag_path_iff [OF inv] dag_invD(9) [OF inv ij(1)] by simp
  then have "(i, i) \<in> (idx_edges d)\<^sup>+" using ij(1) by (rule rtrancl_into_trancl2 [rotated])
  then show False using idx_path_ord [OF inv] by blast
qed

section \<open>A request\<close>

text \<open>A request starts from one root state and an empty graph; its tasks fork child states and
  record dependencies, in any order.\<close>

datatype 'a request_op = Fork nat 'a | ForkSkip nat rstr | ForkSpeculative nat | Track nat 'a

definition root_state :: "'a RequestState" where
  "root_state = \<lparr> rs_parent = None, rs_skip_providers = {}, rs_crumbs = [], rs_speculative = False, rs_tracked = {} \<rparr>"

fun request_step :: "'a request_op \<Rightarrow> 'a RequestState list \<times> 'a DepDag \<Rightarrow> 'a RequestState list \<times> 'a DepDag" where
  "request_step (Fork i a) (ss, d) = (if i < length ss then ss @ [with_parent a (ss ! i)] else ss, d)"
| "request_step (ForkSkip i p) (ss, d) = (if i < length ss then ss @ [with_skip_provider p (ss ! i)] else ss, d)"
| "request_step (ForkSpeculative i) (ss, d) = (if i < length ss then ss @ [speculative (ss ! i)] else ss, d)"
| "request_step (Track i a) (ss, d) =
     (if i < length ss then (case track_dep a (ss ! i) d of (_, rs, d') \<Rightarrow> (ss[i := rs], d')) else (ss, d))"

definition request_run :: "'a request_op list \<Rightarrow> 'a RequestState list \<times> 'a DepDag" where
  "request_run ops = fold request_step ops ([root_state], empty_dag)"

definition tracked_ok :: "'a DepDag \<Rightarrow> 'a RequestState \<Rightarrow> bool" where
  "tracked_ok d rs \<longleftrightarrow> (\<forall>p a. rs_parent rs = Some p \<longrightarrow> a \<in> rs_tracked rs \<longrightarrow> (p, a) \<in> dag_edges d)"

lemma edge_no_back_path: "dag_inv d \<Longrightarrow> (p, a) \<in> dag_edges d \<Longrightarrow> (a, p) \<notin> (dag_edges d)\<^sup>*"
  using dag_acyclic unfolding acyclic_def by (metis rtrancl_into_trancl2)

lemma track_dep_spec:
  assumes inv: "dag_inv d" and room: "length (nodes d) + 2 \<le> 2 ^ 32" and ok: "tracked_ok d rs"
    and run: "track_dep a rs d = (res, rs', d')"
  shows "dag_inv d' \<and> length (nodes d') \<le> length (nodes d) + 2 \<and> dag_edges d \<subseteq> dag_edges d' \<and> tracked_ok d' rs'
    \<and> (if rs_speculative rs then d' = d \<and> (is_ok res \<longleftrightarrow> a \<notin> set (rs_crumbs rs))
       else case rs_parent rs of
         None \<Rightarrow> d' = d \<and> is_ok res
       | Some p \<Rightarrow>
           if (a, p) \<in> (dag_edges d)\<^sup>* then res = Err (CycleError p a) \<and> dag_edges d' = dag_edges d
           else is_ok res \<and> dag_edges d' = insert (p, a) (dag_edges d))"
proof (cases "rs_speculative rs \<or> rs_parent rs = None")
  case True
  have "is_ok (crumb_walk a cs) \<longleftrightarrow> a \<notin> set cs" for cs by (induction cs) auto
  then show ?thesis using True run inv ok by (auto simp: track_dep_def split: option.splits if_splits)
next
  case False
  then obtain p where p: "rs_parent rs = Some p" and ns: "\<not> rs_speculative rs" by auto
  show ?thesis
  proof (cases "a \<in> rs_tracked rs")
    case True
    then have e: "(p, a) \<in> dag_edges d" using ok p by (auto simp: tracked_ok_def)
    then have "(a, p) \<notin> (dag_edges d)\<^sup>*" by (rule edge_no_back_path [OF inv])
    then show ?thesis using run inv ok ns p True e by (auto simp: track_dep_def insert_absorb)
  next
    case untracked: False
    obtain r d1 where add: "add_dep p a d = (r, d1)" by force
    have S: "dag_inv d1 \<and> length (nodes d1) \<le> length (nodes d) + 2
        \<and> (if (a, p) \<in> (dag_edges d)\<^sup>* then r = Err (CycleError p a) \<and> dag_edges d1 = dag_edges d
           else r = Ok () \<and> dag_edges d1 = insert (p, a) (dag_edges d))"
      using add_dep_spec [OF inv room, of p a, unfolded add fst_conv snd_conv] .
    show ?thesis
    proof (cases "(a, p) \<in> (dag_edges d)\<^sup>*")
      case True
      then show ?thesis using S run ns p untracked add ok by (auto simp: track_dep_def tracked_ok_def)
    next
      case False
      then show ?thesis using S run ns p untracked add ok by (auto simp: track_dep_def tracked_ok_def)
    qed
  qed
qed

lemma tracked_ok_mono: "tracked_ok d rs \<Longrightarrow> dag_edges d \<subseteq> dag_edges d' \<Longrightarrow> tracked_ok d' rs"
  by (auto simp: tracked_ok_def)

lemma tracked_ok_fork:
  "tracked_ok d (with_parent a rs)" "tracked_ok d (with_skip_provider q rs)" "tracked_ok d (speculative rs)" "tracked_ok d root_state"
  by (simp_all add: tracked_ok_def with_parent_def with_skip_provider_def speculative_def root_state_def)

definition request_inv :: "nat \<Rightarrow> 'a RequestState list \<times> 'a DepDag \<Rightarrow> bool" where
  "request_inv k st \<longleftrightarrow> dag_inv (snd st) \<and> length (nodes (snd st)) \<le> 2 * k \<and> list_all (tracked_ok (snd st)) (fst st)"

lemma request_step_inv:
  assumes "request_inv k st" and "2 * Suc k \<le> 2 ^ 32"
  shows "request_inv (Suc k) (request_step op st)"
proof (cases op)
  case (Track i a)
  obtain ss d where st: "st = (ss, d)" by force
  show ?thesis
  proof (cases "i < length ss")
    case True
    obtain res rs' d' where t: "track_dep a (ss ! i) d = (res, rs', d')" by (cases "track_dep a (ss ! i) d")
    have "tracked_ok d (ss ! i)" "dag_inv d" "length (nodes d) + 2 \<le> 2 ^ 32"
      using assms True by (auto simp: request_inv_def st list_all_length)
    from track_dep_spec [OF this(2,3,1) t]
    have S: "dag_inv d'" "length (nodes d') \<le> length (nodes d) + 2" "dag_edges d \<subseteq> dag_edges d'" "tracked_ok d' rs'" by blast+
    have "list_all (tracked_ok d') (ss[i := rs'])"
      using assms(1) S(3,4) set_update_subset_insert [of ss i rs']
      by (auto simp: request_inv_def st list_all_iff intro: tracked_ok_mono)
    then show ?thesis using S assms(1) True by (simp add: request_inv_def Track st t)
  next
    case False
    then show ?thesis using assms(1) by (simp add: request_inv_def Track st)
  qed
qed (use assms(1) in \<open>cases st; auto simp: request_inv_def tracked_ok_fork\<close>)+

lemma request_run_inv: "2 * length ops \<le> 2 ^ 32 \<Longrightarrow> request_inv (length ops) (request_run ops)"
proof (induction ops rule: rev_induct)
  case Nil
  then show ?case
    by (simp add: request_inv_def request_run_def empty_dag_inv tracked_ok_fork) (simp add: empty_dag_def)
next
  case (snoc op ops)
  then show ?case using request_step_inv [of "length ops" "request_run ops" op] by (simp add: request_run_def)
qed

section \<open>Properties\<close>

text \<open>C1: \<^verbatim>\<open>DepDag::add_dep\<close> detects cycles exactly: on a graph that satisfies its
  invariant, an edge is rejected if and only if its target already reaches its source, a rejected
  edge leaves the recorded edges unchanged, an accepted one is recorded, and the invariant
  (the order is a permutation of the node indices and a topological order of the edges, the
  successor lists, the predecessor lists and the packed edge index agree) holds again.  The
  searches terminate and no index is ever out of range.\<close>

theorem add_dep_cycle_exact:
  fixes "from" "to" :: 'a
  assumes "dag_inv d" and "length (nodes d) + 2 \<le> 2 ^ 32" and "add_dep from to d = (res, d')"
  shows "dag_inv d' \<and> res = (if (to, from) \<in> (dag_edges d)\<^sup>* then Err (CycleError from to) else Ok ())
    \<and> dag_edges d' = (if is_ok res then insert (from, to) (dag_edges d) else dag_edges d)"
  using add_dep_spec [OF assms(1,2), of "from" "to"] assms(3) by (auto split: if_splits)

lemmas first_edge_simps = add_dep_def get_or_insert_def empty_dag_def commit_edge_def Let_def

theorem add_dep_cycle_exact_witness:
  "\<exists>d :: nat DepDag. dag_inv d \<and> length (nodes d) + 2 \<le> 2 ^ 32 \<and> fst (add_dep 2 1 d) = Err (CycleError 2 1)
     \<and> fst (add_dep 2 3 d) = Ok ()"
proof -
  let ?d = "snd (add_dep 1 2 (empty_dag :: nat DepDag))"
  have e: "add_dep 1 2 (empty_dag :: nat DepDag) = (fst (add_dep 1 2 empty_dag), ?d)" by simp
  have r: "fst (add_dep 1 2 (empty_dag :: nat DepDag)) = Ok ()" by (simp add: first_edge_simps)
  have inv: "dag_inv ?d" and edges: "dag_edges ?d = insert (1, 2) (dag_edges (empty_dag :: nat DepDag))"
    using add_dep_cycle_exact [OF empty_dag_inv _ e] r by (simp_all add: empty_dag_def)
  have room: "length (nodes ?d) + 2 \<le> 2 ^ 32" by (simp add: first_edge_simps)
  have "dag_edges ?d = {(1, 2)}" using edges by (simp add: dag_edges_def idx_edges_def empty_dag_def)
  moreover have "(3, 2) \<notin> {(1, 2 :: nat)}\<^sup>*"
  proof
    assume "(3, 2) \<in> {(1, 2 :: nat)}\<^sup>*"
    then show False by (cases rule: converse_rtranclE) auto
  qed
  ultimately have "(1, 2) \<in> (dag_edges ?d)\<^sup>*" "(3, 2) \<notin> (dag_edges ?d)\<^sup>*"
    by (simp_all add: r_into_rtrancl)
  then show ?thesis
    using add_dep_cycle_exact [OF inv room prod.collapse [symmetric], of 2 1]
      add_dep_cycle_exact [OF inv room prod.collapse [symmetric], of 2 3] inv room
    by (intro exI [of _ ?d]) auto
qed

text \<open>C23: Whatever states a request's tasks fork and whatever dependencies they record, in any
  order, the shared graph stays acyclic and never forgets an edge, and the next dependency is
  decided as the graph says: a resolving task is refused exactly when its dependency already
  reaches its parent, the per-state memo of recorded dependencies never changes that decision,
  and a speculative state is refused exactly on an ancestor of its breadcrumb and leaves the
  graph untouched.\<close>

theorem request_tracking_sound:
  fixes ops :: "'a request_op list"
  assumes "2 * Suc (length ops) \<le> 2 ^ 32" and "request_run ops = (ss, d)" and "i < length ss"
    and "track_dep a (ss ! i) d = (res, rs', d')"
  shows "acyclic (dag_edges d') \<and> dag_edges d \<subseteq> dag_edges d'
    \<and> (if rs_speculative (ss ! i) then d' = d \<and> (is_ok res \<longleftrightarrow> a \<notin> set (rs_crumbs (ss ! i)))
       else case rs_parent (ss ! i) of
         None \<Rightarrow> d' = d \<and> is_ok res
       | Some p \<Rightarrow>
           if (a, p) \<in> (dag_edges d)\<^sup>* then res = Err (CycleError p a) \<and> dag_edges d' = dag_edges d
           else is_ok res \<and> dag_edges d' = insert (p, a) (dag_edges d))"
proof -
  have "request_inv (length ops) (ss, d)" using request_run_inv [of ops] assms(1,2) by simp
  then have "dag_inv d" "length (nodes d) + 2 \<le> 2 ^ 32" "tracked_ok d (ss ! i)"
    using assms(1,3) by (auto simp: request_inv_def list_all_length)
  note S = track_dep_spec [OF this assms(4)]
  then have "acyclic (dag_edges d')" by (blast intro: dag_acyclic)
  then show ?thesis using S by blast
qed

theorem request_tracking_sound_witness:
  "\<exists>ss d. request_run [Fork 0 (7::nat), Track 1 8, Fork 1 8] = (ss, d) \<and> 2 < length ss
     \<and> \<not> is_ok (fst (track_dep 7 (ss ! 2) d))"
proof -
  let ?ops = "[Fork 0 (7::nat), Track 1 8, Fork 1 8]"
  obtain ss d where run: "request_run ?ops = (ss, d)" by force
  note run_simps = request_run_def root_state_def with_parent_def track_dep_def first_edge_simps
  have len: "length (fst (request_run ?ops)) = 3" by (simp add: run_simps)
  have st: "rs_parent (fst (request_run ?ops) ! 2) = Some 8" "\<not> rs_speculative (fst (request_run ?ops) ! 2)"
    by (simp_all add: run_simps)
  have e: "(7, 8) \<in> dag_edges d"
  proof -
    obtain ss0 d0 where run0: "request_run [Fork 0 (7::nat)] = (ss0, d0)" by force
    have s0: "ss0 = fst (request_run [Fork 0 (7::nat)])" "d0 = snd (request_run [Fork 0 (7::nat)])" by (simp_all add: run0)
    have f0: "length ss0 = 2" "rs_parent (ss0 ! 1) = Some 7" "\<not> rs_speculative (ss0 ! 1)" unfolding s0 by (simp_all add: run_simps)
    obtain res rs' d' where t: "track_dep 8 (ss0 ! 1) d0 = (res, rs', d')" by (cases "track_dep 8 (ss0 ! 1) d0")
    have "is_ok (fst (track_dep 8 (ss0 ! 1) d0))" unfolding s0 by (simp add: run_simps)
    then have "is_ok res" by (simp only: t fst_conv)
    moreover have "d' = d" using run run0 t by (auto simp: request_run_def)
    ultimately show ?thesis
      using request_tracking_sound [OF _ run0 _ t] f0 by (auto split: if_splits)
  qed
  obtain res rs' d' where t: "track_dep 7 (ss ! 2) d = (res, rs', d')" by (cases "track_dep 7 (ss ! 2) d")
  have "\<not> is_ok res"
    using request_tracking_sound [OF _ run _ t] st [unfolded run fst_conv] len [unfolded run fst_conv] e
      r_into_rtrancl [OF e] by auto
  then show ?thesis using run len [unfolded run fst_conv] t by (intro exI [of _ ss] exI [of _ d]) (simp del: One_nat_def)
qed

end
