(* ===== verification/Dep_Path.thy ===== *)
theory Dep_Path
  imports Target "HOL-Library.Monad_Syntax"
begin

text \<open>
  The dependency path query (engine/deppath.rs): a breadth-first walk over the resolved inputs
  of targets that returns a shortest chain between two targets, and its two-directional form.

  Resolving a definition is an argument (\<open>get_def\<close>), the engine's \<^verbatim>\<open>get_def\<close> or
  \<^verbatim>\<open>get_direct_def\<close>.  The walk may not end on an infinite graph, so its loops are partial:
  \<open>None\<close> is a loop that does not return.  The lemmas show that it returns on every graph
  whose reachable part is finite, and that the chain is a shortest one.
\<close>

text \<open>\<^verbatim>\<open>filter(|dep| seen.insert(dep))\<close>: first occurrences, in order.\<close>

fun first_occurrences :: "'a set \<Rightarrow> 'a list \<Rightarrow> 'a list" where
  "first_occurrences seen [] = []"
| "first_occurrences seen (x # xs) =
     (if x \<in> seen then first_occurrences seen xs else x # first_occurrences (insert x seen) xs)"

definition deps_of :: "(AddrInner \<Rightarrow> 'e + TargetDef) \<Rightarrow> AddrInner \<Rightarrow> 'e + AddrInner list" where
  "deps_of get_def addr = (case get_def addr of
     Err e \<Rightarrow> Err e
   | Ok def \<Rightarrow> Ok (first_occurrences {} (map (\<lambda>input. ta_ref (i_ref input)) (td_inputs def))))"

partial_function (option) chain_loop :: "('a \<rightharpoonup> 'a) \<Rightarrow> 'a \<Rightarrow> 'a \<Rightarrow> 'a list \<Rightarrow> 'a list option" where
  "chain_loop parents from cur chain =
     (if cur = from then Some chain
      else case parents cur of
        None \<Rightarrow> Some chain
      | Some parent \<Rightarrow> chain_loop parents from parent (parent # chain))"

text \<open>The chain is collected backwards and reversed at the end; here it is consed in order.\<close>

definition chain_to :: "('a \<rightharpoonup> 'a) \<Rightarrow> 'a \<Rightarrow> 'a \<Rightarrow> 'a list option" where
  "chain_to parents from to = chain_loop parents from to [to]"

text \<open>The resolution of one level: every node of the frontier, in order, or the first error.\<close>

fun resolve_level :: "('a \<Rightarrow> 'e + 'a list) \<Rightarrow> 'a list \<Rightarrow> 'e + ('a \<times> 'a list) list" where
  "resolve_level succs [] = Ok []"
| "resolve_level succs (n # ns) = (case succs n of Err e \<Rightarrow> Err e
     | Ok deps \<Rightarrow> (case resolve_level succs ns of Err e \<Rightarrow> Err e | Ok lv \<Rightarrow> Ok ((n, deps) # lv)))"

text \<open>The nested loops over a level: the state is \<open>(seen, parents, next)\<close>, and \<open>Inl\<close> is the
  return with the parents at that moment.\<close>

fun scan_deps :: "'a \<Rightarrow> 'a \<Rightarrow> 'a list \<Rightarrow> 'a set \<times> ('a \<rightharpoonup> 'a) \<times> 'a list \<Rightarrow> ('a \<rightharpoonup> 'a) + 'a set \<times> ('a \<rightharpoonup> 'a) \<times> 'a list" where
  "scan_deps to node [] st = Inr st"
| "scan_deps to node (dep # deps) (seen, parents, next) =
     (if dep \<in> seen then scan_deps to node deps (seen, parents, next)
      else if dep = to then Inl (parents(dep \<mapsto> node))
      else scan_deps to node deps (insert dep seen, parents(dep \<mapsto> node), next @ [dep]))"

fun scan_level :: "'a \<Rightarrow> ('a \<times> 'a list) list \<Rightarrow> 'a set \<times> ('a \<rightharpoonup> 'a) \<times> 'a list \<Rightarrow> ('a \<rightharpoonup> 'a) + 'a set \<times> ('a \<rightharpoonup> 'a) \<times> 'a list" where
  "scan_level to [] st = Inr st"
| "scan_level to ((node, deps) # lv) st = (case scan_deps to node deps st of
     Inl p \<Rightarrow> Inl p | Inr st' \<Rightarrow> scan_level to lv st')"

partial_function (option) bfs_loop ::
  "('a \<Rightarrow> 'e + 'a list) \<Rightarrow> 'a \<Rightarrow> 'a \<Rightarrow> ('a \<rightharpoonup> 'a) \<Rightarrow> 'a set \<Rightarrow> 'a list \<Rightarrow> ('e + 'a list option) option" where
  "bfs_loop succs from to parents seen frontier =
     (if frontier = [] then Some (Ok None)
      else case resolve_level succs frontier of
        Inl e \<Rightarrow> Some (Err e)
      | Inr level \<Rightarrow> (case scan_level to level (seen, parents, []) of
          Inl p \<Rightarrow> (case chain_to p from to of None \<Rightarrow> None | Some chain \<Rightarrow> Some (Ok (Some chain)))
        | Inr st \<Rightarrow> bfs_loop succs from to (fst (snd st)) (fst st) (snd (snd st))))"

definition dep_path :: "('a \<Rightarrow> 'e + 'a list) \<Rightarrow> 'a \<Rightarrow> 'a \<Rightarrow> ('e + 'a list option) option" where
  "dep_path succs from to =
     (if from = to then Some (Ok (Some [from])) else bfs_loop succs from to Map.empty {from} [from])"

text \<open>The race of the two directions; \<open>fwd_first\<close> says which walk finished first.\<close>

definition dep_path_between :: "('a \<Rightarrow> 'e + 'a list) \<Rightarrow> bool \<Rightarrow> 'a \<Rightarrow> 'a \<Rightarrow> ('e + 'a list option) option" where
  "dep_path_between succs fwd_first a b =
     do { first \<leftarrow> (if fwd_first then dep_path succs a b else dep_path succs b a);
          case first of
            Ok (Some chain) \<Rightarrow> Some (Ok (Some chain))
          | _ \<Rightarrow> do { second \<leftarrow> (if fwd_first then dep_path succs b a else dep_path succs a b);
              Some (case (first, second) of
                  (Ok (Some chain), _) \<Rightarrow> Ok (Some chain)
                | (_, Ok (Some chain)) \<Rightarrow> Ok (Some chain)
                | (Err e, _) \<Rightarrow> Err e
                | (_, Err e) \<Rightarrow> Err e
                | _ \<Rightarrow> Ok None) } }"

section \<open>The graph and its levels\<close>

definition dep_graph :: "('a \<Rightarrow> 'e + 'a list) \<Rightarrow> ('a \<times> 'a) set" where
  "dep_graph succs = {(x, y). \<exists>deps. succs x = Ok deps \<and> y \<in> set deps}"

text \<open>\<open>at_level g r k x\<close>: the shortest path from \<open>r\<close> to \<open>x\<close> has \<open>k\<close> hops.\<close>

definition at_level :: "('a \<times> 'a) set \<Rightarrow> 'a \<Rightarrow> nat \<Rightarrow> 'a \<Rightarrow> bool" where
  "at_level g r k x \<longleftrightarrow> (r, x) \<in> g ^^ k \<and> (\<forall>j<k. (r, x) \<notin> g ^^ j)"

lemma at_level_exists: "(r, x) \<in> g\<^sup>* \<Longrightarrow> \<exists>k. at_level g r k x"
proof -
  assume "(r, x) \<in> g\<^sup>*"
  then have "\<exists>k. (r, x) \<in> g ^^ k" by (simp add: rtrancl_power)
  then have "(r, x) \<in> g ^^ (LEAST k. (r, x) \<in> g ^^ k)" by (rule LeastI_ex)
  moreover have "\<forall>j<(LEAST k. (r, x) \<in> g ^^ k). (r, x) \<notin> g ^^ j" using not_less_Least by blast
  ultimately show ?thesis unfolding at_level_def by blast
qed

lemma at_level_unique: "at_level g r k x \<Longrightarrow> at_level g r l x \<Longrightarrow> k = l"
  unfolding at_level_def by (metis linorder_neqE_nat)

lemma at_level_0: "at_level g r 0 x \<longleftrightarrow> x = r"
  by (auto simp: at_level_def)

lemma at_level_Suc_edge: "at_level g r (Suc k) x \<Longrightarrow> \<exists>y. at_level g r k y \<and> (y, x) \<in> g"
proof -
  assume a: "at_level g r (Suc k) x"
  then obtain y where y: "(r, y) \<in> g ^^ k" "(y, x) \<in> g" by (auto simp: at_level_def)
  have "(r, y) \<notin> g ^^ j" if "j < k" for j
  proof
    assume "(r, y) \<in> g ^^ j"
    then have "(r, x) \<in> g ^^ Suc j" using y(2) by auto
    then show False using a that by (auto simp: at_level_def simp del: relpow.simps)
  qed
  then show ?thesis using y unfolding at_level_def by blast
qed

lemma at_level_edge: "at_level g r k y \<Longrightarrow> (y, x) \<in> g \<Longrightarrow> \<exists>l\<le>Suc k. at_level g r l x"
proof -
  assume y: "at_level g r k y" "(y, x) \<in> g"
  then have r: "(r, x) \<in> g ^^ Suc k" by (auto simp: at_level_def)
  then obtain l where l: "at_level g r l x" using at_level_exists relpow_imp_rtrancl by metis
  have "l \<le> Suc k"
  proof (rule ccontr)
    assume "\<not> l \<le> Suc k"
    then show False using l r by (auto simp: at_level_def simp del: relpow.simps)
  qed
  then show ?thesis using l by blast
qed

section \<open>One level\<close>

text \<open>What holds of the loop's state before level \<open>k\<close>: everything nearer has been seen, the
  frontier is the level, and each seen node but the root has a parent one level nearer.\<close>

definition bfs_inv :: "('a \<times> 'a) set \<Rightarrow> 'a \<Rightarrow> 'a \<Rightarrow> nat \<Rightarrow> ('a \<rightharpoonup> 'a) \<Rightarrow> 'a set \<Rightarrow> 'a list \<Rightarrow> bool" where
  "bfs_inv g r to k parents seen frontier \<longleftrightarrow>
     seen = {x. \<exists>j\<le>k. at_level g r j x} \<and> set frontier = {x. at_level g r k x} \<and> to \<notin> seen
   \<and> (\<forall>x y. parents x = Some y \<longrightarrow> (y, x) \<in> g \<and> (\<exists>j. at_level g r j y \<and> at_level g r (Suc j) x))
   \<and> dom parents = seen - {r}"

text \<open>During level \<open>k\<close>, with the pairs of the level still to come.\<close>

definition scan_inv :: "('a \<times> 'a) set \<Rightarrow> 'a \<Rightarrow> 'a \<Rightarrow> nat \<Rightarrow> 'a set \<times> ('a \<rightharpoonup> 'a) \<times> 'a list \<Rightarrow> bool" where
  "scan_inv g r to k st = (case st of (seen, parents, next) \<Rightarrow>
     {x. \<exists>j\<le>k. at_level g r j x} \<subseteq> seen \<and> seen = {x. \<exists>j\<le>k. at_level g r j x} \<union> set next
   \<and> (\<forall>x\<in>set next. at_level g r (Suc k) x) \<and> to \<notin> seen
   \<and> (\<forall>x y. parents x = Some y \<longrightarrow> (y, x) \<in> g \<and> (\<exists>j. at_level g r j y \<and> at_level g r (Suc j) x))
   \<and> dom parents = seen - {r})"

definition parents_ok :: "('a \<times> 'a) set \<Rightarrow> 'a \<Rightarrow> ('a \<rightharpoonup> 'a) \<Rightarrow> bool" where
  "parents_ok g r p \<longleftrightarrow> (\<forall>x y. p x = Some y \<longrightarrow> (y, x) \<in> g
     \<and> (\<exists>j. at_level g r j y \<and> at_level g r (Suc j) x) \<and> (y = r \<or> y \<in> dom p))"

lemma scan_parents_ok:
  assumes inv: "scan_inv g r to k (seen, parents, next)" and node: "at_level g r k node" and e: "(node, dep) \<in> g"
    and lv: "at_level g r (Suc k) dep"
  shows "parents_ok g r (parents(dep \<mapsto> node))"
  unfolding parents_ok_def
proof (intro allI impI)
  have I: "seen = {x. \<exists>j\<le>k. at_level g r j x} \<union> set next" "\<forall>x\<in>set next. at_level g r (Suc k) x"
      "\<forall>x y. parents x = Some y \<longrightarrow> (y, x) \<in> g \<and> (\<exists>j. at_level g r j y \<and> at_level g r (Suc j) x)"
      "dom parents = seen - {r}"
    using inv unfolding scan_inv_def prod.case by blast+
  fix x y assume xy: "(parents(dep \<mapsto> node)) x = Some y"
  show "(y, x) \<in> g \<and> (\<exists>j. at_level g r j y \<and> at_level g r (Suc j) x) \<and> (y = r \<or> y \<in> dom (parents(dep \<mapsto> node)))"
  proof (cases "x = dep")
    case True
    then have "y = node" using xy by simp
    moreover have "node \<in> seen" using inv node by (auto simp: scan_inv_def)
    ultimately show ?thesis using True e node lv inv by (auto simp: scan_inv_def)
  next
    case False
    then have p: "parents x = Some y" using xy by simp
    then obtain j where j: "(y, x) \<in> g" "at_level g r j y" "at_level g r (Suc j) x"
      using I(3) by blast
    have "x \<in> seen" using I(4) p by blast
    then have "(\<exists>i\<le>k. at_level g r i x) \<or> at_level g r (Suc k) x" using I(1,2) by blast
    then have "Suc j \<le> Suc k" using j(3) at_level_unique by fastforce
    then have "y \<in> seen" using I(1) j(2) by auto
    then show ?thesis using j I(4) by auto
  qed
qed

lemma scan_deps_inv:
  "\<lbrakk>scan_inv g r to k st; at_level g r k node; \<forall>d\<in>set deps. (node, d) \<in> g; r \<noteq> to\<rbrakk> \<Longrightarrow>
   (case scan_deps to node deps st of
      Inl p \<Rightarrow> at_level g r (Suc k) to \<and> to \<in> dom p \<and> parents_ok g r p
    | Inr st' \<Rightarrow> scan_inv g r to k st' \<and> fst st \<union> set deps = fst st')"
proof (induction to node deps st rule: scan_deps.induct)
  case (2 to node dep deps seen parents "next")
  show ?case
  proof (cases "dep \<in> seen")
    case True
    then have "insert dep (seen \<union> set deps) = seen \<union> set deps" by auto
    then show ?thesis using 2 True by (auto split: sum.splits)
  next
    case False
    obtain l where l: "l \<le> Suc k" "at_level g r l dep" using at_level_edge [OF "2.prems"(2), of dep] "2.prems"(3) by auto
    have "\<not> l \<le> k" using False "2.prems"(1) l by (auto simp: scan_inv_def)
    then have lv: "at_level g r (Suc k) dep" using l by (metis le_SucE)
    have dr: "dep \<noteq> r" using lv by (metis at_level_0 at_level_unique nat.distinct(1))
    have par: "\<forall>x y. (parents(dep \<mapsto> node)) x = Some y \<longrightarrow> (y, x) \<in> g \<and> (\<exists>j. at_level g r j y \<and> at_level g r (Suc j) x)"
      using "2.prems" lv by (auto simp: scan_inv_def)
    show ?thesis
    proof (cases "dep = to")
      case True
      then show ?thesis
        using False lv scan_parents_ok [OF "2.prems"(1,2), of dep] "2.prems"(3) by auto
    next
      case ne: False
      have "scan_inv g r to k (insert dep seen, parents(dep \<mapsto> node), next @ [dep])"
        using "2.prems"(1) ne lv par dr unfolding scan_inv_def prod.case by (intro conjI) (auto simp: dom_def)
      then show ?thesis using "2.IH"(2) [OF False ne] "2.prems" False ne by (auto split: sum.splits)
    qed
  qed
qed simp

lemma scan_level_inv:
  "\<lbrakk>scan_inv g r to k st; \<forall>(n, deps)\<in>set lv. at_level g r k n \<and> (\<forall>d\<in>set deps. (n, d) \<in> g); r \<noteq> to\<rbrakk> \<Longrightarrow>
   (case scan_level to lv st of
      Inl p \<Rightarrow> at_level g r (Suc k) to \<and> to \<in> dom p \<and> parents_ok g r p
    | Inr st' \<Rightarrow> scan_inv g r to k st' \<and> fst st' = fst st \<union> (\<Union>(n, deps)\<in>set lv. set deps))"
proof (induction to lv st rule: scan_level.induct)
  case (2 to node deps lv st)
  have d: "at_level g r k node" "\<forall>d\<in>set deps. (node, d) \<in> g" using "2.prems"(2) by auto
  show ?case
  proof (cases "scan_deps to node deps st")
    case (Inl p)
    then show ?thesis using scan_deps_inv [OF "2.prems"(1) d "2.prems"(3)] by simp
  next
    case (Inr st1)
    then have 1: "scan_inv g r to k st1" "fst st1 = fst st \<union> set deps"
      using scan_deps_inv [OF "2.prems"(1) d "2.prems"(3)] by simp_all
    show ?thesis using "2.IH" [OF Inr 1(1)] "2.prems"(2,3) 1(2) Inr by (auto split: sum.splits)
  qed
qed simp

section \<open>The chain\<close>

definition is_chain :: "('a \<times> 'a) set \<Rightarrow> 'a list \<Rightarrow> 'a \<Rightarrow> 'a \<Rightarrow> bool" where
  "is_chain g xs a b \<longleftrightarrow> xs \<noteq> [] \<and> hd xs = a \<and> last xs = b \<and> successively (\<lambda>x y. (x, y) \<in> g) xs"

lemma is_chain_snoc: "is_chain g xs a y \<Longrightarrow> (y, z) \<in> g \<Longrightarrow> is_chain g (xs @ [z]) a z"
  by (auto simp: is_chain_def successively_append_iff)

lemma is_chain_relpow: "is_chain g xs a b \<Longrightarrow> (a, b) \<in> g ^^ (length xs - 1)"
proof (induction xs arbitrary: a)
  case (Cons x xs)
  show ?case
  proof (cases xs)
    case Nil
    then show ?thesis using Cons.prems by (auto simp: is_chain_def)
  next
    case (Cons y ys)
    then have "(x, y) \<in> g" "is_chain g xs y b" "a = x" using Cons.prems by (auto simp: is_chain_def)
    then show ?thesis using Cons.IH [of y] Cons by (auto simp: relpow_commute [symmetric])
  qed
qed (simp add: is_chain_def)

lemma chain_loop_spec:
  assumes ok: "parents_ok g r p"
  shows "at_level g r n x \<Longrightarrow> x = r \<or> x \<in> dom p \<Longrightarrow>
    \<exists>path. chain_loop p r x (x # rest) = Some (path @ rest) \<and> is_chain g path r x \<and> length path = Suc n"
proof (induction n arbitrary: x rest)
  case 0
  then show ?case
    by (subst chain_loop.simps) (auto simp: at_level_0 is_chain_def intro: exI [of _ "[r]"])
next
  case (Suc n)
  have "x \<noteq> r" using Suc.prems(1) by (metis at_level_0 at_level_unique nat.distinct(1))
  then obtain y where y: "p x = Some y" using Suc.prems(2) by auto
  then obtain j where j: "(y, x) \<in> g" "at_level g r j y" "at_level g r (Suc j) x" "y = r \<or> y \<in> dom p"
    using ok by (auto simp: parents_ok_def)
  then have "j = n" using Suc.prems(1) by (blast dest: at_level_unique)
  then obtain path where path: "chain_loop p r y (y # x # rest) = Some (path @ x # rest)" "is_chain g path r y" "length path = Suc n"
    using Suc.IH [of y "x # rest"] j by blast
  have "chain_loop p r x (x # rest) = Some ((path @ [x]) @ rest)"
    using \<open>x \<noteq> r\<close> y path(1) by (subst chain_loop.simps) simp
  then show ?case using path is_chain_snoc [OF path(2) j(1)] by (intro exI [of _ "path @ [x]"]) simp
qed

section \<open>The walk\<close>

lemma resolve_level_ok:
  "\<forall>n\<in>set ns. is_ok (succs n) \<Longrightarrow> \<exists>lv. resolve_level succs ns = Ok lv \<and> map fst lv = ns \<and> (\<forall>(n, deps)\<in>set lv. succs n = Ok deps)"
proof (induction ns)
  case (Cons n ns)
  then obtain lv where lv: "resolve_level succs ns = Ok lv" "map fst lv = ns" "\<forall>(n, deps)\<in>set lv. succs n = Ok deps" by auto
  obtain deps where "succs n = Ok deps" using Cons.prems by (cases "succs n") auto
  then show ?case using lv by simp
qed simp

lemma bfs_level:
  assumes inv: "bfs_inv g r to k parents seen frontier" and ne: "r \<noteq> to" and g: "g = dep_graph succs"
    and res: "\<And>x. (r, x) \<in> g\<^sup>* \<Longrightarrow> is_ok (succs x)"
  shows "\<exists>lv. resolve_level succs frontier = Ok lv \<and>
    (case scan_level to lv (seen, parents, []) of
       Inl p \<Rightarrow> at_level g r (Suc k) to \<and> to \<in> dom p \<and> parents_ok g r p
     | Inr (seen', parents', next) \<Rightarrow> bfs_inv g r to (Suc k) parents' seen' next)"
proof -
  have fr: "set frontier = {x. at_level g r k x}" using inv by (simp add: bfs_inv_def)
  have reach: "at_level g r k x \<Longrightarrow> (r, x) \<in> g\<^sup>*" for k x by (auto simp: at_level_def intro: relpow_imp_rtrancl)
  obtain lv where lv: "resolve_level succs frontier = Ok lv" "map fst lv = frontier" "\<forall>(n, deps)\<in>set lv. succs n = Ok deps"
    using resolve_level_ok [of frontier succs] res reach fr by blast
  have "n \<in> set frontier" if "(n, deps) \<in> set lv" for n deps
    using that lv(2) by (metis fst_conv image_eqI list.set_map)
  then have pairs: "\<forall>(n, deps)\<in>set lv. at_level g r k n \<and> (\<forall>d\<in>set deps. (n, d) \<in> g)"
    using lv(3) fr g by (auto simp: dep_graph_def)
  have start: "scan_inv g r to k (seen, parents, [])" using inv by (auto simp: bfs_inv_def scan_inv_def)
  note S = scan_level_inv [OF start pairs ne]
  have "bfs_inv g r to (Suc k) p' s' n'" if sl: "scan_level to lv (seen, parents, []) = Inr (s', p', n')" for s' p' n'
  proof -
    have si: "scan_inv g r to k (s', p', n')" and s': "s' = seen \<union> (\<Union>(n, deps)\<in>set lv. set deps)"
      using S [unfolded sl sum.case fst_conv] by blast+
    have "x \<in> set n'" if x: "at_level g r (Suc k) x" for x
    proof -
      obtain y where y: "at_level g r k y" "(y, x) \<in> g" using at_level_Suc_edge [OF x] by blast
      then have "y \<in> fst ` set lv" using fr lv(2) by (metis list.set_map mem_Collect_eq)
      then obtain deps where "(y, deps) \<in> set lv" by auto
      then have "x \<in> s'" using lv(3) y(2) g s' by (fastforce simp: dep_graph_def)
      moreover have "\<not> (\<exists>j\<le>k. at_level g r j x)" using x by (metis Suc_n_not_le_n at_level_unique)
      ultimately show ?thesis using si by (auto simp: scan_inv_def)
    qed
    then show ?thesis using si by (auto simp: scan_inv_def bfs_inv_def le_Suc_eq)
  qed
  then show ?thesis using S lv(1) by (auto split: sum.splits)
qed

text \<open>The answer of the walk: no chain exists, or a shortest one.\<close>

definition path_answer :: "('a \<times> 'a) set \<Rightarrow> 'a \<Rightarrow> 'a \<Rightarrow> 'a list option \<Rightarrow> bool" where
  "path_answer g a b res = (case res of
     None \<Rightarrow> (a, b) \<notin> g\<^sup>*
   | Some chain \<Rightarrow> is_chain g chain a b \<and> (\<forall>xs. is_chain g xs a b \<longrightarrow> length chain \<le> length xs))"

lemma shortest_chain:
  assumes "at_level g r n x" "is_chain g path r x" "length path = Suc n"
  shows "path_answer g r x (Some path)"
proof -
  have "Suc n \<le> length xs" if xs: "is_chain g xs r x" for xs
  proof -
    have "(r, x) \<in> g ^^ (length xs - 1)" using xs by (rule is_chain_relpow)
    then have "n \<le> length xs - 1" using assms(1) by (meson at_level_def not_le_imp_less)
    moreover have "xs \<noteq> []" using xs by (simp add: is_chain_def)
    ultimately show ?thesis by (cases xs) auto
  qed
  then show ?thesis using assms(2,3) by (simp add: path_answer_def)
qed

lemma bfs_loop_spec:
  assumes g: "g = dep_graph succs" and fin: "finite {x. (r, x) \<in> g\<^sup>*}"
    and res: "\<And>x. (r, x) \<in> g\<^sup>* \<Longrightarrow> is_ok (succs x)" and ne: "r \<noteq> to"
  shows "bfs_inv g r to k parents seen frontier \<Longrightarrow>
    \<exists>ans. bfs_loop succs r to parents seen frontier = Some (Ok ans) \<and> path_answer g r to ans"
proof (induction "card ({x. (r, x) \<in> g\<^sup>*} - seen) + (if frontier = [] then 0 else 1)"
    arbitrary: k parents seen frontier rule: less_induct)
  case less
  let ?R = "{x. (r, x) \<in> g\<^sup>*}"
  have seen: "seen = {x. \<exists>j\<le>k. at_level g r j x}" "to \<notin> seen" and fr: "set frontier = {x. at_level g r k x}"
    using less.prems unfolding bfs_inv_def by blast+
  have reach: "at_level g r l x \<Longrightarrow> x \<in> ?R" for l x by (auto simp: at_level_def intro: relpow_imp_rtrancl)
  show ?case
  proof (cases "frontier = []")
    case True
    have "\<not> at_level g r (k + i) x" for i x
    proof (induction i arbitrary: x)
      case 0
      then show ?case using fr True by auto
    next
      case (Suc i)
      then show ?case using at_level_Suc_edge [of g r "k + i"] by auto
    qed
    then have "\<not> at_level g r l to" for l using seen by (metis le_add_diff_inverse mem_Collect_eq nat_le_linear)
    then have "path_answer g r to None" using at_level_exists by (fastforce simp: path_answer_def)
    then show ?thesis using True by (subst bfs_loop.simps) simp
  next
    case False
    obtain lv where lv: "resolve_level succs frontier = Ok lv" and sc: "case scan_level to lv (seen, parents, []) of
       Inl p \<Rightarrow> at_level g r (Suc k) to \<and> to \<in> dom p \<and> parents_ok g r p
     | Inr (seen', parents', next) \<Rightarrow> bfs_inv g r to (Suc k) parents' seen' next"
      using bfs_level [OF less.prems ne g res] by blast
    show ?thesis
    proof (cases "scan_level to lv (seen, parents, [])")
      case (Inl p)
      then have p: "at_level g r (Suc k) to" "to \<in> dom p" "parents_ok g r p" using sc by auto
      obtain path where path: "chain_loop p r to [to] = Some path" "is_chain g path r to" "length path = Suc (Suc k)"
        using chain_loop_spec [OF p(3,1), of "[]"] p(2) by auto
      have "bfs_loop succs r to parents seen frontier = Some (Ok (Some path))"
        using False lv Inl path(1) by (subst bfs_loop.simps) (simp add: chain_to_def)
      then show ?thesis using shortest_chain [OF p(1) path(2,3)] by blast
    next
      case (Inr st)
      obtain s' p' n' where st: "st = (s', p', n')" by (cases st)
      have inv': "bfs_inv g r to (Suc k) p' s' n'" using sc Inr st by simp
      have s': "s' = {x. \<exists>j\<le>Suc k. at_level g r j x}" "set n' = {x. at_level g r (Suc k) x}"
        using inv' unfolding bfs_inv_def by blast+
      have sub: "?R - s' \<subseteq> ?R - seen" using s' seen by auto
      have "card (?R - s') + (if n' = [] then 0 else 1) < card (?R - seen) + 1"
      proof (cases "n' = []")
        case True
        then show ?thesis using card_mono [OF _ sub] fin by simp
      next
        case ne': False
        then obtain x where "x \<in> set n'" by (cases n') auto
        then have x: "at_level g r (Suc k) x" using s' by simp
        have "j \<noteq> Suc k \<Longrightarrow> \<not> at_level g r j x" for j using at_level_unique [OF x] by blast
        then have "x \<in> ?R - seen" using reach [OF x] seen(1) by fastforce
        moreover have "x \<notin> ?R - s'" using x s' by auto
        ultimately have "?R - s' \<subset> ?R - seen" using sub by blast
        then have "card (?R - s') < card (?R - seen)" using fin by (simp add: psubset_card_mono)
        then show ?thesis using ne' by simp
      qed
      then have "\<exists>ans. bfs_loop succs r to p' s' n' = Some (Ok ans) \<and> path_answer g r to ans"
        using less.hyps [OF _ inv'] False by simp
      then show ?thesis using False lv Inr st by (subst bfs_loop.simps) simp
    qed
  qed
qed

lemma dep_path_spec:
  assumes g: "g = dep_graph succs" and fin: "finite {x. (a, x) \<in> g\<^sup>*}"
    and res: "\<And>x. (a, x) \<in> g\<^sup>* \<Longrightarrow> is_ok (succs x)"
  shows "\<exists>ans. dep_path succs a b = Some (Ok ans) \<and> path_answer g a b ans"
proof (cases "a = b")
  case True
  have "path_answer g b b (Some [b])"
    by (rule shortest_chain [of _ _ 0]) (auto simp: at_level_0 is_chain_def)
  then show ?thesis using True by (simp add: dep_path_def)
next
  case False
  have "bfs_inv g a b 0 Map.empty {a} [a]" using False by (auto simp: bfs_inv_def at_level_0)
  then show ?thesis using bfs_loop_spec [OF g fin res False] False by (simp add: dep_path_def)
qed

section \<open>Properties\<close>

text \<open>C16: \<^verbatim>\<open>dep_path\<close> returns on every dependency graph whose part reachable from the
  start is finite and resolves, and its answer is right: a chain whose every hop is a dependency
  edge and than which no chain between the two targets is shorter, or nothing exactly when the
  end is not reachable.\<close>

theorem dep_path_shortest:
  assumes "finite {x. (a, x) \<in> (dep_graph (deps_of get_def))\<^sup>*}"
    and "\<And>x. (a, x) \<in> (dep_graph (deps_of get_def))\<^sup>* \<Longrightarrow> is_ok (get_def x)"
  shows "\<exists>ans. dep_path (deps_of get_def) a b = Some (Ok ans) \<and> (case ans of
      None \<Rightarrow> (a, b) \<notin> (dep_graph (deps_of get_def))\<^sup>*
    | Some chain \<Rightarrow> is_chain (dep_graph (deps_of get_def)) chain a b
        \<and> (\<forall>xs. is_chain (dep_graph (deps_of get_def)) xs a b \<longrightarrow> length chain \<le> length xs))"
proof -
  have "is_ok (deps_of get_def x)" if "is_ok (get_def x)" for x
    using that by (cases "get_def x") (simp_all add: deps_of_def)
  then show ?thesis using dep_path_spec [OF refl assms(1), of b] assms(2) unfolding path_answer_def by blast
qed

text \<open>Two targets for the witnesses: \<open>//p:a\<close> depends on \<open>//p:b\<close>, through two outputs.\<close>

definition demo_addr :: "rstr \<Rightarrow> AddrInner" where
  "demo_addr name = \<lparr> addr_package = u ''p'', addr_name = name, addr_args = [] \<rparr>"

definition demo_input :: "rstr \<Rightarrow> Input" where
  "demo_input out = \<lparr> i_ref = \<lparr> ta_ref = demo_addr (u ''b''), ta_output = Some out, ta_filters = [] \<rparr>,
     i_mode = Standard, i_origin_id = [], i_annotations = [], i_hashed = True, i_runtime = True \<rparr>"

definition demo_get_def :: "AddrInner \<Rightarrow> unit + TargetDef" where
  "demo_get_def addr = Ok \<lparr> td_addr = addr, td_labels = [],
     td_inputs = (if addr = demo_addr (u ''a'') then [demo_input (u ''x''), demo_input (u ''y'')] else []),
     td_outputs = [], td_support_files = [], td_entrypoint = None, td_transparent = False \<rparr>"

lemma demo_graph: "dep_graph (deps_of demo_get_def) = {(demo_addr (u ''a''), demo_addr (u ''b''))}"
  by (auto simp: dep_graph_def deps_of_def demo_get_def_def demo_input_def split: if_splits)

lemma demo_finite: "finite {x. (c, x) \<in> (dep_graph (deps_of demo_get_def))\<^sup>*}"
proof (rule finite_subset)
  show "{x. (c, x) \<in> (dep_graph (deps_of demo_get_def))\<^sup>*} \<subseteq> {c, demo_addr (u ''b'')}"
    unfolding demo_graph by (auto elim: rtranclE)
qed simp

theorem dep_path_shortest_witness:
  "\<exists>chain. dep_path (deps_of demo_get_def) (demo_addr (u ''a'')) (demo_addr (u ''b'')) = Some (Ok (Some chain))
     \<and> is_chain (dep_graph (deps_of demo_get_def)) chain (demo_addr (u ''a'')) (demo_addr (u ''b''))"
  using dep_path_shortest [OF demo_finite [of "demo_addr (u ''a'')"], of "demo_addr (u ''b'')"]
  by (auto simp: demo_graph demo_get_def_def split: option.splits)

text \<open>When at most one direction has a chain, the race does not matter.\<close>

lemma dep_path_between_either:
  assumes "dep_path succs a b = Some (Ok f)" "dep_path succs b a = Some (Ok r)" "f = None \<or> r = None"
  shows "\<exists>ans. (ans = f \<or> ans = r) \<and> (ans = None \<longrightarrow> f = None \<and> r = None)
    \<and> dep_path_between succs fwd_first a b = Some (Ok ans) \<and> dep_path_between succs (\<not> fwd_first) a b = Some (Ok ans)"
  using assms by (cases f; cases r; cases fwd_first) (auto simp: dep_path_between_def)

text \<open>C37: The two-directional query on an acyclic dependency graph of which what the two targets reach is
  finite and resolves: it returns, and its answer does not depend on which walk finishes first.  The answer is
  a chain in the one direction that links the two targets, read from the dependent to the dependency, than
  which no chain in that direction is shorter, while the other direction does not link them unless they are
  one target; it is nothing exactly when neither depends on the other.\<close>

theorem dep_path_between_race_free:
  assumes "acyclic (dep_graph (deps_of get_def))"
    and "\<And>c. c \<in> {a, b} \<Longrightarrow> finite {x. (c, x) \<in> (dep_graph (deps_of get_def))\<^sup>*}"
    and "\<And>c x. c \<in> {a, b} \<Longrightarrow> (c, x) \<in> (dep_graph (deps_of get_def))\<^sup>* \<Longrightarrow> is_ok (get_def x)"
  shows "\<exists>ans. dep_path_between (deps_of get_def) fwd_first a b = Some (Ok ans)
    \<and> dep_path_between (deps_of get_def) (\<not> fwd_first) a b = Some (Ok ans)
    \<and> (case ans of
        None \<Rightarrow> (a, b) \<notin> (dep_graph (deps_of get_def))\<^sup>* \<and> (b, a) \<notin> (dep_graph (deps_of get_def))\<^sup>*
      | Some chain \<Rightarrow> (\<exists>c d. {c, d} = {a, b} \<and> is_chain (dep_graph (deps_of get_def)) chain c d
          \<and> (\<forall>xs. is_chain (dep_graph (deps_of get_def)) xs c d \<longrightarrow> length chain \<le> length xs)
          \<and> (c \<noteq> d \<longrightarrow> (d, c) \<notin> (dep_graph (deps_of get_def))\<^sup>*)))"
proof -
  let ?g = "dep_graph (deps_of get_def)"
  have "is_ok (deps_of get_def x)" if "is_ok (get_def x)" for x
    using that by (cases "get_def x") (simp_all add: deps_of_def)
  then have spec: "\<exists>ans. dep_path (deps_of get_def) c d = Some (Ok ans) \<and> path_answer ?g c d ans" if "c \<in> {a, b}" for c d
    using dep_path_spec [OF refl assms(2), of c d] assms(3) that by blast
  obtain f where f: "dep_path (deps_of get_def) a b = Some (Ok f)" "path_answer ?g a b f" using spec by blast
  obtain r where r: "dep_path (deps_of get_def) b a = Some (Ok r)" "path_answer ?g b a r" using spec by blast
  have reach: "(c, d) \<in> ?g\<^sup>*" if "is_chain ?g xs c d" for xs c d
    using is_chain_relpow [OF that] by (rule relpow_imp_rtrancl)
  show ?thesis
  proof (cases "a = b")
    case True
    moreover have "1 \<le> length xs" if "is_chain ?g xs b b" for xs using that by (cases xs) (auto simp: is_chain_def)
    ultimately show ?thesis by (cases fwd_first) (auto simp: dep_path_between_def dep_path_def is_chain_def)
  next
    case False
    have one: "(d, c) \<notin> ?g\<^sup>*" if "is_chain ?g xs c d" "c \<noteq> d" for xs c d
      using reach [OF that(1)] that(2) assms(1) by (metis acyclic_impl_antisym_rtrancl antisymD)
    have "f = None \<or> r = None"
      using f(2) r(2) one [of _ a b] reach [of _ b a] False by (cases f; cases r) (auto simp: path_answer_def)
    then obtain ans where ans: "ans = f \<or> ans = r" "ans = None \<longrightarrow> f = None \<and> r = None"
      "dep_path_between (deps_of get_def) fwd_first a b = Some (Ok ans)" "dep_path_between (deps_of get_def) (\<not> fwd_first) a b = Some (Ok ans)"
      using dep_path_between_either [OF f(1) r(1)] by blast
    show ?thesis
    proof (cases ans)
      case None
      then show ?thesis using ans f(2) r(2) by (auto simp: path_answer_def)
    next
      case (Some chain)
      then obtain c d where cd: "{c, d} = {a, b}" "path_answer ?g c d (Some chain)" using ans(1) f(2) r(2) by blast
      then have "is_chain ?g chain c d" "\<forall>xs. is_chain ?g xs c d \<longrightarrow> length chain \<le> length xs" by (auto simp: path_answer_def)
      then show ?thesis using ans(3,4) Some cd(1) one [of chain c d] by simp blast
    qed
  qed
qed

theorem dep_path_between_race_free_witness:
  "\<exists>chain. dep_path_between (deps_of demo_get_def) False (demo_addr (u ''b'')) (demo_addr (u ''a'')) = Some (Ok (Some chain))
     \<and> chain \<noteq> []"
proof -
  have ac: "acyclic (dep_graph (deps_of demo_get_def))"
    unfolding demo_graph by (simp add: acyclic_insert demo_addr_def wf_acyclic)
  have "(demo_addr (u ''a''), demo_addr (u ''b'')) \<in> (dep_graph (deps_of demo_get_def))\<^sup>*" by (auto simp: demo_graph)
  then show ?thesis
    using dep_path_between_race_free [OF ac demo_finite, of "demo_addr (u ''b'')" "demo_addr (u ''a'')" False]
    by (auto simp: demo_get_def_def is_chain_def split: option.splits)
qed

end
