(* ===== verification/Query_Lang.thy ===== *)
theory Query_Lang
  imports Target
begin

text \<open>
  The query language (model/htquery): the tokenizer with its string literals, the recursive
  descent parser with its nesting limit, and the printer.

  The parser's cursor is the list of the tokens not yet consumed (\<^verbatim>\<open>tokens[pos..]\<close>); its
  \<open>depth\<close> counter, incremented on the way into \<^verbatim>\<open>parse_not\<close> and decremented on the way out, is
  an argument.  The parser is total: its recursion is on the tokens left.
\<close>

section \<open>Printing\<close>

definition is_word_break :: "rchar \<Rightarrow> bool" where
  "is_word_break c \<longleftrightarrow> is_whitespace c \<or> c \<in> set (u ''()&|!'') \<or> c = c_quote"

definition is_bare_word :: "rstr \<Rightarrow> bool" where
  "is_bare_word s \<longleftrightarrow> s \<noteq> [] \<and> list_all (\<lambda>c. \<not> is_word_break c \<and> \<not> is_control c) s"

definition escape_char :: "rchar \<Rightarrow> rstr" where
  "escape_char c = (if c = c_backslash then [c_backslash, c_backslash]
     else if c = c_quote then [c_backslash, c_quote]
     else if c = 10 then c_backslash # u ''n''
     else if c = 13 then c_backslash # u ''r''
     else if c = 9 then c_backslash # u ''t''
     else if is_control c then c_backslash # u ''u{'' @ fmt_hex c @ u ''}''
     else [c])"

definition quote_string :: "rstr \<Rightarrow> rstr" where
  "quote_string s = [c_quote] @ concat (map escape_char s) @ [c_quote]"

definition fmt_arg :: "rstr \<Rightarrow> rstr" where
  "fmt_arg arg = (if arg = [] \<or> is_bare_word arg then arg else quote_string arg)"

definition fmt_call :: "rstr \<Rightarrow> rstr \<Rightarrow> rstr" where
  "fmt_call name arg = name @ u ''('' @ fmt_arg arg @ u '')''"

definition call_display :: "rstr \<Rightarrow> rstr \<Rightarrow> rstr" where
  "call_display name arg = fmt_call name arg"

definition fmt_pattern :: "rstr \<Rightarrow> rstr \<Rightarrow> rstr \<Rightarrow> rstr" where
  "fmt_pattern bare func arg = (if is_bare_word bare then bare else fmt_call func arg)"

definition DRIVER_FN :: rstr where "DRIVER_FN = u ''driver''"

fun prec :: "Matcher \<Rightarrow> nat" where
  "prec (MOr _) = 1"
| "prec (MAnd _) = 2"
| "prec _ = 3"

text \<open>\<^verbatim>\<open>fmt_join\<close>: the rendered children with the separator between them.\<close>

fun fmt_join :: "rstr \<Rightarrow> rstr list \<Rightarrow> rstr" where
  "fmt_join sep [] = []"
| "fmt_join sep [c] = c"
| "fmt_join sep (c # d # cs) = c @ sep @ fmt_join sep (d # cs)"

definition parens :: "bool \<Rightarrow> rstr \<Rightarrow> rstr" where
  "parens needs_paren s = (if needs_paren then u ''('' @ s @ u '')'' else s)"

fun fmt_prec :: "Matcher \<Rightarrow> nat \<Rightarrow> rstr" where
  "fmt_prec (MAddr a) parent_prec = fmt_pattern (format_addr a) (u ''addr'') (format_addr a)"
| "fmt_prec (MPackage p) parent_prec = fmt_pattern (u ''//'' @ p) (u ''package'') p"
| "fmt_prec (MPackagePrefix p) parent_prec =
     fmt_pattern (if p = [] then u ''//...'' else u ''//'' @ p @ u ''/...'') (u ''package_prefix'') p"
| "fmt_prec (MLabel l) parent_prec = fmt_call (u ''label'') l"
| "fmt_prec (MDriver d) parent_prec = fmt_call DRIVER_FN d"
| "fmt_prec (MTreeOutputTo p) parent_prec = fmt_call (u ''tree_output'') p"
| "fmt_prec (MAnd children) parent_prec =
     parens (2 < parent_prec) (fmt_join (u '' && '') (map (\<lambda>c. fmt_prec c 2) children))"
| "fmt_prec (MOr children) parent_prec =
     parens (1 < parent_prec) (fmt_join (u '' || '') (map (\<lambda>c. fmt_prec c 1) children))"
| "fmt_prec (MNot inner) parent_prec = u ''!'' @ fmt_prec inner 3"

definition query_format :: "Matcher \<Rightarrow> rstr" where
  "query_format m = fmt_prec m 0"

section \<open>Tokens\<close>

datatype Tok = TAnd | TOr | TNot | LParen | RParen | Word rstr | Str rstr

fun describe :: "Tok \<Rightarrow> rstr" where
  "describe TAnd = u ''&&''"
| "describe TOr = u ''||''"
| "describe TNot = u ''!''"
| "describe LParen = u ''(''"
| "describe RParen = u '')''"
| "describe (Word w) = w"
| "describe (Str s) = quote_string s"

datatype query_error =
    SingleAmp | SinglePipe | UnterminatedQuoted | UnterminatedLiteral
  | ExpectedBrace | MalformedEscape | NotACharacter rstr | UnknownEscape rchar
  | Unexpected rstr | NestedTooDeeply | ExpectedRParen rstr | UnclosedParen
  | ExpectedArgument rstr rstr | MissingArgument rstr | ExpectedRParenAfter rstr rstr | UnclosedCall rstr
  | DriverNeedsName | UnknownFunction rstr | UnexpectedEnd
  | BadLabel rstr label_error | BadPackageArg rstr pkg_error | BadAddr rstr addr_error | BadPattern rstr pattern_error

definition is_ascii_hexdigit :: "rchar \<Rightarrow> bool" where
  "is_ascii_hexdigit c \<longleftrightarrow> is_ascii_digit c \<or> (97 \<le> c \<and> c \<le> 102) \<or> (65 \<le> c \<and> c \<le> 70)"

text \<open>\<^verbatim>\<open>u32::from_str_radix(_, 16)\<close> on at most six digits, where it fails on the empty text only,
  and \<^verbatim>\<open>char::from_u32\<close>: no surrogates, nothing above the last code point.\<close>

definition from_str_radix_16 :: "rstr \<Rightarrow> nat option" where
  "from_str_radix_16 hex = (if hex = [] then None else Some (foldl (\<lambda>n c. 16 * n + hex_val c) 0 hex))"

definition char_from_u32 :: "nat \<Rightarrow> rchar option" where
  "char_from_u32 n = (if n < 1114112 \<and> \<not> (55296 \<le> n \<and> n \<le> 57343) then Some n else None)"

text \<open>The loop that collects the digits of \<^verbatim>\<open>\u{...}\<close>.\<close>

fun read_hex :: "rstr \<Rightarrow> rstr \<Rightarrow> query_error + rstr \<times> rstr" where
  "read_hex hex [] = Err MalformedEscape"
| "read_hex hex (c # cs) = (if c = 125 then Ok (hex, cs)
     else if is_ascii_hexdigit c \<and> length hex < 6 then read_hex (hex @ [c]) cs
     else Err MalformedEscape)"

definition unicode_escape :: "rstr \<Rightarrow> query_error + rchar \<times> rstr" where
  "unicode_escape cs = (case cs of
     b # cs' \<Rightarrow> if b = 123 then
         (case read_hex [] cs' of
            Err e \<Rightarrow> Err e
          | Ok (hex, rest) \<Rightarrow> (case Option.bind (from_str_radix_16 hex) char_from_u32 of
              None \<Rightarrow> Err (NotACharacter hex) | Some c \<Rightarrow> Ok (c, rest)))
       else Err ExpectedBrace
   | [] \<Rightarrow> Err ExpectedBrace)"

lemma read_hex_shorter: "read_hex hex cs = Ok (h, rest) \<Longrightarrow> length rest < length cs"
  by (induction hex cs rule: read_hex.induct) (auto split: if_splits)

lemma unicode_escape_shorter: "unicode_escape cs = Ok (c, rest) \<Longrightarrow> length rest < length cs"
  by (auto simp: unicode_escape_def split: list.splits if_splits sum.splits option.splits dest!: read_hex_shorter)

function unescape_string :: "rstr \<Rightarrow> rstr \<Rightarrow> query_error + rstr \<times> rstr" where
  "unescape_string s [] = Err UnterminatedLiteral"
| "unescape_string s (c # cs) =
     (if c = c_quote then Ok (s, cs)
      else if c = c_backslash then (case cs of
          [] \<Rightarrow> Err UnterminatedLiteral
        | e # cs' \<Rightarrow>
            if e = c_backslash then unescape_string (s @ [c_backslash]) cs'
            else if e = c_quote then unescape_string (s @ [c_quote]) cs'
            else if [e] = u ''n'' then unescape_string (s @ [10]) cs'
            else if [e] = u ''r'' then unescape_string (s @ [13]) cs'
            else if [e] = u ''t'' then unescape_string (s @ [9]) cs'
            else if [e] = u ''u'' then (case unicode_escape cs' of
                Err err \<Rightarrow> Err err
              | Ok p \<Rightarrow> unescape_string (s @ [fst p]) (snd p))
            else Err (UnknownEscape e))
      else unescape_string (s @ [c]) cs)"
  by pat_completeness auto

termination
  by (relation "measure (\<lambda>(s, cs). length cs)") (auto dest!: unicode_escape_shorter)

lemma unescape_string_shorter: "unescape_string s cs = Ok (t, rest) \<Longrightarrow> length rest < length cs"
  by (induction s cs rule: unescape_string.induct)
     (fastforce split: if_splits list.splits sum.splits dest!: unicode_escape_shorter)+

text \<open>The loop of \<^verbatim>\<open>tokenize\<close>: \<open>acc\<close> holds the tokens pushed so far, the last one first.\<close>

function tokenize_loop :: "Tok list \<Rightarrow> rstr \<Rightarrow> query_error + Tok list" where
  "tokenize_loop acc [] = Ok (rev acc)"
| "tokenize_loop acc (c # cs) =
     (if is_whitespace c then tokenize_loop acc cs
      else if [c] = u ''('' then tokenize_loop (LParen # acc) cs
      else if [c] = u '')'' then tokenize_loop (RParen # acc) cs
      else if [c] = u ''!'' then tokenize_loop (TNot # acc) cs
      else if [c] = u ''&'' then
        (case strip_prefix (u ''&'') cs of None \<Rightarrow> Err SingleAmp | Some cs' \<Rightarrow> tokenize_loop (TAnd # acc) cs')
      else if [c] = u ''|'' then
        (case strip_prefix (u ''|'') cs of None \<Rightarrow> Err SinglePipe | Some cs' \<Rightarrow> tokenize_loop (TOr # acc) cs')
      else if c = c_quote \<and> (case acc of LParen # Word _ # _ \<Rightarrow> True | _ \<Rightarrow> False) then
        (case unescape_string [] cs of
           Err e \<Rightarrow> Err e | Ok p \<Rightarrow> tokenize_loop (Str (fst p) # acc) (snd p))
      else if c = c_quote then
        (case split_once c_quote cs of
           None \<Rightarrow> Err UnterminatedQuoted | Some p \<Rightarrow> tokenize_loop (Word (fst p) # acc) (snd p))
      else tokenize_loop (Word (takeWhile (\<lambda>c. \<not> is_word_break c) (c # cs)) # acc)
             (dropWhile (\<lambda>c. \<not> is_word_break c) (c # cs)))"
  by pat_completeness auto

lemma split_once_shorter: "split_once c xs = Some (a, b) \<Longrightarrow> length b < length xs"
  by (induction c xs arbitrary: a b rule: split_once.induct) (auto split: if_splits)

lemma strip_prefix_shorter: "strip_prefix p xs = Some r \<Longrightarrow> length r \<le> length xs"
  by (induction p xs rule: strip_prefix.induct) (auto split: if_splits)

termination tokenize_loop
proof (relation "measure (\<lambda>(acc, cs). length cs)", goal_cases)
  case (10 acc c cs)
  then have "\<not> is_word_break c" by (auto simp: is_word_break_def)
  then show ?case using length_dropWhile_le [of "\<lambda>c. \<not> is_word_break c" cs] by simp
qed (auto dest!: unescape_string_shorter split_once_shorter strip_prefix_shorter)

definition tokenize :: "rstr \<Rightarrow> query_error + Tok list" where
  "tokenize input = tokenize_loop [] input"

section \<open>The parser\<close>

definition MAX_NESTING_DEPTH :: nat where "MAX_NESTING_DEPTH = 256"

definition to_pkg :: "rstr \<Rightarrow> pkg_error + PkgBuf" where
  "to_pkg arg = join_rel_checked_pkg [] (case strip_prefix (u ''//'') arg of Some a \<Rightarrow> a | None \<Rightarrow> arg)"

definition func_to_matcher :: "nom \<Rightarrow> PkgBuf \<Rightarrow> rstr \<Rightarrow> rstr \<Rightarrow> query_error + Matcher" where
  "func_to_matcher N base name arg =
     (if name = u ''label'' then (case validate_label arg of
          Err e \<Rightarrow> Err (BadLabel (call_display name arg) e) | Ok _ \<Rightarrow> Ok (MLabel arg))
      else if name = u ''tree_output'' \<or> name = u ''tree_output_to'' then (case to_pkg arg of
          Err e \<Rightarrow> Err (BadPackageArg (call_display name arg) e) | Ok p \<Rightarrow> Ok (MTreeOutputTo p))
      else if name = u ''addr'' then (case parse_addr_with_base N arg base of
          Err e \<Rightarrow> Err (BadAddr (call_display name arg) e) | Ok a \<Rightarrow> Ok (MAddr a))
      else if name = u ''package'' \<or> name = u ''pkg'' then (case to_pkg arg of
          Err e \<Rightarrow> Err (BadPackageArg (call_display name arg) e) | Ok p \<Rightarrow> Ok (MPackage p))
      else if name = u ''package_prefix'' then (case to_pkg arg of
          Err e \<Rightarrow> Err (BadPackageArg (call_display name arg) e) | Ok p \<Rightarrow> Ok (MPackagePrefix p))
      else Err (UnknownFunction name))"

definition pattern_to_matcher :: "nom \<Rightarrow> PkgBuf \<Rightarrow> rstr \<Rightarrow> query_error + Matcher" where
  "pattern_to_matcher N base word =
     (if c_colon \<in> set word then (case parse_addr_with_base N word base of
          Err e \<Rightarrow> Err (BadAddr word e) | Ok a \<Rightarrow> Ok (MAddr a))
      else (case parse_htpkg word base of Err e \<Rightarrow> Err (BadPattern word e) | Ok m \<Rightarrow> Ok m))"

text \<open>The call branch of \<^verbatim>\<open>parse_atom\<close>, after the word and its opening parenthesis.\<close>

definition parse_call_arg :: "rstr \<Rightarrow> Tok list \<Rightarrow> query_error + rstr option \<times> Tok list" where
  "parse_call_arg w ts = (case ts of
     [] \<Rightarrow> Err (MissingArgument w)
   | RParen # _ \<Rightarrow> Ok (None, ts)
   | Word a # ts' \<Rightarrow> Ok (Some a, ts')
   | Str a # ts' \<Rightarrow> Ok (Some a, ts')
   | other # _ \<Rightarrow> Err (ExpectedArgument w (describe other)))"

definition call_matcher :: "nom \<Rightarrow> PkgBuf \<Rightarrow> rstr \<Rightarrow> rstr option \<Rightarrow> query_error + Matcher" where
  "call_matcher N base w arg =
     (if w = DRIVER_FN then (case arg of
          Some a \<Rightarrow> if a = [] then Err DriverNeedsName else Ok (MDriver a)
        | None \<Rightarrow> Err DriverNeedsName)
      else func_to_matcher N base w (case arg of Some a \<Rightarrow> a | None \<Rightarrow> []))"

definition parse_call :: "nom \<Rightarrow> PkgBuf \<Rightarrow> rstr \<Rightarrow> Tok list \<Rightarrow> query_error + Matcher \<times> Tok list" where
  "parse_call N base w ts = (case parse_call_arg w ts of
     Err e \<Rightarrow> Err e
   | Ok (arg, ts1) \<Rightarrow> (case ts1 of
       [] \<Rightarrow> Err (UnclosedCall w)
     | RParen # ts2 \<Rightarrow> (case call_matcher N base w arg of Err e \<Rightarrow> Err e | Ok m \<Rightarrow> Ok (m, ts2))
     | other # _ \<Rightarrow> Err (ExpectedRParenAfter (call_display w (case arg of Some a \<Rightarrow> a | None \<Rightarrow> [])) (describe other))))"

lemma parse_call_shorter: "parse_call N base w ts = Ok (m, rest) \<Longrightarrow> length rest < length ts"
  by (auto simp: parse_call_def parse_call_arg_def split: list.splits Tok.splits sum.splits)

type_synonym parse_args = "nom \<times> PkgBuf \<times> nat \<times> Tok list"

fun parser_rank :: "(parse_args + parse_args + parse_args) + parse_args + parse_args + parse_args \<Rightarrow> nat \<times> nat" where
  "parser_rank (Inl (Inl (_, _, _, ts))) = (length ts, 3)"
| "parser_rank (Inl (Inr (Inl (_, _, _, ts)))) = (length ts, 4)"
| "parser_rank (Inl (Inr (Inr (_, _, _, ts)))) = (length ts, 2)"
| "parser_rank (Inr (Inl (_, _, _, ts))) = (length ts, 3)"
| "parser_rank (Inr (Inr (Inl (_, _, _, ts)))) = (length ts, 1)"
| "parser_rank (Inr (Inr (Inr (_, _, _, ts)))) = (length ts, 0)"

text \<open>The mutually recursive parsers.  \<open>or_terms\<close> and \<open>and_terms\<close> are the loops that collect the
  further operands.\<close>

function
  parse_or :: "nom \<Rightarrow> PkgBuf \<Rightarrow> nat \<Rightarrow> Tok list \<Rightarrow> query_error + Matcher \<times> Tok list"
  and or_terms :: "nom \<Rightarrow> PkgBuf \<Rightarrow> nat \<Rightarrow> Tok list \<Rightarrow> query_error + Matcher list \<times> Tok list"
  and parse_and :: "nom \<Rightarrow> PkgBuf \<Rightarrow> nat \<Rightarrow> Tok list \<Rightarrow> query_error + Matcher \<times> Tok list"
  and and_terms :: "nom \<Rightarrow> PkgBuf \<Rightarrow> nat \<Rightarrow> Tok list \<Rightarrow> query_error + Matcher list \<times> Tok list"
  and parse_not :: "nom \<Rightarrow> PkgBuf \<Rightarrow> nat \<Rightarrow> Tok list \<Rightarrow> query_error + Matcher \<times> Tok list"
  and parse_atom :: "nom \<Rightarrow> PkgBuf \<Rightarrow> nat \<Rightarrow> Tok list \<Rightarrow> query_error + Matcher \<times> Tok list" where
  "parse_or N base depth ts = (case parse_and N base depth ts of
     Err e \<Rightarrow> Err e
   | Ok (first, ts1) \<Rightarrow> (case or_terms N base depth ts1 of
       Err e \<Rightarrow> Err e
     | Ok (terms, ts2) \<Rightarrow> Ok (if terms = [] then first else MOr (first # terms), ts2)))"
| "or_terms N base depth ts = (case ts of
     TOr # ts1 \<Rightarrow> (case parse_and N base depth ts1 of
         Err e \<Rightarrow> Err e
       | Ok (t, ts2) \<Rightarrow> (case or_terms N base depth ts2 of
           Err e \<Rightarrow> Err e | Ok (terms, ts3) \<Rightarrow> Ok (t # terms, ts3)))
   | _ \<Rightarrow> Ok ([], ts))"
| "parse_and N base depth ts = (case parse_not N base depth ts of
     Err e \<Rightarrow> Err e
   | Ok (first, ts1) \<Rightarrow> (case and_terms N base depth ts1 of
       Err e \<Rightarrow> Err e
     | Ok (terms, ts2) \<Rightarrow> Ok (if terms = [] then first else MAnd (first # terms), ts2)))"
| "and_terms N base depth ts = (case ts of
     TAnd # ts1 \<Rightarrow> (case parse_not N base depth ts1 of
         Err e \<Rightarrow> Err e
       | Ok (t, ts2) \<Rightarrow> (case and_terms N base depth ts2 of
           Err e \<Rightarrow> Err e | Ok (terms, ts3) \<Rightarrow> Ok (t # terms, ts3)))
   | _ \<Rightarrow> Ok ([], ts))"
| "parse_not N base depth ts =
     (if depth + 1 > MAX_NESTING_DEPTH then Err NestedTooDeeply
      else case ts of
        TNot # ts1 \<Rightarrow> (case parse_not N base (depth + 1) ts1 of
            Err e \<Rightarrow> Err e | Ok (inner, ts2) \<Rightarrow> Ok (MNot inner, ts2))
      | _ \<Rightarrow> parse_atom N base (depth + 1) ts)"
| "parse_atom N base depth ts = (case ts of
     [] \<Rightarrow> Err UnexpectedEnd
   | LParen # ts1 \<Rightarrow> (case parse_or N base depth ts1 of
         Err e \<Rightarrow> Err e
       | Ok (inner, ts2) \<Rightarrow> (case ts2 of
           [] \<Rightarrow> Err UnclosedParen
         | RParen # ts3 \<Rightarrow> Ok (inner, ts3)
         | other # _ \<Rightarrow> Err (ExpectedRParen (describe other))))
   | Word w # ts1 \<Rightarrow> (case ts1 of
         LParen # ts2 \<Rightarrow> parse_call N base w ts2
       | _ \<Rightarrow> (case pattern_to_matcher N base w of Err e \<Rightarrow> Err e | Ok m \<Rightarrow> Ok (m, ts1)))
   | other # _ \<Rightarrow> Err (Unexpected (describe other)))"
  by pat_completeness auto

text \<open>A parser that succeeds has consumed a token.\<close>

lemma parser_shorter:
  "parse_or_or_terms_parse_and_and_terms_parse_not_parse_atom_dom (Inl (Inl (N, base, depth, ts))) \<Longrightarrow>
     (\<forall>m r. parse_or N base depth ts = Ok (m, r) \<longrightarrow> length r < length ts)"
  "parse_or_or_terms_parse_and_and_terms_parse_not_parse_atom_dom (Inl (Inr (Inl (N, base, depth, ts)))) \<Longrightarrow>
     (\<forall>m r. or_terms N base depth ts = Ok (m, r) \<longrightarrow> length r \<le> length ts)"
  "parse_or_or_terms_parse_and_and_terms_parse_not_parse_atom_dom (Inl (Inr (Inr (N, base, depth, ts)))) \<Longrightarrow>
     (\<forall>m r. parse_and N base depth ts = Ok (m, r) \<longrightarrow> length r < length ts)"
  "parse_or_or_terms_parse_and_and_terms_parse_not_parse_atom_dom (Inr (Inl (N, base, depth, ts))) \<Longrightarrow>
     (\<forall>m r. and_terms N base depth ts = Ok (m, r) \<longrightarrow> length r \<le> length ts)"
  "parse_or_or_terms_parse_and_and_terms_parse_not_parse_atom_dom (Inr (Inr (Inl (N, base, depth, ts)))) \<Longrightarrow>
     (\<forall>m r. parse_not N base depth ts = Ok (m, r) \<longrightarrow> length r < length ts)"
  "parse_or_or_terms_parse_and_and_terms_parse_not_parse_atom_dom (Inr (Inr (Inr (N, base, depth, ts)))) \<Longrightarrow>
     (\<forall>m r. parse_atom N base depth ts = Ok (m, r) \<longrightarrow> length r < length ts)"
proof (induction N base depth ts and N base depth ts and N base depth ts and N base depth ts
    and N base depth ts and N base depth ts rule: parse_or_or_terms_parse_and_and_terms_parse_not_parse_atom.pinduct)
  case (1 N base depth ts)
  then show ?case by (fastforce simp: parse_or.psimps split: sum.splits)
next
  case (2 N base depth ts)
  show ?case
  proof (cases ts)
    case (Cons t ts1)
    then show ?thesis using 2 by (cases t) (fastforce simp: or_terms.psimps split: sum.splits)+
  qed (use 2 in \<open>auto simp: or_terms.psimps split: sum.splits\<close>)
next
  case (3 N base depth ts)
  then show ?case by (fastforce simp: parse_and.psimps split: sum.splits)
next
  case (4 N base depth ts)
  show ?case
  proof (cases ts)
    case (Cons t ts1)
    then show ?thesis using 4 by (cases t) (fastforce simp: and_terms.psimps split: sum.splits)+
  qed (use 4 in \<open>auto simp: and_terms.psimps split: sum.splits\<close>)
next
  case (5 N base depth ts)
  show ?case
  proof (cases ts)
    case (Cons t ts1)
    then show ?thesis using 5 by (cases t) (auto simp: parse_not.psimps split: sum.splits if_splits)
  qed (use 5 in \<open>auto simp: parse_not.psimps split: sum.splits\<close>)
next
  case (6 N base depth ts)
  show ?case
  proof (cases ts)
    case (Cons t ts1)
    then show ?thesis using 6 by (cases t) (auto simp: parse_atom.psimps split: sum.splits list.splits Tok.splits dest: parse_call_shorter)
  qed (use 6 in \<open>auto simp: parse_atom.psimps split: sum.splits\<close>)
qed

termination parse_or
proof (relation "inv_image (less_than <*lex*> less_than) parser_rank", goal_cases)
  case 1
  then show ?case by (simp add: wf_lex_prod)
qed (fastforce dest: parser_shorter(3,5))+

declare parse_or.simps [simp del] or_terms.simps [simp del] parse_and.simps [simp del]
  and_terms.simps [simp del] parse_not.simps [simp del] parse_atom.simps [simp del]

definition query_parse :: "nom \<Rightarrow> rstr \<Rightarrow> PkgBuf \<Rightarrow> query_error + Matcher" where
  "query_parse N input base = (case tokenize input of
     Err e \<Rightarrow> Err e
   | Ok tokens \<Rightarrow> (case parse_or N base 0 tokens of
       Err e \<Rightarrow> Err e
     | Ok (m, rest) \<Rightarrow> (case rest of [] \<Rightarrow> Ok m | tok # _ \<Rightarrow> Err (Unexpected (describe tok)))))"

end
