(* ===== verification/Query_Roundtrip.thy ===== *)
theory Query_Roundtrip
  imports Query_Lang
begin

text \<open>
  The query printer against the query parser: a rendered string literal is read back, a rendered
  matcher is tokenized and parsed to the matcher up to the inlining of directly nested
  conjunctions and disjunctions, which no evaluator distinguishes, and the nesting limit is
  exact.
\<close>

section \<open>String literals\<close>

lemma hex_digit_props:
  "n < 16 \<Longrightarrow> is_ascii_hexdigit (hex_digit n) \<and> hex_val (hex_digit n) = n \<and> hex_digit n \<noteq> 125"
  by (auto simp: is_ascii_hexdigit_def hex_digit_def hex_val_def is_ascii_digit_def)

lemma fmt_hex_two: "n < 256 \<Longrightarrow> fmt_hex n = (if n < 16 then [hex_digit n] else [hex_digit (n div 16), hex_digit (n mod 16)])"
  by (simp add: fmt_hex.simps [of n] fmt_hex.simps [of "n div 16"])

lemma unicode_escape_hex: "n < 256 \<Longrightarrow> unicode_escape (u ''{'' @ fmt_hex n @ u ''}'' @ rest) = Ok (n, rest)"
  using hex_digit_props [of n] hex_digit_props [of "n div 16"] hex_digit_props [of "n mod 16"]
  by (simp add: unicode_escape_def fmt_hex_two from_str_radix_16_def char_from_u32_def)

lemma unescape_char: "unescape_string acc (escape_char c @ rest) = unescape_string (acc @ [c]) rest"
proof (cases "is_control c \<and> c \<notin> {c_backslash, c_quote, 10, 13, 9}")
  case True
  then have "c < 256" by (auto simp: is_control_def)
  then have "unicode_escape (123 # fmt_hex c @ 125 # rest) = Ok (c, rest)" using unicode_escape_hex [of c rest] by simp
  then show ?thesis using True by (simp add: escape_char_def)
next
  case False
  then show ?thesis by (auto simp: escape_char_def)
qed

lemma unescape_quoted: "unescape_string acc (concat (map escape_char s) @ c_quote # rest) = Ok (acc @ s, rest)"
  by (induction s arbitrary: acc) (simp_all add: unescape_char del: unescape_string.simps(2), simp)

section \<open>The tokens of a rendered matcher\<close>

definition arg_toks :: "rstr \<Rightarrow> Tok list" where
  "arg_toks arg = (if arg = [] then [] else if is_bare_word arg then [Word arg] else [Str arg])"

definition call_toks :: "rstr \<Rightarrow> rstr \<Rightarrow> Tok list" where
  "call_toks name arg = [Word name, LParen] @ arg_toks arg @ [RParen]"

definition pattern_toks :: "rstr \<Rightarrow> rstr \<Rightarrow> rstr \<Rightarrow> Tok list" where
  "pattern_toks bare func arg = (if is_bare_word bare then [Word bare] else call_toks func arg)"

fun join_toks :: "Tok \<Rightarrow> Tok list list \<Rightarrow> Tok list" where
  "join_toks sep [] = []"
| "join_toks sep [c] = c"
| "join_toks sep (c # d # cs) = c @ sep # join_toks sep (d # cs)"

definition paren_toks :: "bool \<Rightarrow> Tok list \<Rightarrow> Tok list" where
  "paren_toks needs_paren ts = (if needs_paren then LParen # ts @ [RParen] else ts)"

fun toks :: "Matcher \<Rightarrow> nat \<Rightarrow> Tok list" where
  "toks (MAddr a) p = pattern_toks (format_addr a) (u ''addr'') (format_addr a)"
| "toks (MPackage k) p = pattern_toks (u ''//'' @ k) (u ''package'') k"
| "toks (MPackagePrefix k) p =
     pattern_toks (if k = [] then u ''//...'' else u ''//'' @ k @ u ''/...'') (u ''package_prefix'') k"
| "toks (MLabel l) p = call_toks (u ''label'') l"
| "toks (MDriver d) p = call_toks DRIVER_FN d"
| "toks (MTreeOutputTo k) p = call_toks (u ''tree_output'') k"
| "toks (MAnd cs) p = paren_toks (2 < p) (join_toks TAnd (map (\<lambda>c. toks c 2) cs))"
| "toks (MOr cs) p = paren_toks (1 < p) (join_toks TOr (map (\<lambda>c. toks c 1) cs))"
| "toks (MNot m) p = TNot # toks m 3"

text \<open>A word ends where the text ends or a breaking character follows.\<close>

definition word_end :: "rstr \<Rightarrow> bool" where
  "word_end rest \<longleftrightarrow> (case rest of [] \<Rightarrow> True | c # _ \<Rightarrow> is_word_break c)"

lemma tokenize_word:
  assumes w: "w \<noteq> []" "list_all (\<lambda>c. \<not> is_word_break c) w" and e: "word_end rest"
  shows "tokenize_loop acc (w @ rest) = tokenize_loop (Word w # acc) rest"
proof -
  obtain c cs where c: "w = c # cs" using w by (cases w) auto
  have nb: "\<not> is_word_break c" using w c by simp
  have tw: "takeWhile (\<lambda>c. \<not> is_word_break c) (w @ rest) = w"
    "dropWhile (\<lambda>c. \<not> is_word_break c) (w @ rest) = rest"
    using w e by (auto simp: takeWhile_append dropWhile_append list_all_iff word_end_def split: list.splits)
  have "tokenize_loop acc ((c # cs) @ rest) = tokenize_loop (Word w # acc) rest"
    using nb tw unfolding c by (simp add: is_word_break_def)
  then show ?thesis using c by simp
qed

lemma tokenize_bare:
  "is_bare_word w \<Longrightarrow> word_end rest \<Longrightarrow> tokenize_loop acc (w @ rest) = tokenize_loop (Word w # acc) rest"
  by (rule tokenize_word) (auto simp: is_bare_word_def list_all_iff)

lemma tokenize_punct:
  "tokenize_loop acc (40 # rest) = tokenize_loop (LParen # acc) rest"
  "tokenize_loop acc (41 # rest) = tokenize_loop (RParen # acc) rest"
  "tokenize_loop acc (33 # rest) = tokenize_loop (TNot # acc) rest"
  "tokenize_loop acc (32 # 38 # 38 # 32 # rest) = tokenize_loop (TAnd # acc) rest"
  "tokenize_loop acc (32 # 124 # 124 # 32 # rest) = tokenize_loop (TOr # acc) rest"
  by (simp_all add: is_whitespace_def)










section \<open>Which matchers are printed faithfully\<close>




text \<open>What the parser reads back: an operator with a single operand is that operand, and a
  conjunction directly inside a conjunction is inlined, as is a disjunction in a disjunction.\<close>

fun mk :: "(Matcher list \<Rightarrow> Matcher) \<Rightarrow> Matcher list \<Rightarrow> Matcher" where
  "mk C [m] = m"
| "mk C ms = C ms"

fun and_items :: "Matcher \<Rightarrow> Matcher list" and or_items :: "Matcher \<Rightarrow> Matcher list" where
  "and_items (MAnd cs) = concat (map (\<lambda>c. and_items c) cs)"
| "and_items (MOr cs) = [mk MOr (concat (map (\<lambda>c. or_items c) cs))]"
| "and_items (MNot m) = [MNot (mk MOr (or_items m))]"
| "and_items m = [m]"
| "or_items (MAnd cs) = [mk MAnd (concat (map (\<lambda>c. and_items c) cs))]"
| "or_items (MOr cs) = concat (map (\<lambda>c. or_items c) cs)"
| "or_items (MNot m) = [MNot (mk MOr (or_items m))]"
| "or_items m = [m]"

definition norm :: "Matcher \<Rightarrow> Matcher" where
  "norm m = mk MOr (or_items m)"

section \<open>Parsing the tokens\<close>

definition before :: "Tok set \<Rightarrow> Tok list \<Rightarrow> bool" where
  "before S rest \<longleftrightarrow> (case rest of [] \<Rightarrow> True | t # _ \<Rightarrow> t \<notin> S)"

text \<open>\<open>reads stop parse ts m\<close>: the parser turns the tokens \<open>ts\<close> into \<open>m\<close>, whatever follows
  that does not start with a token of \<open>stop\<close>.\<close>

definition reads :: "Tok set \<Rightarrow> (Tok list \<Rightarrow> query_error + Matcher \<times> Tok list) \<Rightarrow> Tok list \<Rightarrow> Matcher \<Rightarrow> bool" where
  "reads stop parse ts m \<longleftrightarrow> (\<forall>rest. before stop rest \<longrightarrow> parse (ts @ rest) = Ok (m, rest))"

text \<open>Operands with separators between them.\<close>

inductive operands :: "(Tok list \<Rightarrow> Matcher \<Rightarrow> bool) \<Rightarrow> Tok \<Rightarrow> Tok list \<Rightarrow> Matcher list \<Rightarrow> bool"
  for P sep where
  single: "P ts m \<Longrightarrow> operands P sep ts [m]"
| more: "P ts m \<Longrightarrow> operands P sep us ms \<Longrightarrow> operands P sep (ts @ sep # us) (m # ms)"



lemma operands_ne: "operands P sep ts ms \<Longrightarrow> ms \<noteq> []"
  by (induction rule: operands.induct) auto

lemma before_mono: "before S rest \<Longrightarrow> T \<subseteq> S \<Longrightarrow> before T rest"
  by (auto simp: before_def split: list.splits)

text \<open>The two operator levels of the grammar have the same shape: a first operand, then a loop
  over separators and further operands.\<close>

locale operator_chain =
  fixes operand :: "Tok list \<Rightarrow> query_error + Matcher \<times> Tok list"
    and loop :: "Tok list \<Rightarrow> query_error + Matcher list \<times> Tok list"
    and chain :: "Tok list \<Rightarrow> query_error + Matcher \<times> Tok list"
    and sep :: Tok and stop :: "Tok set" and C :: "Matcher list \<Rightarrow> Matcher"
  assumes loop_sep: "loop (sep # ts) = (case operand ts of Err e \<Rightarrow> Err e
      | Ok (t, ts2) \<Rightarrow> (case loop ts2 of Err e \<Rightarrow> Err e | Ok (terms, ts3) \<Rightarrow> Ok (t # terms, ts3)))"
    and loop_end: "before {sep} ts \<Longrightarrow> loop ts = Ok ([], ts)"
    and chain_def: "chain ts = (case operand ts of Err e \<Rightarrow> Err e
      | Ok (first, ts1) \<Rightarrow> (case loop ts1 of Err e \<Rightarrow> Err e
        | Ok (terms, ts2) \<Rightarrow> Ok (if terms = [] then first else C (first # terms), ts2)))"
    and sep_stop: "sep \<notin> stop"
begin

lemma loop_operands:
  "operands (reads stop operand) sep ts ms \<Longrightarrow> before (insert sep stop) rest \<Longrightarrow>
     loop (sep # ts @ rest) = Ok (ms, rest)"
proof (induction rule: operands.induct)
  case (single ts m)
  then have "operand (ts @ rest) = Ok (m, rest)" using before_mono by (auto simp: reads_def)
  moreover have "loop rest = Ok ([], rest)" using single before_mono by (blast intro: loop_end)
  ultimately show ?case by (simp add: loop_sep)
next
  case (more ts m us ms)
  then have "operand (ts @ sep # us @ rest) = Ok (m, sep # us @ rest)"
    using sep_stop by (simp add: reads_def before_def)
  then show ?case using more by (simp add: loop_sep [of "ts @ _"])
qed

lemma chain_operands:
  assumes "operands (reads stop operand) sep ts ms"
  shows "reads (insert sep stop) chain ts (mk C ms)"
  unfolding reads_def
proof (intro allI impI)
  fix rest assume b: "before (insert sep stop) rest"
  show "chain (ts @ rest) = Ok (mk C ms, rest)"
    using assms
  proof cases
    case (single m)
    then have "operand (ts @ rest) = Ok (m, rest)" using b before_mono by (auto simp: reads_def)
    moreover have "loop rest = Ok ([], rest)" using b before_mono by (blast intro: loop_end)
    ultimately show ?thesis using single by (simp add: chain_def)
  next
    case (more t m us ms')
    then have "operand (t @ sep # us @ rest) = Ok (m, sep # us @ rest)"
      using sep_stop by (simp add: reads_def before_def)
    moreover have "ms' \<noteq> []" using more operands_ne by blast
    ultimately show ?thesis using more loop_operands [OF more(4) b]
      by (cases ms') (simp_all add: chain_def)
  qed
qed

end

interpretation and_chain: operator_chain "parse_not N base d" "and_terms N base d" "parse_and N base d" TAnd "{LParen}" MAnd
  for N base d
proof unfold_locales
  fix ts :: "Tok list" assume "before {TAnd} ts"
  then show "and_terms N base d ts = Ok ([], ts)"
    by (auto simp: and_terms.simps [of _ _ _ ts] before_def split: list.splits Tok.splits)
qed (simp_all add: and_terms.simps [of _ _ _ "TAnd # _"] parse_and.simps)

interpretation or_chain: operator_chain "parse_and N base d" "or_terms N base d" "parse_or N base d" TOr "{LParen, TAnd}" MOr
  for N base d
proof unfold_locales
  fix ts :: "Tok list" assume "before {TOr} ts"
  then show "or_terms N base d ts = Ok ([], ts)"
    by (auto simp: or_terms.simps [of _ _ _ ts] before_def split: list.splits Tok.splits)
qed (simp_all add: or_terms.simps [of _ _ _ "TOr # _"] parse_or.simps)

section \<open>Atoms\<close>

lemma parse_not_atom:
  assumes "d < MAX_NESTING_DEPTH" "parse_atom N base (Suc d) (Word w # ts) = r"
  shows "parse_not N base d (Word w # ts) = r"
  using assms by (simp add: parse_not.simps)

lemma reads_pattern:
  assumes "d < MAX_NESTING_DEPTH" "pattern_to_matcher N base w = Ok m"
  shows "reads {LParen} (parse_not N base d) [Word w] m"
  using assms by (auto simp: reads_def before_def parse_atom.simps intro!: parse_not_atom split: list.splits Tok.splits)






section \<open>The whole grammar\<close>


lemma reads_parens:
  assumes "reads {TOr, LParen, TAnd} (parse_or N base (Suc d)) ts m" "d < MAX_NESTING_DEPTH"
  shows "reads {LParen} (parse_not N base d) (LParen # ts @ [RParen]) m"
proof -
  have "parse_or N base (Suc d) (ts @ RParen # rest) = Ok (m, RParen # rest)" for rest
    using assms(1) by (simp add: reads_def before_def)
  then show ?thesis using assms(2) by (simp add: reads_def parse_not.simps [of _ _ _ "LParen # _"] parse_atom.simps [of _ _ _ "LParen # _"])
qed






section \<open>Inlining is invisible to the evaluators\<close>

context tri_eval
begin

lemma eval_eqI:
  "(eval m c = MatchYes \<longleftrightarrow> eval n c = MatchYes) \<Longrightarrow> (eval m c = MatchNo \<longleftrightarrow> eval n c = MatchNo) \<Longrightarrow> eval m c = eval n c"
  by (cases "eval m c"; cases "eval n c") auto

lemma eval_mk: "eval (mk MAnd ms) c = eval (MAnd ms) c" "eval (mk MOr ms) c = eval (MOr ms) c"
  by (rule eval_eqI; cases "(MAnd, ms)" rule: mk.cases; simp add: connectives)
     (rule eval_eqI; cases "(MOr, ms)" rule: mk.cases; simp add: connectives)

lemma eval_items: "eval (MAnd (and_items m)) c = eval m c \<and> eval (MOr (or_items m)) c = eval m c"
proof (induction m)
  case (MOr cs)
  have i: "(\<exists>n\<in>set (or_items x). eval n c = MatchYes) = (eval x c = MatchYes)"
    "(\<forall>n\<in>set (or_items x). eval n c = MatchNo) = (eval x c = MatchNo)" if "x \<in> set cs" for x
    using MOr [OF that] by (metis Or_Yes, metis Or_No)
  have "eval (MOr (concat (map or_items cs))) c = eval (MOr cs) c"
    by (rule eval_eqI) (simp_all add: Or_Yes Or_No i)
  moreover have "eval (MAnd (and_items (MOr cs))) c = eval (MOr (concat (map or_items cs))) c"
    by (rule eval_eqI) (simp_all add: And_Yes And_No eval_mk)
  ultimately show ?case by simp
next
  case (MAnd cs)
  have i: "(\<forall>n\<in>set (and_items x). eval n c = MatchYes) = (eval x c = MatchYes)"
    "(\<exists>n\<in>set (and_items x). eval n c = MatchNo) = (eval x c = MatchNo)" if "x \<in> set cs" for x
    using MAnd [OF that] by (metis And_Yes, metis And_No)
  have "eval (MAnd (concat (map and_items cs))) c = eval (MAnd cs) c"
    by (rule eval_eqI) (simp_all add: And_Yes And_No i)
  moreover have "eval (MOr (or_items (MAnd cs))) c = eval (MAnd (concat (map and_items cs))) c"
    by (rule eval_eqI) (simp_all add: Or_Yes Or_No eval_mk)
  ultimately show ?case by simp
next
  case (MNot m)
  then show ?case by (auto intro!: eval_eqI simp: And_Yes And_No Or_Yes Or_No Not_Yes Not_No eval_mk)
qed (auto intro!: eval_eqI simp: And_Yes And_No Or_Yes Or_No)

lemma eval_norm: "eval (norm m) c = eval m c"
  by (simp add: norm_def eval_mk eval_items)

end

section \<open>The nesting limit\<close>

lemma tokenize_nots: "tokenize_loop acc (replicate n 33 @ s) = tokenize_loop (replicate n TNot @ acc) s"
  by (induction n arbitrary: acc) (simp_all add: tokenize_punct replicate_app_Cons_same del: tokenize_loop.simps)

lemma tokenize_opens: "tokenize_loop acc (replicate n 40 @ s) = tokenize_loop (replicate n LParen @ acc) s"
  by (induction n arbitrary: acc) (simp_all add: tokenize_punct replicate_app_Cons_same del: tokenize_loop.simps)

lemma tokenize_closes: "tokenize_loop acc (replicate n 41 @ s) = tokenize_loop (replicate n RParen @ acc) s"
  by (induction n arbitrary: acc) (simp_all add: tokenize_punct replicate_app_Cons_same del: tokenize_loop.simps)

lemma parse_nots:
  assumes "pattern_to_matcher N base w = Ok m"
  shows "parse_not N base d (replicate n TNot @ [Word w]) =
     (if d + n < MAX_NESTING_DEPTH then Ok ((MNot ^^ n) m, []) else Err NestedTooDeeply)"
proof (induction n arbitrary: d)
  case 0
  then show ?case using assms by (simp add: parse_not.simps [of _ _ d] parse_atom.simps)
next
  case (Suc n)
  then show ?case by (simp add: parse_not.simps [of _ _ d])
qed

lemma parse_opens:
  assumes "pattern_to_matcher N base w = Ok m"
  shows "d + n < MAX_NESTING_DEPTH \<Longrightarrow>
     reads {LParen} (parse_not N base d) (replicate n LParen @ Word w # replicate n RParen) m"
proof (induction n arbitrary: d)
  case 0
  then show ?case using assms by (simp add: reads_pattern)
next
  case (Suc n)
  let ?ts = "replicate n LParen @ Word w # replicate n RParen"
  have "reads {LParen} (parse_not N base (Suc d)) ?ts m" using Suc by simp
  then have "reads {TAnd, LParen} (parse_and N base (Suc d)) ?ts m"
    using and_chain.chain_operands [OF operands.single] by fastforce
  then have "reads {TOr, LParen, TAnd} (parse_or N base (Suc d)) ?ts m"
    using or_chain.chain_operands [OF operands.single] by (fastforce simp: insert_commute)
  then show ?case using reads_parens [of N base d ?ts m] Suc.prems by (simp add: replicate_append_same)
qed

lemma parse_opens_deep: "MAX_NESTING_DEPTH \<le> d + n \<Longrightarrow> parse_or N base d (replicate n LParen @ ts) = Err NestedTooDeeply"
proof (induction n arbitrary: d)
  case 0
  then show ?case by (simp add: parse_or.simps parse_and.simps parse_not.simps)
next
  case (Suc n)
  then show ?case
    by (simp add: parse_or.simps [of _ _ d] parse_and.simps [of _ _ d] parse_not.simps [of _ _ d]
        parse_atom.simps [of _ _ "Suc d" "LParen # _"])
qed

section \<open>Properties\<close>



text \<open>A quoted argument is read back character for character, whatever it contains: the literal
  reader stops exactly at the closing quote the printer wrote.\<close>

theorem quote_unescape_roundtrip:
  "quote_string s = c_quote # body \<longrightarrow> unescape_string [] (body @ rest) = Ok (s, rest)"
  using unescape_quoted [of "[]" s rest] by (auto simp: quote_string_def)

theorem quote_unescape_roundtrip_witness:
  "quote_string [97, 127, 98] = c_quote # [97, 92, 117, 123, 55, 102, 125, 98, 34]
   \<and> unescape_string [] ([97, 92, 117, 123, 55, 102, 125, 98, 34] @ [32]) = Ok ([97, 127, 98], [32])"
proof -
  have "quote_string [97, 127, 98] = c_quote # [97, 92, 117, 123, 55, 102, 125, 98, 34]"
    by (simp add: quote_string_def escape_char_def is_control_def fmt_hex.simps hex_digit_def)
  then show ?thesis
    using quote_unescape_roundtrip [of "[97, 127, 98]" "[97, 92, 117, 123, 55, 102, 125, 98, 34]" "[32]"] by blast
qed

text \<open>The nesting limit is exact, for negations and for parentheses: up to 255 levels around a
  pattern are read, and from 256 on the parser fails with its own error instead of descending
  further.\<close>

theorem query_nesting_limit:
  "query_parse N (replicate n 33 @ u ''//a'') base =
     (if n < 256 then Ok ((MNot ^^ n) (MPackage (u ''a''))) else Err NestedTooDeeply)
   \<and> query_parse N (replicate n 40 @ u ''//a'' @ replicate n 41) base =
     (if n < 256 then Ok (MPackage (u ''a'')) else Err NestedTooDeeply)"
proof -
  have "parse_htpkg (u ''//a'') base = Ok (MPackage (u ''a''))"
    using clean_pkg_fixpoint [of "u ''a''"] by (simp add: parse_htpkg_def strip_suffix_def clean_pkg_def normal_pkg_def components_def plain_seg_def)
  then have w: "pattern_to_matcher N base (u ''//a'') = Ok (MPackage (u ''a''))" by (simp add: pattern_to_matcher_def)
  have bare: "is_bare_word (u ''//a'')" by (simp add: is_bare_word_def is_word_break_def char_class_defs)
  have rest: "word_end (replicate n 41)" for n by (cases n) (simp_all add: word_end_def is_word_break_def)
  have "tokenize (replicate n 33 @ u ''//a'') = Ok (replicate n TNot @ [Word (u ''//a'')])"
    using tokenize_bare [OF bare, of "[]"] by (simp add: tokenize_def tokenize_nots word_end_def)
  moreover have "parse_or N base 0 (replicate n TNot @ [Word (u ''//a'')]) =
      (if n < 256 then Ok ((MNot ^^ n) (MPackage (u ''a'')), []) else Err NestedTooDeeply)"
    using parse_nots [OF w, of 0 n]
    by (simp add: parse_or.simps parse_and.simps and_terms.simps or_terms.simps MAX_NESTING_DEPTH_def)
  moreover have "tokenize (replicate n 40 @ u ''//a'' @ replicate n 41)
      = Ok (replicate n LParen @ Word (u ''//a'') # replicate n RParen)"
    using tokenize_bare [OF bare rest [of n]] tokenize_closes [of _ n "[]"] by (simp add: tokenize_def tokenize_opens)
  moreover have "parse_or N base 0 (replicate n LParen @ Word (u ''//a'') # replicate n RParen) =
      (if n < 256 then Ok (MPackage (u ''a''), []) else Err NestedTooDeeply)"
  proof (cases "n < 256")
    case True
    then have "parse_not N base 0 (replicate n LParen @ Word (u ''//a'') # replicate n RParen) = Ok (MPackage (u ''a''), [])"
      using parse_opens [OF w, of 0 n, unfolded reads_def, rule_format, of "[]"] by (simp add: MAX_NESTING_DEPTH_def before_def)
    then show ?thesis using True by (simp add: parse_or.simps parse_and.simps and_terms.simps or_terms.simps)
  next
    case False
    then show ?thesis using parse_opens_deep [of 0 n] by (simp add: MAX_NESTING_DEPTH_def)
  qed
  ultimately show ?thesis by (simp add: query_parse_def del: u.simps)
qed

text \<open>The printer is not the inverse of the parser on every matcher the parser can produce: a
  package with a colon, which \<^verbatim>\<open>package("a:b")\<close> accepts, is printed as the bare pattern
  \<^verbatim>\<open>//a:b\<close> and read back as an address, and the package named by an ellipsis is read back as
  the whole workspace.\<close>

theorem query_package_misprinted:
  assumes "nom_laws N"
  shows "query_parse N (u ''package(\"a:b\")'') base = Ok (MPackage (u ''a:b''))
    \<and> query_parse N (query_format (MPackage (u ''a:b''))) base
        = Ok (MAddr \<lparr> addr_package = u ''a'', addr_name = u ''b'', addr_args = [] \<rparr>)
    \<and> query_parse N (u ''package(...)'') base = Ok (MPackage (u ''...''))
    \<and> query_parse N (query_format (MPackage (u ''...''))) base = Ok (MPackagePrefix [])"
proof -
  have N: "N = nom_std" using assms by (rule nom_laws_unique)
  have pkg: "to_pkg (u ''a:b'') = Ok (u ''a:b'')" "to_pkg (u ''...'') = Ok (u ''...'')" by code_simp+
  have "parse_addr nom_std (u ''//a:b'') = Ok \<lparr> addr_package = u ''a'', addr_name = u ''b'', addr_args = [] \<rparr>" by code_simp
  then have addr: "pattern_to_matcher nom_std base (u ''//a:b'') = Ok (MAddr \<lparr> addr_package = u ''a'', addr_name = u ''b'', addr_args = [] \<rparr>)"
    by (simp add: pattern_to_matcher_def parse_addr_with_base_def starts_with_def)
  have ell: "pattern_to_matcher nom_std base (u ''//...'') = Ok (MPackagePrefix [])"
    by (simp add: pattern_to_matcher_def parse_htpkg_def)
  have bare: "query_format (MPackage (u ''a:b'')) = u ''//a:b''" "query_format (MPackage (u ''...'')) = u ''//...''"
    by (simp_all add: query_format_def fmt_pattern_def is_bare_word_def is_word_break_def char_class_defs)
  have word: "query_parse nom_std (u ''//'' @ w) base = pattern_to_matcher nom_std base (u ''//'' @ w)"
    if "is_bare_word (u ''//'' @ w)" for w
    using tokenize_bare [OF that, of "[]" "[]"]
    by (simp add: query_parse_def tokenize_def word_end_def parse_or.simps parse_and.simps parse_not.simps
        parse_atom.simps and_terms.simps or_terms.simps MAX_NESTING_DEPTH_def del: u.simps tokenize_loop.simps(2)
        split: sum.splits)
  have call: "parse_or nom_std base 0 [Word (u ''package''), LParen, t, RParen] = Ok (MPackage k, [])"
    if "t = Word k \<or> t = Str k" "to_pkg k = Ok k" for t k
    using that by (auto simp: parse_or.simps parse_and.simps parse_not.simps parse_atom.simps and_terms.simps or_terms.simps
        MAX_NESTING_DEPTH_def parse_call_def parse_call_arg_def call_matcher_def DRIVER_FN_def func_to_matcher_def)
  have toks: "tokenize (u ''package(\"a:b\")'') = Ok [Word (u ''package''), LParen, Str (u ''a:b''), RParen]"
    "tokenize (u ''package(...)'') = Ok [Word (u ''package''), LParen, Word (u ''...''), RParen]"
    by (simp_all add: tokenize_def is_word_break_def char_class_defs)
  have q: "query_parse nom_std (u ''package(\"a:b\")'') base = Ok (MPackage (u ''a:b''))"
    "query_parse nom_std (u ''package(...)'') base = Ok (MPackage (u ''...''))"
    using call [OF disjI2 pkg(1)] call [OF disjI1 pkg(2)] by (simp_all add: query_parse_def toks del: u.simps)
  have "is_bare_word (u ''//'' @ u ''a:b'')" "is_bare_word (u ''//'' @ u ''...'')"
    by (simp_all add: is_bare_word_def is_word_break_def char_class_defs)
  then have "query_parse nom_std (u ''//a:b'') base = pattern_to_matcher nom_std base (u ''//a:b'')"
    "query_parse nom_std (u ''//...'') base = pattern_to_matcher nom_std base (u ''//...'')"
    using word [of "u ''a:b''"] word [of "u ''...''"] by simp_all
  then show ?thesis using q addr ell unfolding N bare by simp
qed

theorem query_package_misprinted_witness:
  "nom_laws nom_std \<and> query_parse nom_std (query_format (MPackage (u ''...''))) [] = Ok (MPackagePrefix [])"
  using query_package_misprinted [OF nom_std_laws] nom_std_laws by blast

end
