(* ===== verification/Capacity.thy ===== *)
theory Capacity
  imports Prelude
begin

text \<open>
  Amounts as people write them: sizes and durations (core/units.rs), pool units and capacities
  (core/capacity.rs), and what a target declares it reserves (plugin/driver.rs, \<^verbatim>\<open>Resources\<close>
  and \<^verbatim>\<open>Demand\<close>).

  A \<^verbatim>\<open>u64\<close> is a natural number up to \<open>U64_MAX\<close>; the checked and saturating operations write
  the bound out.  Error values keep the text or the pool they name.
\<close>

section \<open>Machine numbers and their decimal text\<close>

definition U64_MAX :: nat where "U64_MAX = 2 ^ 64 - 1"

definition checked_add :: "nat \<Rightarrow> nat \<Rightarrow> nat option" where
  "checked_add a b = (if a + b \<le> U64_MAX then Some (a + b) else None)"

definition checked_mul :: "nat \<Rightarrow> nat \<Rightarrow> nat option" where
  "checked_mul a b = (if a * b \<le> U64_MAX then Some (a * b) else None)"

definition saturating_add :: "nat \<Rightarrow> nat \<Rightarrow> nat" where
  "saturating_add a b = min (a + b) U64_MAX"

definition saturating_mul :: "nat \<Rightarrow> nat \<Rightarrow> nat" where
  "saturating_mul a b = min (a * b) U64_MAX"

fun fmt_nat :: "nat \<Rightarrow> rstr" where
  "fmt_nat n = (if n < 10 then [48 + n] else fmt_nat (n div 10) @ [48 + n mod 10])"

declare fmt_nat.simps [simp del]

definition digits_val :: "rstr \<Rightarrow> nat" where
  "digits_val s = foldl (\<lambda>n c. 10 * n + (c - 48)) 0 s"

text \<open>\<^verbatim>\<open>str::parse::<u64>\<close> on text that holds ASCII digits only.\<close>

definition parse_u64 :: "rstr \<Rightarrow> nat option" where
  "parse_u64 s = (if s \<noteq> [] \<and> digits_val s \<le> U64_MAX then Some (digits_val s) else None)"

definition pad0 :: "nat \<Rightarrow> rstr \<Rightarrow> rstr" where
  "pad0 w s = replicate (w - length s) 48 @ s"

definition to_ascii_lowercase :: "rstr \<Rightarrow> rstr" where
  "to_ascii_lowercase s = map (\<lambda>c. if is_ascii_uppercase c then c + 32 else c) s"

section \<open>Sizes and durations\<close>

datatype unit_error = NotANumber rstr | UnknownUnit rstr | Overflows rstr | EmptyDuration | NotADuration rstr
  | NotACount rstr | NotCpus rstr | TooManyCpus rstr | BelowSmallestStep rstr

definition size_mult :: "rstr \<Rightarrow> nat option" where
  "size_mult unit = (if unit \<in> {u '''', u ''b''} then Some 1
     else if unit \<in> {u ''k'', u ''kb'', u ''kib''} then Some 1024
     else if unit \<in> {u ''m'', u ''mb'', u ''mib''} then Some (1024 * 1024)
     else if unit \<in> {u ''g'', u ''gb'', u ''gib''} then Some (1024 * 1024 * 1024)
     else if unit \<in> {u ''t'', u ''tb'', u ''tib''} then Some (1024 * 1024 * 1024 * 1024)
     else None)"

definition parse_size :: "rstr \<Rightarrow> unit_error + nat" where
  "parse_size s = (let t = trim s; num = takeWhile is_ascii_digit t; unit = dropWhile is_ascii_digit t
     in case parse_u64 num of
          None \<Rightarrow> Err (NotANumber s)
        | Some n \<Rightarrow> (case size_mult (to_ascii_lowercase (trim unit)) of
            None \<Rightarrow> Err (UnknownUnit s)
          | Some mult \<Rightarrow> (case checked_mul n mult of None \<Rightarrow> Err (Overflows s) | Some b \<Rightarrow> Ok b)))"

definition parse_memory_size :: "rstr \<Rightarrow> unit_error + nat" where
  "parse_memory_size s = (let num = takeWhile is_ascii_digit s; unit = dropWhile is_ascii_digit s
     in if num = [] then Err (NotANumber s)
        else case parse_u64 num of
          None \<Rightarrow> Err (Overflows s)
        | Some n \<Rightarrow> (case size_mult (to_ascii_lowercase unit) of
            None \<Rightarrow> Err (UnknownUnit s)
          | Some mult \<Rightarrow> (case checked_mul n mult of None \<Rightarrow> Err (Overflows s) | Some b \<Rightarrow> Ok b)))"

definition duration_mult :: "rstr \<Rightarrow> nat option" where
  "duration_mult unit = (if unit \<in> {u '''', u ''s'', u ''sec'', u ''secs''} then Some 1
     else if unit \<in> {u ''m'', u ''min'', u ''mins''} then Some 60
     else if unit \<in> {u ''h'', u ''hr'', u ''hrs''} then Some 3600
     else if unit = u ''d'' then Some 86400
     else None)"

text \<open>The loop over the terms of a duration; \<open>s\<close> is the text the errors show.\<close>

function duration_loop :: "rstr \<Rightarrow> nat \<Rightarrow> rstr \<Rightarrow> unit_error + nat" where
  "duration_loop s tot rest =
     (if rest = [] then Ok tot
      else let num = takeWhile is_ascii_digit rest; tail = dropWhile is_ascii_digit rest;
               unit = takeWhile (\<lambda>c. \<not> is_ascii_digit c) tail; next = dropWhile (\<lambda>c. \<not> is_ascii_digit c) tail
      in if num = [] then Err (NotADuration s)
         else case parse_u64 num of
           None \<Rightarrow> Err (NotADuration s)
         | Some n \<Rightarrow> (case duration_mult (to_ascii_lowercase (trim unit)) of
             None \<Rightarrow> Err (UnknownUnit s)
           | Some mult \<Rightarrow> (case checked_add tot (saturating_mul n mult) of
               None \<Rightarrow> Err (Overflows s)
             | Some tot' \<Rightarrow> duration_loop s tot' next)))"
  by pat_completeness auto

lemma duration_rest_shorter:
  assumes "takeWhile P rest \<noteq> []"
  shows "length (dropWhile Q (dropWhile P rest)) < length rest"
proof -
  have "length (dropWhile Q (dropWhile P rest)) \<le> length (dropWhile P rest)" by (rule length_dropWhile_le)
  also have "\<dots> < length rest" using assms by (cases rest) (auto simp: less_Suc_eq_le length_dropWhile_le split: if_splits)
  finally show ?thesis .
qed

termination duration_loop
  by (relation "measure (\<lambda>(s, tot, rest). length rest)") (auto dest: duration_rest_shorter simp: Let_def)

declare duration_loop.simps [simp del]

text \<open>The flag \<^verbatim>\<open>any\<close> is set by the first turn, which the non-empty text always takes.\<close>

definition parse_duration :: "rstr \<Rightarrow> unit_error + nat" where
  "parse_duration s = (let t = trim s in if t = [] then Err EmptyDuration else duration_loop s 0 t)"

definition human_duration :: "nat \<Rightarrow> rstr" where
  "human_duration secs =
     (if secs < 60 then fmt_nat secs @ u ''s''
      else if secs < 3600 then fmt_nat (secs div 60) @ u ''m'' @ pad0 2 (fmt_nat (secs mod 60)) @ u ''s''
      else if secs < 86400 then fmt_nat (secs div 3600) @ u ''h'' @ pad0 2 (fmt_nat ((secs mod 3600) div 60)) @ u ''m''
      else fmt_nat (secs div 86400) @ u ''d'' @ pad0 2 (fmt_nat ((secs mod 86400) div 3600)) @ u ''h'')"

section \<open>Units\<close>

definition MICROS_PER_CPU :: nat where "MICROS_PER_CPU = 1000000"

definition CPU :: rstr where "CPU = u ''cpu''"

definition MEMORY :: rstr where "MEMORY = u ''memory''"

definition MAX_POOL_NAME_LEN :: nat where "MAX_POOL_NAME_LEN = 64"

definition is_pool_name :: "rstr \<Rightarrow> bool" where
  "is_pool_name s \<longleftrightarrow> (case s of
     [] \<Rightarrow> False
   | b # bytes \<Rightarrow> is_ascii_lowercase b \<and> byte_len s \<le> MAX_POOL_NAME_LEN
       \<and> list_all (\<lambda>b. is_ascii_lowercase b \<or> is_ascii_digit b \<or> b = c_underscore) bytes)"

datatype Unit = UCount | UCpu | UBytes

fun unit_name :: "Unit \<Rightarrow> rstr" where
  "unit_name UCount = u ''count''"
| "unit_name UCpu = u ''cpu''"
| "unit_name UBytes = u ''bytes''"

definition unit_from_name :: "rstr \<Rightarrow> Unit option" where
  "unit_from_name s = find (\<lambda>x. unit_name x = s) [UCount, UCpu, UBytes]"

definition of_builtin :: "rstr \<Rightarrow> Unit option" where
  "of_builtin pool = (if pool = CPU then Some UCpu else if pool = MEMORY then Some UBytes else None)"

definition default_for :: "rstr \<Rightarrow> Unit" where
  "default_for pool = (case of_builtin pool of Some x \<Rightarrow> x | None \<Rightarrow> UCount)"

definition whole :: "rstr \<Rightarrow> nat option" where
  "whole s = (if s = [] \<or> \<not> list_all is_ascii_digit s then None else parse_u64 s)"

text \<open>The six digits after the point (missing ones are 0), and the rounding on the seventh.\<close>

definition cpu_part :: "rstr \<Rightarrow> nat" where
  "cpu_part frac = digits_val (take 6 (frac @ replicate 6 48))
     + (if length frac > 6 \<and> frac ! 6 - 48 \<ge> 5 then 1 else 0)"

definition parse_cpu :: "rstr \<Rightarrow> unit_error + nat" where
  "parse_cpu s = (let (int_text, frac) = (case split_once c_dot s of Some (i, f) \<Rightarrow> (i, Some f) | None \<Rightarrow> (s, None))
     in case whole int_text of
          None \<Rightarrow> Err (NotCpus s)
        | Some n \<Rightarrow> (case checked_mul n MICROS_PER_CPU of
            None \<Rightarrow> Err (TooManyCpus s)
          | Some micros \<Rightarrow> (case frac of
              None \<Rightarrow> Ok micros
            | Some f \<Rightarrow> if f = [] \<or> \<not> list_all is_ascii_digit f then Err (NotCpus s)
                else (case checked_add micros (cpu_part f) of
                    None \<Rightarrow> Err (TooManyCpus s)
                  | Some m \<Rightarrow> if m = 0 \<and> list_ex (\<lambda>b. b \<noteq> 48) f then Err (BelowSmallestStep s) else Ok m))))"

fun unit_parse :: "Unit \<Rightarrow> rstr \<Rightarrow> unit_error + nat" where
  "unit_parse UCount s = (case whole s of None \<Rightarrow> Err (NotACount s) | Some n \<Rightarrow> Ok n)"
| "unit_parse UCpu s = parse_cpu s"
| "unit_parse UBytes s = parse_memory_size s"

definition div_ceil :: "nat \<Rightarrow> nat \<Rightarrow> nat" where
  "div_ceil a b = (if a mod b = 0 then a div b else a div b + 1)"

fun unit_render :: "Unit \<Rightarrow> nat \<Rightarrow> rstr" where
  "unit_render UCpu amount = fmt_nat (div_ceil amount MICROS_PER_CPU)"
| "unit_render _ amount = fmt_nat amount"

fun canonical :: "Unit \<Rightarrow> nat \<Rightarrow> rstr" where
  "canonical UCpu amount = (let int = amount div MICROS_PER_CPU; frac = amount mod MICROS_PER_CPU
     in if frac = 0 then fmt_nat int
        else fmt_nat int @ u ''.'' @ trim_end_matches (\<lambda>c. c = 48) (pad0 6 (fmt_nat frac)))"
| "canonical _ amount = fmt_nat amount"

section \<open>Capacities\<close>

datatype Capacity = Amount nat | Percent nat

datatype Zero = ZeroAllowed | ZeroRefused

datatype capacity_error = PercentOfNothing rstr | NotAPercentage rstr | EmptyPercentage rstr
  | BadAmount unit_error | ZeroForRun rstr | BuiltinUnit rstr Unit Unit

definition capacity_parse :: "rstr \<Rightarrow> Unit \<Rightarrow> rstr \<Rightarrow> Zero \<Rightarrow> capacity_error + Capacity" where
  "capacity_parse pool unit s zero = (case strip_suffix (u ''%'') s of
     Some digits \<Rightarrow>
       if of_builtin pool = None then Err (PercentOfNothing s)
       else (case whole digits of
           None \<Rightarrow> Err (NotAPercentage s)
         | Some pct \<Rightarrow> if pct = 0 then Err (EmptyPercentage s) else Ok (Percent pct))
   | None \<Rightarrow> (case unit_parse unit s of
       Err e \<Rightarrow> Err (BadAmount e)
     | Ok amount \<Rightarrow> if amount = 0 \<and> zero = ZeroRefused then Err (ZeroForRun s) else Ok (Amount amount)))"

text \<open>The product of two \<^verbatim>\<open>u64\<close> and the rounding term fit the \<^verbatim>\<open>u128\<close> it is computed in.\<close>

fun resolve_capacity :: "Capacity \<Rightarrow> Unit \<Rightarrow> nat \<Rightarrow> nat" where
  "resolve_capacity (Amount n) unit dflt = n"
| "resolve_capacity (Percent pct) unit dflt =
     (let scaled = dflt * pct;
          n = (if unit = UCpu then max ((scaled + 50) div 100) 1 else scaled div 100)
      in if n \<le> U64_MAX then n else U64_MAX)"

record PoolSpec =
  ps_unit :: Unit
  ps_capacity :: "Capacity option"

definition from_written :: "rstr \<Rightarrow> Unit option \<Rightarrow> rstr option \<Rightarrow> capacity_error + PoolSpec" where
  "from_written pool unit value =
     (case (case (unit, of_builtin pool) of
         (Some x, Some fixed) \<Rightarrow> if x \<noteq> fixed then Err (BuiltinUnit pool fixed x) else Ok x
       | (Some x, None) \<Rightarrow> Ok x
       | (None, _) \<Rightarrow> Ok (default_for pool)) of
      Err e \<Rightarrow> Err e
    | Ok x \<Rightarrow> (case value of
        None \<Rightarrow> Ok \<lparr> ps_unit = x, ps_capacity = None \<rparr>
      | Some v \<Rightarrow> (case capacity_parse pool x v ZeroAllowed of
          Err e \<Rightarrow> Err e | Ok c \<Rightarrow> Ok \<lparr> ps_unit = x, ps_capacity = Some c \<rparr>)))"

section \<open>What a target declares\<close>

type_synonym PoolName = rstr

text \<open>\<^verbatim>\<open>Resources\<close> and \<^verbatim>\<open>Demand\<close>: their map of declared pools, in name order.\<close>

record Resources =
  res_declared :: "(PoolName \<times> rstr) list"

record Demand =
  dem_declared :: "(PoolName \<times> nat) list"

definition MAX_POOLS :: nat where "MAX_POOLS = 16"

definition DEFAULT_CPU_MICROS :: nat where "DEFAULT_CPU_MICROS = MICROS_PER_CPU"

datatype resource_error = BadPoolName rstr | TooManyPools PoolName | NotAPool PoolName | BadPoolAmount PoolName unit_error

definition pool_name_try_from :: "rstr \<Rightarrow> resource_error + PoolName" where
  "pool_name_try_from s = (if is_pool_name s then Ok s else Err (BadPoolName s))"

definition resources_insert :: "PoolName \<Rightarrow> rstr \<Rightarrow> Resources \<Rightarrow> resource_error + Resources" where
  "resources_insert pool amount self =
     (if length (res_declared self) \<ge> MAX_POOLS \<and> bt_lookup (res_declared self) pool = None then Err (TooManyPools pool)
      else Ok (self\<lparr> res_declared := bt_insert pool amount (res_declared self) \<rparr>))"

definition advertise :: "PoolName \<Rightarrow> rstr \<Rightarrow> Resources \<Rightarrow> resource_error + Resources" where
  "advertise pool amount self =
     (if bt_lookup (res_declared self) pool = None then resources_insert pool amount self else Ok self)"

fun resources_from_pairs :: "(rstr \<times> rstr) list \<Rightarrow> Resources \<Rightarrow> resource_error + Resources" where
  "resources_from_pairs [] out = Ok out"
| "resources_from_pairs ((k, v) # pairs) out = (case pool_name_try_from k of
     Err e \<Rightarrow> Err e
   | Ok pool \<Rightarrow> (case resources_insert pool v out of Err e \<Rightarrow> Err e | Ok out' \<Rightarrow> resources_from_pairs pairs out'))"

fun resources_parse_loop ::
  "(rstr \<Rightarrow> Unit option) \<Rightarrow> (PoolName \<times> rstr) list \<Rightarrow> (PoolName \<times> nat) list \<Rightarrow> resource_error + (PoolName \<times> nat) list" where
  "resources_parse_loop unit_of [] out = Ok out"
| "resources_parse_loop unit_of ((pool, text) # ds) out = (case unit_of pool of
     None \<Rightarrow> Err (NotAPool pool)
   | Some unit \<Rightarrow> (case unit_parse unit text of
       Err e \<Rightarrow> Err (BadPoolAmount pool e)
     | Ok amount \<Rightarrow> resources_parse_loop unit_of ds (bt_insert pool amount out)))"

definition resources_parse :: "(rstr \<Rightarrow> Unit option) \<Rightarrow> Resources \<Rightarrow> resource_error + Demand" where
  "resources_parse unit_of self = (case resources_parse_loop unit_of (res_declared self) [] of
     Err e \<Rightarrow> Err e | Ok declared \<Rightarrow> Ok \<lparr> dem_declared = declared \<rparr>)"

fun demand_from_pairs :: "(rstr \<times> nat) list \<Rightarrow> Demand \<Rightarrow> resource_error + Demand" where
  "demand_from_pairs [] out = Ok out"
| "demand_from_pairs ((k, v) # pairs) out = (case pool_name_try_from k of
     Err e \<Rightarrow> Err e
   | Ok pool \<Rightarrow>
       if length (dem_declared out) \<ge> MAX_POOLS \<and> bt_lookup (dem_declared out) pool = None then Err (TooManyPools pool)
       else demand_from_pairs pairs (out\<lparr> dem_declared := bt_insert pool v (dem_declared out) \<rparr>))"

definition demand_declared :: "Demand \<Rightarrow> rstr \<Rightarrow> nat option" where
  "demand_declared self pool = bt_lookup (dem_declared self) pool"

definition demand_amount :: "Demand \<Rightarrow> rstr \<Rightarrow> nat" where
  "demand_amount self pool = (case demand_declared self pool of
     Some n \<Rightarrow> n | None \<Rightarrow> if pool = CPU then DEFAULT_CPU_MICROS else 0)"

definition reserves :: "Demand \<Rightarrow> rstr \<Rightarrow> bool" where
  "reserves self pool \<longleftrightarrow> pool = CPU \<or> (case demand_declared self pool of Some n \<Rightarrow> n > 0 | None \<Rightarrow> False)"

section \<open>Decimal text\<close>

lemma digits_val_append: "digits_val (s @ t) = digits_val s * 10 ^ length t + digits_val t"
proof -
  have "foldl (\<lambda>n c. 10 * n + (c - 48)) a t = a * 10 ^ length t + foldl (\<lambda>n c. 10 * n + (c - 48)) 0 t" for a
  proof (induction t rule: rev_induct)
    case (snoc c t)
    then show ?case by (simp add: algebra_simps)
  qed simp
  then show ?thesis unfolding digits_val_def foldl_append .
qed

lemma digits_val_single [simp]: "digits_val [c] = c - 48"
  by (simp add: digits_val_def)

lemma digits_val_zeros [simp]: "digits_val (replicate n 48) = 0"
  by (induction n) (simp_all add: digits_val_def)

lemma fmt_nat_ne [simp]: "fmt_nat n \<noteq> []"
  by (subst fmt_nat.simps) simp

lemma fmt_nat_digits: "list_all is_ascii_digit (fmt_nat n)"
proof (induction n rule: fmt_nat.induct)
  case (1 n)
  have "n mod 10 \<le> 9" by (simp add: less_Suc_eq_le [symmetric])
  then have "is_ascii_digit (48 + n mod 10)" "n < 10 \<Longrightarrow> is_ascii_digit (48 + n)" by (simp_all add: is_ascii_digit_def)
  then show ?case using 1 by (subst fmt_nat.simps) simp
qed

lemma fmt_nat_val [simp]: "digits_val (fmt_nat n) = n"
proof (induction n rule: fmt_nat.induct)
  case (1 n)
  then show ?case by (subst fmt_nat.simps) (simp add: digits_val_append)
qed

lemma fmt_nat_length: "0 < k \<Longrightarrow> n < 10 ^ k \<Longrightarrow> length (fmt_nat n) \<le> k"
proof (induction n arbitrary: k rule: fmt_nat.induct)
  case (1 n)
  show ?case
  proof (cases "n < 10")
    case False
    then obtain k' where k: "k = Suc k'" "0 < k'" using 1 by (cases k; cases "k - 1") auto
    then have "n div 10 < 10 ^ k'" using 1 by (simp add: less_mult_imp_div_less mult.commute)
    then show ?thesis using 1(1) [OF False] False k by (subst fmt_nat.simps) auto
  qed (use 1 in \<open>subst fmt_nat.simps, simp\<close>)
qed

lemma parse_u64_fmt: "n \<le> U64_MAX \<Longrightarrow> parse_u64 (fmt_nat n) = Some n"
  by (simp add: parse_u64_def)

lemma whole_fmt: "n \<le> U64_MAX \<Longrightarrow> whole (fmt_nat n) = Some n"
  by (simp add: whole_def fmt_nat_digits parse_u64_fmt)

lemma pad0_digits: "list_all is_ascii_digit s \<Longrightarrow> list_all is_ascii_digit (pad0 w s)"
  by (auto simp: pad0_def list_all_iff is_ascii_digit_def)

lemma pad0_val: "digits_val (pad0 w s) = digits_val s"
  by (simp add: pad0_def digits_val_append)

lemma digits_no_dot: "list_all is_ascii_digit s \<Longrightarrow> c_dot \<notin> set s"
  by (auto simp: list_all_iff is_ascii_digit_def)

lemma split_once_first: "c \<notin> set a \<Longrightarrow> split_once c (a @ c # b) = Some (a, b)"
  by (induction a) auto

lemma split_once_absent: "c \<notin> set a \<Longrightarrow> split_once c a = None"
  by (induction a) auto

lemma trim_end_zeros:
  obtains k where "s = trim_end_matches (\<lambda>c. c = 48) s @ replicate k 48"
proof -
  have "rev s = takeWhile (\<lambda>c. c = 48) (rev s) @ dropWhile (\<lambda>c. c = 48) (rev s)" by simp
  moreover have "takeWhile (\<lambda>c. c = 48) (rev s) = replicate (length (takeWhile (\<lambda>c. c = 48) (rev s))) 48"
    by (rule replicate_eqI [symmetric, THEN sym]) (auto dest: set_takeWhileD)
  ultimately have "s = trim_end_matches (\<lambda>c. c = 48) s @ replicate (length (takeWhile (\<lambda>c. c = 48) (rev s))) 48"
    unfolding trim_end_matches_def by (metis rev_append rev_replicate rev_rev_ident)
  then show ?thesis by (rule that)
qed

lemma parse_cpu_canonical:
  assumes "amount \<le> U64_MAX"
  shows "parse_cpu (canonical UCpu amount) = Ok amount"
proof -
  let ?i = "amount div MICROS_PER_CPU" and ?f = "amount mod MICROS_PER_CPU"
  have i: "whole (fmt_nat ?i) = Some ?i" using assms div_le_dividend [of amount MICROS_PER_CPU] by (intro whole_fmt) linarith
  have m: "checked_mul ?i MICROS_PER_CPU = Some (?i * MICROS_PER_CPU)"
    using assms div_times_less_eq_dividend [of amount MICROS_PER_CPU] unfolding checked_mul_def by (meson le_trans)
  have dot: "c_dot \<notin> set (fmt_nat ?i)" by (rule digits_no_dot [OF fmt_nat_digits])
  show ?thesis
  proof (cases "?f = 0")
    case True
    then have "?i * MICROS_PER_CPU = amount" by (metis add.right_neutral div_mult_mod_eq)
    then show ?thesis using True i m dot by (simp add: parse_cpu_def split_once_absent Let_def)
  next
    case False
    define p where "p = pad0 6 (fmt_nat ?f)"
    define t where "t = trim_end_matches (\<lambda>c. c = 48) p"
    obtain k where k: "p = t @ replicate k 48" using trim_end_zeros [of p] unfolding t_def by blast
    have "length (fmt_nat ?f) \<le> 6" by (rule fmt_nat_length) (simp_all add: MICROS_PER_CPU_def)
    then have len: "length p = 6" by (simp add: p_def pad0_def)
    have val: "digits_val p = ?f" by (simp add: p_def pad0_val)
    have digits: "list_all is_ascii_digit t" using pad0_digits [OF fmt_nat_digits, of 6 ?f] k by (simp add: p_def [symmetric])
    have ne: "t \<noteq> []" using k val False by (metis append_Nil digits_val_zeros)
    have "take 6 (t @ replicate 6 48) = p"
    proof -
      have "k \<le> 6" "length t = 6 - k" using len k by (auto dest: arg_cong [of _ _ length])
      then show ?thesis using k by (simp add: min_def)
    qed
    moreover have "length t \<le> 6" using len k by (auto dest: arg_cong [of _ _ length])
    ultimately have part: "cpu_part t = ?f" by (simp add: cpu_part_def val)
    have sum: "?i * MICROS_PER_CPU + ?f = amount" by simp
    have "checked_add (?i * MICROS_PER_CPU) (cpu_part t) = Some amount"
      using assms by (simp add: checked_add_def part sum)
    moreover have "amount \<noteq> 0" using False by (cases amount) auto
    moreover have "canonical UCpu amount = fmt_nat ?i @ c_dot # t" using False by (simp add: Let_def t_def p_def)
    ultimately show ?thesis using i m digits ne split_once_first [OF dot, of t] by (simp add: parse_cpu_def)
  qed
qed

section \<open>Sizes\<close>

lemma digit_run:
  assumes "list_all P num" "\<not> list_all P rest \<or> rest = []" "rest = [] \<or> \<not> P (hd rest)"
  shows "takeWhile P (num @ rest) = num" "dropWhile P (num @ rest) = rest"
  using assms by (cases rest; auto simp: takeWhile_append dropWhile_append list_all_iff)+

lemma trim_id: "list_all (\<lambda>c. \<not> is_whitespace c) s \<Longrightarrow> trim s = s"
proof -
  assume a: "list_all (\<lambda>c. \<not> is_whitespace c) s"
  have "dropWhile is_whitespace t = t" if "list_all (\<lambda>c. \<not> is_whitespace c) t" for t
    using that by (cases t) auto
  then show ?thesis using a by (simp add: trim_def trim_start_matches_def trim_end_matches_def)
qed

lemma digit_not_space: "is_ascii_digit c \<Longrightarrow> \<not> is_whitespace c"
  by (auto simp: is_ascii_digit_def is_whitespace_def)

lemma lower_space: "is_whitespace c \<Longrightarrow> c \<in> set s \<Longrightarrow> c \<in> set (to_ascii_lowercase s)"
proof -
  assume c: "is_whitespace c" "c \<in> set s"
  then have "(if is_ascii_uppercase c then c + 32 else c) = c" by (auto simp: is_whitespace_def is_ascii_uppercase_def)
  then show ?thesis unfolding to_ascii_lowercase_def set_map by (intro image_eqI [where x = c]) (use c in simp_all)
qed

definition size_units :: "rstr set" where
  "size_units = {u '''', u ''b'', u ''k'', u ''kb'', u ''kib'', u ''m'', u ''mb'', u ''mib'', u ''g'', u ''gb'', u ''gib'',
     u ''t'', u ''tb'', u ''tib''}"

lemma size_units_plain: "t \<in> size_units \<Longrightarrow> c \<in> set t \<Longrightarrow> c \<in> {98, 103, 105, 107, 109, 116}"
  unfolding size_units_def by auto

lemma size_mult_units: "size_mult t = Some m \<Longrightarrow> t \<in> size_units"
  unfolding size_mult_def size_units_def by (simp split: if_splits del: u.simps) blast+

lemma size_unit_plain:
  assumes "size_mult (to_ascii_lowercase s) = Some m"
  shows "list_all (\<lambda>c. \<not> is_whitespace c) s"
proof -
  have "\<not> is_whitespace c" if "c \<in> set s" for c
  proof
    assume w: "is_whitespace c"
    have "c \<in> set (to_ascii_lowercase s)" using lower_space [OF w that] .
    then have "c \<in> {98, 103, 105, 107, 109, 116}" using size_units_plain [OF size_mult_units [OF assms]] by blast
    then show False using w by (auto simp: is_whitespace_def)
  qed
  then show ?thesis by (simp add: list_all_iff)
qed

lemma memory_size_parse_size:
  assumes "parse_memory_size s = Ok n"
  shows "parse_size s = Ok n"
proof -
  define num unit where "num = takeWhile is_ascii_digit s" and "unit = dropWhile is_ascii_digit s"
  obtain v m where nm: "parse_u64 num = Some v" "size_mult (to_ascii_lowercase unit) = Some m" "checked_mul v m = Some n"
    using assms by (auto simp: parse_memory_size_def Let_def num_def unit_def split: if_splits option.splits)
  have plain: "list_all (\<lambda>c. \<not> is_whitespace c) unit" using size_unit_plain nm(2) by blast
  moreover have "list_all (\<lambda>c. \<not> is_whitespace c) num"
    using digit_not_space by (auto simp: num_def list_all_iff dest: set_takeWhileD)
  moreover have "s = num @ unit" by (simp add: num_def unit_def)
  ultimately have "list_all (\<lambda>c. \<not> is_whitespace c) s" by (metis list_all_append)
  then have "trim s = s" by (rule trim_id)
  moreover have "trim unit = unit" using plain by (rule trim_id)
  ultimately show ?thesis using nm by (simp add: parse_size_def Let_def num_def [symmetric] unit_def [symmetric])
qed

lemma digits_all:
  assumes "list_all P s"
  shows "takeWhile P s = s" "dropWhile P s = []"
  using assms by (auto simp: takeWhile_eq_all_conv list_all_iff)

lemma memory_size_fmt: "n \<le> U64_MAX \<Longrightarrow> parse_memory_size (fmt_nat n) = Ok n"
  by (simp add: digits_all [OF fmt_nat_digits] Let_def parse_memory_size_def parse_u64_fmt to_ascii_lowercase_def size_mult_def checked_mul_def)

section \<open>Durations\<close>

lemma duration_term:
  assumes "list_all is_ascii_digit num" "num \<noteq> []" "digits_val num \<le> U64_MAX" "\<not> is_ascii_digit c"
    "duration_mult (to_ascii_lowercase (trim [c])) = Some m" "nxt = [] \<or> is_ascii_digit (hd nxt)"
    "t + digits_val num * m \<le> U64_MAX"
  shows "duration_loop s t (num @ c # nxt) = duration_loop s (t + digits_val num * m) nxt"
proof -
  have run: "takeWhile is_ascii_digit (num @ c # nxt) = num" "dropWhile is_ascii_digit (num @ c # nxt) = c # nxt"
    using digit_run [OF assms(1), of "c # nxt"] assms(4) by auto
  have unit: "takeWhile (\<lambda>c. \<not> is_ascii_digit c) (c # nxt) = [c]" "dropWhile (\<lambda>c. \<not> is_ascii_digit c) (c # nxt) = nxt"
    using assms(4,6) by (cases nxt; auto)+
  have "saturating_mul (digits_val num) m = digits_val num * m" using assms(7) by (simp add: saturating_mul_def)
  then have "checked_add t (saturating_mul (digits_val num) m) = Some (t + digits_val num * m)"
    using assms(7) by (simp add: checked_add_def)
  then show ?thesis using assms(2,3,5) by (subst duration_loop.simps) (simp add: run unit parse_u64_def Let_def del: takeWhile.simps dropWhile.simps)
qed

lemma duration_end [simp]: "duration_loop s t [] = Ok t"
  by (simp add: duration_loop.simps)

lemma duration_units:
  "duration_mult (to_ascii_lowercase (trim (u ''s''))) = Some 1" "duration_mult (to_ascii_lowercase (trim (u ''m''))) = Some 60"
  "duration_mult (to_ascii_lowercase (trim (u ''h''))) = Some 3600" "duration_mult (to_ascii_lowercase (trim (u ''d''))) = Some 86400"
  by (simp_all add: trim_id is_whitespace_def to_ascii_lowercase_def is_ascii_uppercase_def duration_mult_def)

lemma parse_two_terms:
  assumes "list_all is_ascii_digit a" "a \<noteq> []" "list_all is_ascii_digit b" "b \<noteq> []"
    "c \<in> {115, 109, 104, 100}" "d \<in> {115, 109, 104, 100}"
    "duration_mult (to_ascii_lowercase (trim [c])) = Some m" "duration_mult (to_ascii_lowercase (trim [d])) = Some k"
    "digits_val a * m + digits_val b * k \<le> U64_MAX" "0 < m" "0 < k"
  shows "parse_duration (a @ c # b @ [d]) = Ok (digits_val a * m + digits_val b * k)"
proof -
  have "digits_val a \<le> digits_val a * m" "digits_val b \<le> digits_val b * k" using assms(10,11) by simp_all
  then have le: "digits_val a \<le> U64_MAX" "digits_val b \<le> U64_MAX" "0 + digits_val a * m \<le> U64_MAX" using assms(9) by linarith+
  have nd: "\<not> is_ascii_digit c" "\<not> is_ascii_digit d" using assms(5,6) by (auto simp: is_ascii_digit_def)
  have "is_ascii_digit (hd (b @ [d]))" using assms(3,4) by (cases b) auto
  then have "duration_loop s 0 (a @ c # b @ [d]) = duration_loop s (0 + digits_val a * m) (b @ [d])" for s
    using duration_term [OF assms(1,2) le(1) nd(1) assms(7) _ le(3)] by blast
  moreover have "duration_loop s (0 + digits_val a * m) (b @ [d]) = duration_loop s (0 + digits_val a * m + digits_val b * k) []" for s
    by (rule duration_term [OF assms(3,4) le(2) nd(2) assms(8)]) (use assms(9) in simp_all)
  moreover have "trim (a @ c # b @ [d]) = a @ c # b @ [d]"
  proof (rule trim_id)
    have "\<not> is_whitespace c" "\<not> is_whitespace d" using assms(5,6) by (auto simp: is_whitespace_def)
    moreover have "list_all (\<lambda>c. \<not> is_whitespace c) x" if "list_all is_ascii_digit x" for x
      using that digit_not_space by (simp add: list_all_iff)
    ultimately show "list_all (\<lambda>c. \<not> is_whitespace c) (a @ c # b @ [d])" using assms(1,3) by simp
  qed
  ultimately show ?thesis by (simp add: parse_duration_def)
qed

lemma parse_one_term:
  assumes "list_all is_ascii_digit a" "a \<noteq> []" "c \<in> {115, 109, 104, 100}"
    "duration_mult (to_ascii_lowercase (trim [c])) = Some m" "digits_val a * m \<le> U64_MAX" "digits_val a \<le> U64_MAX"
  shows "parse_duration (a @ [c]) = Ok (digits_val a * m)"
proof -
  have "duration_loop s 0 (a @ c # []) = duration_loop s (0 + digits_val a * m) []" for s
    by (rule duration_term [OF assms(1,2,6) _ assms(4)]) (use assms(3,5) in \<open>auto simp: is_ascii_digit_def\<close>)
  moreover have "trim (a @ [c]) = a @ [c]"
  proof (rule trim_id)
    have "\<not> is_whitespace c" using assms(3) by (auto simp: is_whitespace_def)
    then show "list_all (\<lambda>c. \<not> is_whitespace c) (a @ [c])" using assms(1) digit_not_space by (simp add: list_all_iff)
  qed
  ultimately show ?thesis by (simp add: parse_duration_def)
qed

section \<open>Properties\<close>

text \<open>C40: An amount written back with \<^verbatim>\<open>Unit::canonical\<close> is read by \<^verbatim>\<open>Unit::parse\<close> as the
  same amount, for every unit and every 64-bit amount: the decimal text of micro-CPUs loses
  nothing, and no check of the parser (overflow, smallest step) refuses it.\<close>

theorem unit_canonical_roundtrip:
  assumes "amount \<le> U64_MAX"
  shows "unit_parse unit (canonical unit amount) = Ok amount"
proof (cases unit)
  case UCount
  then show ?thesis using whole_fmt [OF assms] by simp
next
  case UCpu
  then show ?thesis using parse_cpu_canonical [OF assms] by (simp del: canonical.simps)
next
  case UBytes
  then show ?thesis using memory_size_fmt [OF assms] by simp
qed

theorem unit_canonical_roundtrip_witness:
  "canonical UCpu 2500010 = u ''2.50001'' \<and> unit_parse UCpu (u ''2.50001'') = Ok 2500010"
proof -
  have c: "canonical UCpu 2500010 = u ''2.50001''"
    by (simp add: MICROS_PER_CPU_def fmt_nat.simps pad0_def trim_end_matches_def)
  moreover have "(2500010 :: nat) \<le> U64_MAX" by (simp add: U64_MAX_def)
  ultimately show ?thesis using unit_canonical_roundtrip [of 2500010 UCpu] by simp
qed

text \<open>The two size parsers agree: every amount the strict reader of reservations accepts, the
  lenient reader of caps accepts with the same value, and neither result exceeds 64 bits.\<close>

theorem size_parsers_agree:
  assumes "parse_memory_size s = Ok n"
  shows "parse_size s = Ok n \<and> n \<le> U64_MAX"
proof
  show "parse_size s = Ok n" using assms by (rule memory_size_parse_size)
  show "n \<le> U64_MAX"
    using assms by (auto simp: parse_memory_size_def checked_mul_def Let_def split: if_splits option.splits)
qed

theorem size_parsers_agree_witness: "parse_size (u ''4GiB'') = Ok (4 * 1024 * 1024 * 1024)"
proof -
  have "parse_memory_size (u ''4GiB'') = Ok (4 * 1024 * 1024 * 1024)"
    by (simp add: parse_memory_size_def is_ascii_digit_def parse_u64_def digits_val_def U64_MAX_def size_mult_def
        to_ascii_lowercase_def is_ascii_uppercase_def checked_mul_def)
  then show ?thesis using size_parsers_agree by blast
qed

text \<open>A duration printed for a person parses back to the precision shown: exactly below an hour,
  to the minute below a day, to the hour above.\<close>

theorem human_duration_parses_back:
  assumes "secs \<le> U64_MAX"
  shows "parse_duration (human_duration secs) =
    Ok (secs - secs mod (if secs < 3600 then 1 else if secs < 86400 then 60 else 3600))"
proof -
  have two: "parse_duration (fmt_nat x @ c # pad0 2 (fmt_nat y) @ [d]) = Ok (x * m + y * k)"
    if "c \<in> {115, 109, 104, 100}" "d \<in> {115, 109, 104, 100}"
      "duration_mult (to_ascii_lowercase (trim [c])) = Some m" "duration_mult (to_ascii_lowercase (trim [d])) = Some k"
      "x * m + y * k \<le> U64_MAX" "0 < m" "0 < k" for x y c d m k
    using parse_two_terms [of "fmt_nat x" "pad0 2 (fmt_nat y)" c d m k] that fmt_nat_digits pad0_digits [OF fmt_nat_digits, of 2 y]
    by (simp add: pad0_val) (simp add: pad0_def)
  note units = duration_units [simplified]
  have split: "secs div k * k + secs mod k div j * j = secs - secs mod j" if "j dvd k" "0 < j" for k j :: nat
  proof -
    obtain q where q: "k = j * q" using \<open>j dvd k\<close> ..
    have "secs mod k div j * j = secs mod k - secs mod k mod j" by (simp add: minus_mod_eq_div_mult)
    also have "secs mod k mod j = secs mod j" using \<open>j dvd k\<close> by (rule mod_mod_cancel)
    finally have "secs mod k div j * j = secs mod k - secs mod j" .
    moreover have "secs mod j \<le> secs mod k" using \<open>j dvd k\<close> by (metis mod_less_eq_dividend mod_mod_cancel)
    moreover have "secs div k * k + secs mod k = secs" by simp
    ultimately show ?thesis by linarith
  qed
  consider "secs < 60" | "60 \<le> secs" "secs < 3600" | "3600 \<le> secs" "secs < 86400" | "86400 \<le> secs" by linarith
  then show ?thesis
  proof cases
    case 1
    then show ?thesis using parse_one_term [of "fmt_nat secs" 115 1] units(1) assms fmt_nat_digits
      by (simp add: human_duration_def)
  next
    case 2
    then show ?thesis using two [of 109 115 60 1 "secs div 60" "secs mod 60"] units assms split [of 1 60]
      by (simp add: human_duration_def)
  next
    case 3
    then show ?thesis using two [of 104 109 3600 60 "secs div 3600" "secs mod 3600 div 60"] units assms split [of 60 3600]
      by (simp add: human_duration_def)
  next
    case 4
    then show ?thesis using two [of 100 104 86400 3600 "secs div 86400" "secs mod 86400 div 3600"] units assms split [of 3600 86400]
      by (simp add: human_duration_def)
  qed
qed

theorem human_duration_parses_back_witness: "parse_duration (human_duration 5432) = Ok 5400"
  using human_duration_parses_back [of 5432] by (simp add: U64_MAX_def)

text \<open>One term of a duration that exceeds 64 bits of seconds is not refused: the product
  saturates before the checked sum, so a count of days beyond the range reads as the largest
  number of seconds, where the size parser reports the overflow.\<close>

theorem duration_term_saturates:
  "parse_duration (u ''213503982334602d'') = Ok U64_MAX \<and> 213503982334602 * 86400 > U64_MAX
   \<and> parse_size (u ''17179869184G'') = Err (Overflows (u ''17179869184G''))"
proof (intro conjI)
  show "213503982334602 * 86400 > U64_MAX" by (simp add: U64_MAX_def)
  show "parse_size (u ''17179869184G'') = Err (Overflows (u ''17179869184G''))"
    by (simp add: parse_size_def trim_id is_whitespace_def is_ascii_digit_def parse_u64_def digits_val_def U64_MAX_def
        size_mult_def to_ascii_lowercase_def is_ascii_uppercase_def checked_mul_def)
  show "parse_duration (u ''213503982334602d'') = Ok U64_MAX"
    by (simp add: parse_duration_def trim_id is_whitespace_def is_ascii_digit_def duration_loop.simps parse_u64_def
        digits_val_def U64_MAX_def duration_mult_def to_ascii_lowercase_def is_ascii_uppercase_def checked_add_def
        saturating_mul_def)
qed

end
