(* ===== verification/Template.thy ===== *)
theory Template
  imports Capacity
begin

text \<open>
  The \<^verbatim>\<open>${...}\<close> tokenizer (core/template.rs): the pieces of a template, the references heph
  claims, and the two ways of filling them in.

  The scanner walks bytes and cuts the text only at \<^verbatim>\<open>$\<close>, \<^verbatim>\<open>{\<close> and \<^verbatim>\<open>}\<close>, which are single bytes that
  occur in no longer character, so it is modelled on characters.  A resolver may fail, with an
  error of any type.
\<close>

abbreviation c_dollar :: rchar where "c_dollar \<equiv> 36"
abbreviation c_open :: rchar where "c_open \<equiv> 123"
abbreviation c_close :: rchar where "c_close \<equiv> 125"

section \<open>Pieces\<close>

record Ref =
  r_kind :: "rstr option"
  r_arg :: rstr
  r_raw :: rstr

datatype Piece = Text rstr | Escape | PRef Ref

datatype template_error = Unterminated rstr | Nested rstr

definition push_text :: "Piece list \<Rightarrow> rstr \<Rightarrow> Piece list" where
  "push_text out t = (if t \<noteq> [] then out @ [Text t] else out)"

definition make_ref :: "rstr \<Rightarrow> Ref" where
  "make_ref body = (case split_once c_colon body of
     Some (k, a) \<Rightarrow> \<lparr> r_kind = Some k, r_arg = a, r_raw = u ''${'' @ body @ u ''}'' \<rparr>
   | None \<Rightarrow> \<lparr> r_kind = None, r_arg = body, r_raw = u ''${'' @ body @ u ''}'' \<rparr>)"

fun has_open :: "rstr \<Rightarrow> bool" where
  "has_open (a # b # s) \<longleftrightarrow> (a = c_dollar \<and> b = c_open) \<or> has_open (b # s)"
| "has_open _ \<longleftrightarrow> False"

text \<open>The loop of \<^verbatim>\<open>parse\<close>: \<open>lit\<close> is the text since the last piece, \<open>s\<close> what is left to scan.  \<open>full\<close>
  is only shown in the error.\<close>

function parse_loop :: "rstr \<Rightarrow> rstr \<Rightarrow> Piece list \<Rightarrow> rstr \<Rightarrow> template_error + Piece list" where
  "parse_loop full lit out [] = Ok (push_text out lit)"
| "parse_loop full lit out (c # s) =
     (if c \<noteq> c_dollar then parse_loop full (lit @ [c]) out s
      else case s of
          [] \<Rightarrow> parse_loop full (lit @ [c]) out []
        | d # s' \<Rightarrow>
            if d = c_dollar then parse_loop full [] (push_text out lit @ [Escape]) s'
            else if d = c_open then
              (case split_once c_close s' of
                 None \<Rightarrow> Err (Unterminated full)
               | Some (body, rest) \<Rightarrow>
                   if has_open body then Err (Nested (u ''${'' @ body @ u ''}''))
                   else parse_loop full [] (push_text out lit @ [PRef (make_ref body)]) rest)
            else parse_loop full (lit @ [c]) out (d # s'))"
  by pat_completeness auto
termination
  by (relation "measure (\<lambda>(_, _, _, s). length s)") (auto simp: split_once_Some)

definition template_parse :: "rstr \<Rightarrow> template_error + Piece list" where
  "template_parse s = parse_loop s [] [] s"

text \<open>The scan of \<^verbatim>\<open>has_ref\<close>.\<close>

fun has_ref :: "rstr \<Rightarrow> bool" where
  "has_ref (c # d # s) \<longleftrightarrow> (if c \<noteq> c_dollar then has_ref (d # s)
     else if d = c_dollar then has_ref s
     else if d = c_open then True
     else has_ref (d # s))"
| "has_ref _ \<longleftrightarrow> False"

section \<open>Claimed references\<close>

definition READ_KIND :: rstr where "READ_KIND = u ''read''"
definition SRC_KIND :: rstr where "SRC_KIND = u ''src''"
definition RESOURCE_KIND :: rstr where "RESOURCE_KIND = u ''resource''"

definition DEFERRED_KINDS :: "rstr list" where
  "DEFERRED_KINDS = [READ_KIND, SRC_KIND, RESOURCE_KIND]"

definition claims :: "rstr option \<Rightarrow> rstr \<Rightarrow> rstr list \<Rightarrow> bool" where
  "claims kind arg kinds \<longleftrightarrow> (case kind of
     Some k \<Rightarrow> k \<in> set kinds \<and> (if k = RESOURCE_KIND then is_pool_name arg else starts_with (u ''//'') arg)
   | None \<Rightarrow> False)"

abbreviation claimed :: "rstr list \<Rightarrow> Ref \<Rightarrow> bool" where
  "claimed kinds r \<equiv> claims (r_kind r) (r_arg r) kinds"

definition find_ref :: "(Ref \<Rightarrow> bool) \<Rightarrow> Piece list \<Rightarrow> Ref option" where
  "find_ref P pieces = (case find (\<lambda>p. case p of PRef r \<Rightarrow> P r | _ \<Rightarrow> False) pieces of
     Some (PRef r) \<Rightarrow> Some r | _ \<Rightarrow> None)"

definition first_ref_of :: "rstr \<Rightarrow> rstr list \<Rightarrow> Ref option" where
  "first_ref_of s kinds = (if \<not> has_ref s then None
     else case template_parse s of Err _ \<Rightarrow> None | Ok pieces \<Rightarrow> find_ref (claimed kinds) pieces)"

definition has_deferred_ref :: "rstr \<Rightarrow> bool" where
  "has_deferred_ref s = (if \<not> has_ref s then False
     else case template_parse s of Err _ \<Rightarrow> False
       | Ok pieces \<Rightarrow> list_ex (\<lambda>p. case p of PRef r \<Rightarrow> claimed DEFERRED_KINDS r | _ \<Rightarrow> False) pieces)"

definition first_deferred_ref :: "rstr \<Rightarrow> Ref option" where
  "first_deferred_ref s = first_ref_of s DEFERRED_KINDS"

section \<open>Filling in\<close>

datatype 'e render_error = BadTemplate template_error | Unresolved 'e

fun render_pieces :: "rstr \<Rightarrow> (Ref \<Rightarrow> 'e + rstr) \<Rightarrow> Piece list \<Rightarrow> 'e render_error + rstr" where
  "render_pieces esc resolve [] = Ok []"
| "render_pieces esc resolve (Text t # ps) = map_sum id ((@) t) (render_pieces esc resolve ps)"
| "render_pieces esc resolve (Escape # ps) = map_sum id ((@) esc) (render_pieces esc resolve ps)"
| "render_pieces esc resolve (PRef r # ps) = (case resolve r of
     Err e \<Rightarrow> Err (Unresolved e)
   | Ok t \<Rightarrow> map_sum id ((@) t) (render_pieces esc resolve ps))"

text \<open>\<^verbatim>\<open>render\<close>: the shortcut returns the text itself when it is one piece of text, compared by
  address; a piece equal to the whole text is the whole text.\<close>

definition render :: "rstr \<Rightarrow> (Ref \<Rightarrow> 'e + rstr) \<Rightarrow> 'e render_error + rstr" where
  "render s resolve = (case template_parse s of
     Err e \<Rightarrow> Err (BadTemplate e)
   | Ok pieces \<Rightarrow> if pieces = [Text s] then Ok s else render_pieces [c_dollar] resolve pieces)"

definition substitute :: "rstr \<Rightarrow> rstr list \<Rightarrow> (Ref \<Rightarrow> 'e + rstr) \<Rightarrow> 'e render_error + rstr" where
  "substitute s want resolve = (case template_parse s of
     Err e \<Rightarrow> Err (BadTemplate e)
   | Ok pieces \<Rightarrow>
       if \<not> list_ex (\<lambda>p. case p of PRef r \<Rightarrow> claimed want r | _ \<Rightarrow> False) pieces then Ok s
       else render_pieces (u ''$$'') (\<lambda>r. if claimed want r then resolve r else Ok (r_raw r)) pieces)"

section \<open>The tokens are the text\<close>

fun piece_text :: "Piece \<Rightarrow> rstr" where
  "piece_text (Text t) = t"
| "piece_text Escape = u ''$$''"
| "piece_text (PRef r) = r_raw r"

abbreviation pieces_text :: "Piece list \<Rightarrow> rstr" where
  "pieces_text ps \<equiv> concat (map piece_text ps)"

lemma push_text_text [simp]: "pieces_text (push_text out lit) = pieces_text out @ lit"
  by (simp add: push_text_def)

lemma make_ref_raw [simp]: "r_raw (make_ref body) = u ''${'' @ body @ u ''}''"
  by (simp add: make_ref_def split: option.splits)

lemma parse_loop_text:
  "parse_loop full lit out s = Ok ps \<Longrightarrow> pieces_text ps = pieces_text out @ lit @ s"
proof (induction full lit out s rule: parse_loop.induct)
  case (2 full lit out c s)
  then show ?case by (auto simp: split_once_Some split: if_splits list.splits option.splits)
qed auto

lemma template_parse_text: "template_parse s = Ok ps \<Longrightarrow> pieces_text ps = s"
  using parse_loop_text by (fastforce simp: template_parse_def)
lemma parse_loop_ref:
  "parse_loop full lit out s = Ok ps \<Longrightarrow>
     list_ex (\<lambda>p. case p of PRef _ \<Rightarrow> True | _ \<Rightarrow> False) ps \<longleftrightarrow> list_ex (\<lambda>p. case p of PRef _ \<Rightarrow> True | _ \<Rightarrow> False) out \<or> has_ref s"
proof (induction full lit out s rule: parse_loop.induct)
  case (2 full lit out c s)
  then show ?case
    by (cases s) (auto simp: push_text_def split: if_splits option.splits)
qed (auto simp: push_text_def split: if_splits)

lemma parse_loop_no_ref: "\<not> has_ref s \<Longrightarrow> \<exists>ps. parse_loop full lit out s = Ok ps"
proof (induction full lit out s rule: parse_loop.induct)
  case (2 full lit out c s)
  then show ?case by (cases s) (auto split: if_splits)
qed simp

text \<open>The pieces of a concatenation whose first part ends outside a reference.\<close>

fun escape :: "rstr \<Rightarrow> rstr" where
  "escape [] = []"
| "escape (c # s) = (if c = c_dollar then c_dollar # c_dollar # escape s else c # escape s)"

lemma render_pieces_append:
  "render_pieces esc f (ps @ qs) = (case render_pieces esc f ps of Err e \<Rightarrow> Err e | Ok t \<Rightarrow> map_sum id ((@) t) (render_pieces esc f qs))"
proof (induction ps)
  case Nil
  then show ?case by (cases "render_pieces esc f qs") auto
next
  case (Cons p ps)
  show ?case
  proof (cases p)
    case (PRef r)
    show ?thesis
      by (cases "f r"; cases "render_pieces esc f ps"; cases "render_pieces esc f qs") (simp_all add: PRef Cons)
  qed (cases "render_pieces esc f ps"; cases "render_pieces esc f qs"; simp add: Cons)+
qed

lemma parse_escaped:
  "\<exists>ps. parse_loop full lit out (escape s) = Ok ps
     \<and> render_pieces [c_dollar] f ps = (case render_pieces [c_dollar] f out of Err e \<Rightarrow> Err e | Ok t \<Rightarrow> Ok (t @ lit @ s))"
proof (induction s arbitrary: lit out)
  case Nil
  then show ?case by (auto simp: push_text_def render_pieces_append split: sum.splits)
next
  case (Cons c s)
  show ?case
  proof (cases "c = c_dollar")
    case True
    obtain ps where "parse_loop full [] (push_text out lit @ [Escape]) (escape s) = Ok ps"
      "render_pieces [c_dollar] f ps = (case render_pieces [c_dollar] f (push_text out lit @ [Escape]) of Err e \<Rightarrow> Err e | Ok t \<Rightarrow> Ok (t @ [] @ s))"
      using Cons.IH by blast
    then show ?thesis using True by (auto simp: push_text_def render_pieces_append split: sum.splits)
  next
    case False
    then show ?thesis using Cons.IH [of "lit @ [c]" out] by (simp only: escape.simps append_assoc append.simps) simp
  qed
qed

fun fill :: "rstr list \<Rightarrow> (Ref \<Rightarrow> rstr) \<Rightarrow> Piece \<Rightarrow> rstr" where
  "fill want f (PRef r) = (if claimed want r then f r else r_raw r)"
| "fill want f p = piece_text p"

lemma render_fill:
  "(\<And>r. PRef r \<in> set ps \<Longrightarrow> claimed want r \<Longrightarrow> resolve r = Ok (f r)) \<Longrightarrow>
     render_pieces (u ''$$'') (\<lambda>r. if claimed want r then resolve r else Ok (r_raw r)) ps = Ok (concat (map (fill want f) ps))"
proof (induction ps)
  case (Cons p ps)
  then show ?case by (cases p) auto
qed simp

lemma render_unresolved:
  "render_pieces esc (\<lambda>r. if claimed want r then resolve r else Ok (r_raw r)) ps = Err e \<Longrightarrow>
     \<exists>r e'. e = Unresolved e' \<and> PRef r \<in> set ps \<and> claimed want r \<and> resolve r = Err e'"
proof (induction ps)
  case (Cons p ps)
  then show ?case by (cases p) (auto split: sum.splits if_splits simp: map_sum_iff)
qed simp

lemma fill_none: "\<not> list_ex (\<lambda>p. case p of PRef r \<Rightarrow> claimed want r | _ \<Rightarrow> False) ps \<Longrightarrow> map (fill want f) ps = map piece_text ps"
proof (induction ps)
  case (Cons p ps)
  then show ?case by (cases p) auto
qed simp

section \<open>Properties\<close>

text \<open>Tokenizing loses nothing: the pieces of a template, escapes and references written out
  again, are the template; a template has a reference piece exactly when the cheap scan says so,
  and one without tokenizes.\<close>

theorem template_pieces_exact:
  "(case template_parse s of
      Ok ps \<Rightarrow> pieces_text ps = s \<and> (list_ex (\<lambda>p. case p of PRef _ \<Rightarrow> True | _ \<Rightarrow> False) ps \<longleftrightarrow> has_ref s)
    | Err _ \<Rightarrow> has_ref s)"
proof (cases "template_parse s")
  case (Inl e)
  then show ?thesis using parse_loop_no_ref [of s s "[]" "[]"] by (auto simp: template_parse_def)
next
  case (Inr ps)
  then show ?thesis using parse_loop_text [of s "[]" "[]" s ps] parse_loop_ref [of s "[]" "[]" s ps]
    by (simp add: template_parse_def)
qed

text \<open>C35: Substitution touches claimed references only: the result is the template with each claimed
  reference replaced by what it resolves to, in one pass over the author's text, and everything
  else, escapes and foreign references included, as it was written.\<close>

theorem substitute_exact:
  assumes "template_parse s = Ok ps"
  shows "((\<forall>r. PRef r \<in> set ps \<and> claimed want r \<longrightarrow> resolve r = Ok (f r)) \<longrightarrow> substitute s want resolve = Ok (concat (map (fill want f) ps)))
    \<and> (substitute s want resolve = Err e \<longrightarrow> (\<exists>r e'. e = Unresolved e' \<and> PRef r \<in> set ps \<and> claimed want r \<and> resolve r = Err e'))"
proof (cases "list_ex (\<lambda>p. case p of PRef r \<Rightarrow> claimed want r | _ \<Rightarrow> False) ps")
  case True
  then show ?thesis using render_fill [of ps want resolve f] render_unresolved [of "u ''$$''" want resolve ps e]
    unfolding substitute_def assms by simp
next
  case False
  have "concat (map (fill want f) ps) = s" unfolding fill_none [OF False] using template_parse_text [OF assms] .
  then show ?thesis using False unfolding substitute_def assms by simp
qed

theorem substitute_exact_witness:
  "substitute (u ''$$ ${FOO} ${read://a:b}'') [READ_KIND] (\<lambda>r. Ok (u ''v'') :: unit + rstr) = Ok (u ''$$ ${FOO} v'')"
proof -
  have "template_parse (u ''$$ ${FOO} ${read://a:b}'') = Ok [Escape, Text (u '' ''), PRef (make_ref (u ''FOO'')), Text (u '' ''), PRef (make_ref (u ''read://a:b''))]"
    by (simp add: template_parse_def push_text_def)
  from substitute_exact [OF this, of "[READ_KIND]" "\<lambda>r. Ok (u ''v'') :: unit + rstr" "\<lambda>r. u ''v''" undefined] show ?thesis
    by (simp add: make_ref_def claims_def READ_KIND_def RESOURCE_KIND_def starts_with_def)
qed

text \<open>Escaping and rendering are inverse: doubling every dollar sign of a text gives a template that
  renders to the text, without consulting the resolver.\<close>

theorem escape_render: "render (escape s) resolve = Ok s"
proof -
  obtain ps where ps: "template_parse (escape s) = Ok ps" "render_pieces [c_dollar] resolve ps = Ok s"
    using parse_escaped [of "escape s" "[]" "[]" s resolve] by (auto simp: template_parse_def)
  then show ?thesis by (auto simp: render_def)
qed

end
