(* ===== verification/Resource_Pool.thy ===== *)
theory Resource_Pool
  imports Capacity
begin

text \<open>
  The execute-admission pool (engine/resource_pool.rs): one FIFO queue over named pools, with
  grants that are atomic across the pools a request names.

  Every operation that changes the pool holds the mutex of its lane for its whole critical
  section, so each is one function on the lane's \<open>State\<close>.  The \<^verbatim>\<open>oneshot\<close> sender of a waiter is
  named by the waiter's sequence number; \<open>rx_open\<close> says whether its receiver still exists, and
  what a grant chain sends is returned beside the new state.  The step relation \<open>pool_step\<close>
  interleaves the critical sections of any number of tasks: arrivals, polls, drops of a waiting
  \<^verbatim>\<open>Acquire\<close> (its guard first, then its receiver) and drops of reservations.  The instants kept
  for display, the tracing calls and the snapshot types are left out.
\<close>

section \<open>Capacities\<close>

datatype Limit = Bounded nat | Unbounded

fun bounded :: "Limit \<Rightarrow> nat option" where
  "bounded (Bounded n) = Some n"
| "bounded Unbounded = None"

datatype AcquireError = ZeroCapacity PoolName | UnknownPool PoolName | Closed

datatype GrantError = GUnknown | GZeroCapacity

fun naming :: "GrantError \<Rightarrow> PoolName \<Rightarrow> AcquireError" where
  "naming GUnknown pool = UnknownPool pool"
| "naming GZeroCapacity pool = ZeroCapacity pool"

definition cpu_limit :: "(PoolName \<times> PoolSpec) list \<Rightarrow> nat \<Rightarrow> nat" where
  "cpu_limit specs parallelism =
     (let cpu_default = saturating_mul parallelism MICROS_PER_CPU
      in case Option.bind (bt_lookup specs CPU) ps_capacity of
           Some c \<Rightarrow> resolve_capacity c UCpu cpu_default
         | None \<Rightarrow> cpu_default)"

definition memory_limit :: "(PoolName \<times> PoolSpec) list \<Rightarrow> nat \<Rightarrow> Limit" where
  "memory_limit specs host_memory =
     (case Option.bind (bt_lookup specs MEMORY) ps_capacity of
        Some (Amount n) \<Rightarrow> Bounded (resolve_capacity (Amount n) UBytes 0)
      | Some c \<Rightarrow> (if host_memory = 0 then Unbounded else Bounded (resolve_capacity c UBytes host_memory))
      | None \<Rightarrow> (if host_memory = 0 then Unbounded else Bounded host_memory))"

definition custom_limit :: "PoolSpec \<Rightarrow> Limit" where
  "custom_limit s = (case ps_capacity s of None \<Rightarrow> Unbounded | Some c \<Rightarrow> Bounded (resolve_capacity c (ps_unit s) 0))"

text \<open>\<open>host_memory\<close> is what the host read returns when it is called.\<close>

definition resolve_capacities :: "(PoolName \<times> PoolSpec) list \<Rightarrow> nat \<Rightarrow> nat \<Rightarrow> (PoolName \<times> Limit) list" where
  "resolve_capacities specs parallelism host_memory =
     [(CPU, Bounded (cpu_limit specs parallelism)), (MEMORY, memory_limit specs host_memory)]
     @ map (\<lambda>(p, s). (p, custom_limit s)) (filter (\<lambda>(p, s). p \<noteq> CPU \<and> p \<noteq> MEMORY) specs)"

section \<open>The engine's pools\<close>

record EnginePools =
  ep_specs :: "(PoolName \<times> PoolSpec) list"
  ep_parallelism :: nat
  ep_cpu :: nat

definition engine_pools_new :: "(PoolName \<times> PoolSpec) list \<Rightarrow> nat \<Rightarrow> EnginePools" where
  "engine_pools_new specs parallelism = \<lparr> ep_specs = specs, ep_parallelism = parallelism,
     ep_cpu = (case Option.bind (map_option snd (find (\<lambda>(p, _). p = CPU) (resolve_capacities specs parallelism 0))) bounded of
         Some n \<Rightarrow> n | None \<Rightarrow> 0) \<rparr>"

definition engine_unit :: "EnginePools \<Rightarrow> rstr \<Rightarrow> Unit option" where
  "engine_unit self name = (case bt_lookup (ep_specs self) name of Some s \<Rightarrow> Some (ps_unit s) | None \<Rightarrow> of_builtin name)"

definition is_pool :: "EnginePools \<Rightarrow> rstr \<Rightarrow> bool" where
  "is_pool self name \<longleftrightarrow> engine_unit self name \<noteq> None"

definition pool_names :: "EnginePools \<Rightarrow> rstr list" where
  "pool_names self = sort (filter (\<lambda>n. bt_lookup (ep_specs self) n = None) [CPU, MEMORY] @ map fst (ep_specs self))"

text \<open>The edit distance is a parameter.  \<^verbatim>\<open>min_by_key\<close> keeps the first of equal keys.\<close>

definition closest :: "(rstr \<Rightarrow> rstr \<Rightarrow> nat) \<Rightarrow> EnginePools \<Rightarrow> rstr \<Rightarrow> rstr option" where
  "closest levenshtein self name =
     (case filter (\<lambda>(d, _). d \<le> 2 \<and> d < byte_len name) (map (\<lambda>p. (levenshtein name p, p)) (pool_names self)) of
        [] \<Rightarrow> None
      | x # xs \<Rightarrow> Some (snd (fold (\<lambda>y best. if fst y < fst best then y else best) xs x)))"

section \<open>A lane\<close>

type_synonym need = "(nat \<times> nat) list"

record Lane =
  l_names :: "PoolName list"
  l_capacity :: "Limit list"
  l_cpu_idx :: "nat option"

record Waiter =
  w_need :: need
  w_clamped :: bool

record State =
  held :: "nat list"
  waiters :: "(nat \<times> Waiter) list"
  next_seq :: nat

record Reservation =
  granted :: need
  r_clamped :: bool

text \<open>\<^verbatim>\<open>binary_search_by\<close> on the sorted names finds the one position of a name.\<close>

fun position :: "'a \<Rightarrow> 'a list \<Rightarrow> nat option" where
  "position x [] = None"
| "position x (y # ys) = (if x = y then Some 0 else map_option Suc (position x ys))"

definition lane_index :: "Lane \<Rightarrow> rstr \<Rightarrow> nat option" where
  "lane_index lane pool = position pool (l_names lane)"

definition lane_new :: "(PoolName \<times> Limit) list \<Rightarrow> Lane \<times> State" where
  "lane_new capacities =
     (let names = map fst capacities; capacity = map snd capacities
      in (\<lparr> l_names = names, l_capacity = capacity, l_cpu_idx = position CPU names \<rparr>,
          \<lparr> held = replicate (length capacity) 0, waiters = [], next_seq = 0 \<rparr>))"

definition pool_new :: "(PoolName \<times> Limit) list \<Rightarrow> Lane \<times> State" where
  "pool_new capacities = lane_new (bt_of_list capacities)"

definition pool_capacity :: "Lane \<Rightarrow> rstr \<Rightarrow> Limit option" where
  "pool_capacity lane pool = Option.bind (lane_index lane pool) (get_at (l_capacity lane))"

definition available :: "Lane \<Rightarrow> State \<Rightarrow> rstr \<Rightarrow> nat option" where
  "available lane st pool =
     Option.bind (lane_index lane pool) (\<lambda>idx.
     Option.bind (get_at (l_capacity lane) idx) (\<lambda>limit.
     Option.bind (bounded limit) (\<lambda>cap.
     map_option (\<lambda>h. cap - h) (get_at (held st) idx))))"

definition free_of :: "Limit \<Rightarrow> nat \<Rightarrow> nat option" where
  "free_of limit h = map_option (\<lambda>cap. cap - h) (bounded limit)"

definition fits :: "Limit list \<Rightarrow> nat list \<Rightarrow> need \<Rightarrow> bool" where
  "fits capacity hs need = list_all (\<lambda>(idx, n). case (get_at capacity idx, get_at hs idx) of
       (Some Unbounded, Some _) \<Rightarrow> True
     | (Some (Bounded cap), Some h) \<Rightarrow> n \<le> cap - h
     | _ \<Rightarrow> False) need"

definition take_need :: "nat list \<Rightarrow> need \<Rightarrow> nat list" where
  "take_need hs need = fold (\<lambda>(idx, n) hs. if idx < length hs then hs[idx := saturating_add (hs ! idx) n] else hs) need hs"

definition give :: "nat list \<Rightarrow> need \<Rightarrow> nat list" where
  "give hs need = fold (\<lambda>(idx, n) hs. if idx < length hs then hs[idx := hs ! idx - n] else hs) need hs"

section \<open>Resolving a request\<close>

text \<open>\<^verbatim>\<open>Lane::grant\<close>: the need and the clamped flag it updates are passed through.\<close>

definition lane_grant :: "Lane \<Rightarrow> nat option \<Rightarrow> nat \<Rightarrow> need \<times> bool \<Rightarrow> GrantError + need \<times> bool" where
  "lane_grant lane idx_opt amount acc = (case idx_opt of
     None \<Rightarrow> Err GUnknown
   | Some idx \<Rightarrow>
       (case (case get_at (l_capacity lane) idx of
           Some Unbounded \<Rightarrow> Ok amount
         | None \<Rightarrow> Err GZeroCapacity
         | Some (Bounded capacity) \<Rightarrow> if capacity = 0 then Err GZeroCapacity else Ok (min amount capacity)) of
          Err e \<Rightarrow> Err e
        | Ok g \<Rightarrow>
            if amount \<noteq> 0 then Ok (fst acc @ [(idx, g)], snd acc \<or> g < amount) else Ok acc))"

fun resolve_loop :: "Lane \<Rightarrow> (PoolName \<times> nat) list \<Rightarrow> need \<times> bool \<Rightarrow> AcquireError + need \<times> bool" where
  "resolve_loop lane [] acc = Ok acc"
| "resolve_loop lane ((pool, amount) # ds) acc = (case lane_grant lane (lane_index lane pool) amount acc of
     Err e \<Rightarrow> Err (naming e pool)
   | Ok acc' \<Rightarrow> resolve_loop lane ds acc')"

definition resolve_request :: "Lane \<Rightarrow> Demand \<Rightarrow> AcquireError + need \<times> bool" where
  "resolve_request lane request = (case resolve_loop lane (dem_declared request) ([], False) of
     Err e \<Rightarrow> Err e
   | Ok acc \<Rightarrow>
       if demand_declared request CPU = None
       then (case lane_grant lane (l_cpu_idx lane) DEFAULT_CPU_MICROS acc of
           Err e \<Rightarrow> Err (naming e CPU) | Ok acc' \<Rightarrow> Ok acc')
       else Ok acc)"

section \<open>Granting\<close>

text \<open>The loop of \<^verbatim>\<open>grant_chain\<close>.  A send to a receiver that is gone fails and hands the grant
  back, which is returned to the pool under the same lock.\<close>

fun grant_loop :: "Limit list \<Rightarrow> (nat \<Rightarrow> bool) \<Rightarrow> nat list \<Rightarrow> (nat \<times> Waiter) list
    \<Rightarrow> nat list \<times> (nat \<times> Waiter) list \<times> (nat \<times> Reservation) list" where
  "grant_loop capacity rx_open hs [] = (hs, [], [])"
| "grant_loop capacity rx_open hs ((seq, w) # ws) =
     (if \<not> fits capacity hs (w_need w) then (hs, (seq, w) # ws, [])
      else let hs1 = take_need hs (w_need w)
        in if rx_open seq then
             (case grant_loop capacity rx_open hs1 ws of
                (hs2, ws2, sent) \<Rightarrow> (hs2, ws2, (seq, \<lparr> granted = w_need w, r_clamped = w_clamped w \<rparr>) # sent))
           else grant_loop capacity rx_open (give hs1 (w_need w)) ws)"

definition grant_chain :: "Lane \<Rightarrow> (nat \<Rightarrow> bool) \<Rightarrow> State \<Rightarrow> State \<times> (nat \<times> Reservation) list" where
  "grant_chain lane rx_open st = (case grant_loop (l_capacity lane) rx_open (held st) (waiters st) of
     (hs, ws, sent) \<Rightarrow> (st\<lparr> held := hs, waiters := ws \<rparr>, sent))"

datatype Acquire = Ready Reservation | Waiting nat

definition grant_now :: "need \<Rightarrow> bool \<Rightarrow> State \<Rightarrow> Reservation \<times> State" where
  "grant_now need clamped st =
     (\<lparr> granted = need, r_clamped = clamped \<rparr>,
      if need \<noteq> [] then st\<lparr> held := take_need (held st) need \<rparr> else st)"

text \<open>The receiver made by \<^verbatim>\<open>enqueue\<close> is open when the chain runs.\<close>

definition enqueue :: "Lane \<Rightarrow> (nat \<Rightarrow> bool) \<Rightarrow> need \<Rightarrow> bool \<Rightarrow> State \<Rightarrow> Acquire \<times> State \<times> (nat \<times> Reservation) list" where
  "enqueue lane rx_open need clamped st =
     (if waiters st = [] \<and> fits (l_capacity lane) (held st) need
      then (Ready \<lparr> granted = need, r_clamped = clamped \<rparr>, st\<lparr> held := take_need (held st) need \<rparr>, [])
      else let seq = next_seq st;
               st1 = st\<lparr> next_seq := (next_seq st + 1) mod 2 ^ 64,
                         waiters := bt_insert seq \<lparr> w_need = need, w_clamped = clamped \<rparr> (waiters st) \<rparr>
        in case grant_chain lane (rx_open(seq := True)) st1 of (st2, sent) \<Rightarrow> (Waiting seq, st2, sent))"

definition release :: "Lane \<Rightarrow> (nat \<Rightarrow> bool) \<Rightarrow> need \<Rightarrow> State \<Rightarrow> State \<times> (nat \<times> Reservation) list" where
  "release lane rx_open need st =
     (if need = [] then (st, [])
      else grant_chain lane rx_open (st\<lparr> held := give (held st) need \<rparr>))"

definition cancel :: "Lane \<Rightarrow> (nat \<Rightarrow> bool) \<Rightarrow> nat \<Rightarrow> State \<Rightarrow> State \<times> (nat \<times> Reservation) list" where
  "cancel lane rx_open seq st =
     (if bt_lookup (waiters st) seq \<noteq> None
      then grant_chain lane rx_open (st\<lparr> waiters := filter (\<lambda>(k, _). k \<noteq> seq) (waiters st) \<rparr>)
      else (st, []))"

definition needs_bounded :: "Lane \<Rightarrow> need \<Rightarrow> bool" where
  "needs_bounded lane need = list_ex (\<lambda>(idx, _). case get_at (l_capacity lane) idx of Some (Bounded _) \<Rightarrow> True | _ \<Rightarrow> False) need"

definition acquire :: "Lane \<Rightarrow> (nat \<Rightarrow> bool) \<Rightarrow> Demand \<Rightarrow> State \<Rightarrow> AcquireError + Acquire \<times> State \<times> (nat \<times> Reservation) list" where
  "acquire lane rx_open request st = (case resolve_request lane request of
     Err e \<Rightarrow> Err e
   | Ok (need, clamped) \<Rightarrow>
       if needs_bounded lane need then Ok (enqueue lane rx_open need clamped st)
       else (case grant_now need clamped st of (r, st') \<Rightarrow> Ok (Ready r, st', [])))"

section \<open>What the pool shows\<close>

record PoolNeed =
  pn_pool :: PoolName
  pn_need :: nat
  pn_free :: "nat option"

definition pool_needs :: "Lane \<Rightarrow> nat list \<Rightarrow> need \<Rightarrow> bool \<Rightarrow> PoolNeed list" where
  "pool_needs lane hs need unmet_only = List.map_filter (\<lambda>(idx, amount).
     case (get_at (l_capacity lane) idx, get_at hs idx, get_at (l_names lane) idx) of
       (Some limit, Some h, name) \<Rightarrow>
         (let free = free_of limit h
          in if unmet_only \<and> (case free of None \<Rightarrow> True | Some f \<Rightarrow> amount \<le> f) then None
             else map_option (\<lambda>p. \<lparr> pn_pool = p, pn_need = amount, pn_free = free \<rparr>) name)
     | _ \<Rightarrow> None) need"

definition wait_info :: "Lane \<Rightarrow> State \<Rightarrow> nat \<Rightarrow> (nat \<times> PoolNeed list) option" where
  "wait_info lane st seq = map_option (\<lambda>w.
     (length (filter (\<lambda>(k, _). k < seq) (waiters st)), pool_needs lane (held st) (w_need w) False))
     (bt_lookup (waiters st) seq)"

definition head_unmet :: "Lane \<Rightarrow> State \<Rightarrow> PoolNeed list option" where
  "head_unmet lane st = (case waiters st of [] \<Rightarrow> None | (_, w) # _ \<Rightarrow> Some (pool_needs lane (held st) (w_need w) True))"

record PoolSnapshot =
  psn_pool :: PoolName
  psn_unit :: Unit
  psn_capacity :: Limit
  psn_held :: nat

definition snapshot_free :: "PoolSnapshot \<Rightarrow> nat option" where
  "snapshot_free self = free_of (psn_capacity self) (psn_held self)"

record LaneSnapshot =
  ls_pools :: "PoolSnapshot list"
  ls_queued :: nat
  ls_head :: "PoolNeed list option"

definition lane_snapshot :: "Lane \<Rightarrow> State \<Rightarrow> LaneSnapshot" where
  "lane_snapshot lane st =
     \<lparr> ls_pools = map (\<lambda>(name, limit, h). \<lparr> psn_pool = name, psn_unit = default_for name, psn_capacity = limit, psn_held = h \<rparr>)
         (zip (l_names lane) (zip (l_capacity lane) (held st))),
       ls_queued = length (waiters st),
       ls_head = head_unmet lane st \<rparr>"

definition pool_capacities :: "Lane \<Rightarrow> (PoolName \<times> Limit) list" where
  "pool_capacities lane = zip (l_names lane) (l_capacity lane)"

text \<open>The snapshot of the engine shows each pool in its configured unit; \<open>built\<close> is the pool when
  an admission has built it.\<close>

definition engine_snapshot :: "EnginePools \<Rightarrow> (Lane \<times> State) option \<Rightarrow> LaneSnapshot option" where
  "engine_snapshot self built = map_option (\<lambda>(lane, st).
     let snap = lane_snapshot lane st
     in snap\<lparr> ls_pools := map (\<lambda>s. case engine_unit self (psn_pool s) of
          Some unit \<Rightarrow> s\<lparr> psn_unit := unit \<rparr> | None \<Rightarrow> s) (ls_pools snap) \<rparr>) built"

definition engine_pool :: "EnginePools \<Rightarrow> nat \<Rightarrow> Lane \<times> State" where
  "engine_pool self host_memory = pool_new (resolve_capacities (ep_specs self) (ep_parallelism self) host_memory)"

fun comma_join :: "rstr list \<Rightarrow> rstr" where
  "comma_join [] = []"
| "comma_join [x] = x"
| "comma_join (x # y # xs) = x @ u '', '' @ comma_join (y # xs)"

definition unknown_hint :: "(rstr \<Rightarrow> rstr \<Rightarrow> nat) \<Rightarrow> EnginePools \<Rightarrow> rstr \<Rightarrow> rstr \<Rightarrow> rstr" where
  "unknown_hint levenshtein self name decl =
     (let near = (case closest levenshtein self name of Some p \<Rightarrow> u '' (did you mean '' @ p @ u ''?)'' | None \<Rightarrow> [])
      in name @ u '' is not a pool'' @ near @ u '': add resources: {'' @ name @ u '': '' @ decl @ u ''} to .hephconfig, or --resource ''
         @ name @ u ''=<n> for one run (known: '' @ comma_join (pool_names self) @ u '')'')"

definition reservation_amount :: "Lane \<Rightarrow> Reservation \<Rightarrow> rstr \<Rightarrow> nat" where
  "reservation_amount lane r pool =
     (case find (\<lambda>(idx, n). get_at (l_names lane) idx = Some pool) (granted r) of Some (_, n) \<Rightarrow> n | None \<Rightarrow> 0)"

section \<open>The tasks around the pool\<close>

text \<open>The state of the whole: the lane, the grants sent and not yet observed, the reservations
  that tasks hold, the waiting acquires whose receiver exists, those of them whose guard has been
  dropped, and a log of the sequence numbers in the order their grants were sent.\<close>

record PoolSys =
  sys_st :: State
  sys_chan :: "(nat \<times> Reservation) list"
  sys_live :: "Reservation list"
  sys_rx :: "nat set"
  sys_dropping :: "nat set"
  sys_log :: "nat list"

definition sys_start :: "State \<Rightarrow> PoolSys" where
  "sys_start st = \<lparr> sys_st = st, sys_chan = [], sys_live = [], sys_rx = {}, sys_dropping = {}, sys_log = [] \<rparr>"

text \<open>The effect of a critical section on the whole: its new lane state and what it sent.\<close>

definition sys_send :: "State \<times> (nat \<times> Reservation) list \<Rightarrow> PoolSys \<Rightarrow> PoolSys" where
  "sys_send out s = s\<lparr> sys_st := fst out, sys_chan := sys_chan s @ snd out, sys_log := sys_log s @ map fst (snd out) \<rparr>"

text \<open>The sequence counter is 64 bits wide; the runs considered make fewer than \<open>2 ^ 64\<close>
  queued arrivals, so that no number is reused.\<close>

inductive pool_step :: "Lane \<Rightarrow> PoolSys \<Rightarrow> PoolSys \<Rightarrow> bool" for lane where
  arrive_granted: "bt_ok (dem_declared request) \<Longrightarrow> acquire lane (\<lambda>q. q \<in> sys_rx s) request (sys_st s) = Ok (Ready r, st, sent) \<Longrightarrow>
    pool_step lane s (sys_send (st, sent) (s\<lparr> sys_live := r # sys_live s \<rparr>))"
| arrive_queued: "bt_ok (dem_declared request) \<Longrightarrow> acquire lane (\<lambda>q. q \<in> sys_rx s) request (sys_st s) = Ok (Waiting seq, st, sent) \<Longrightarrow>
    next_seq (sys_st s) + 1 < 2 ^ 64 \<Longrightarrow>
    pool_step lane s (sys_send (st, sent) (s\<lparr> sys_rx := insert seq (sys_rx s) \<rparr>))"
| poll_ready: "(seq, r) \<in> set (sys_chan s) \<Longrightarrow> seq \<in> sys_rx s \<Longrightarrow> seq \<notin> sys_dropping s \<Longrightarrow>
    pool_step lane s (s\<lparr> sys_chan := filter (\<lambda>(k, _). k \<noteq> seq) (sys_chan s), sys_live := r # sys_live s,
      sys_rx := sys_rx s - {seq} \<rparr>)"
| drop_guard: "seq \<in> sys_rx s \<Longrightarrow> seq \<notin> sys_dropping s \<Longrightarrow>
    pool_step lane s (sys_send (cancel lane (\<lambda>q. q \<in> sys_rx s) seq (sys_st s))
      (s\<lparr> sys_dropping := insert seq (sys_dropping s) \<rparr>))"
| drop_receiver_granted: "seq \<in> sys_dropping s \<Longrightarrow> (seq, r) \<in> set (sys_chan s) \<Longrightarrow>
    pool_step lane s (sys_send (release lane (\<lambda>q. q \<in> sys_rx s - {seq}) (granted r) (sys_st s))
      (s\<lparr> sys_chan := filter (\<lambda>(k, _). k \<noteq> seq) (sys_chan s), sys_rx := sys_rx s - {seq},
         sys_dropping := sys_dropping s - {seq} \<rparr>))"
| drop_receiver_empty: "seq \<in> sys_dropping s \<Longrightarrow> seq \<notin> fst ` set (sys_chan s) \<Longrightarrow>
    pool_step lane s (s\<lparr> sys_rx := sys_rx s - {seq}, sys_dropping := sys_dropping s - {seq} \<rparr>)"
| drop_reservation: "r \<in> set (sys_live s) \<Longrightarrow>
    pool_step lane s (sys_send (release lane (\<lambda>q. q \<in> sys_rx s) (granted r) (sys_st s))
      (s\<lparr> sys_live := remove1 r (sys_live s) \<rparr>))"

section \<open>Accounting\<close>

definition amt :: "need \<Rightarrow> nat \<Rightarrow> nat" where
  "amt need idx = (case map_of need idx of Some n \<Rightarrow> n | None \<Rightarrow> 0)"

definition need_ok :: "Lane \<Rightarrow> need \<Rightarrow> bool" where
  "need_ok lane need \<longleftrightarrow> distinct (map fst need) \<and> (\<forall>(idx, n)\<in>set need. idx < length (l_capacity lane)
     \<and> (\<forall>cap. l_capacity lane ! idx = Bounded cap \<longrightarrow> n \<le> cap))"

definition lane_ok :: "Lane \<Rightarrow> bool" where
  "lane_ok lane \<longleftrightarrow> distinct (l_names lane) \<and> length (l_names lane) = length (l_capacity lane)
     \<and> l_cpu_idx lane = position CPU (l_names lane) \<and> (\<forall>cap. Bounded cap \<in> set (l_capacity lane) \<longrightarrow> cap \<le> U64_MAX)"

text \<open>\<open>account lane hs T\<close>: the held amounts of the bounded pools are \<open>T\<close>, and within capacity.\<close>

definition account :: "Lane \<Rightarrow> nat list \<Rightarrow> (nat \<Rightarrow> nat) \<Rightarrow> bool" where
  "account lane hs T \<longleftrightarrow> length hs = length (l_capacity lane)
     \<and> (\<forall>idx cap. idx < length hs \<and> l_capacity lane ! idx = Bounded cap \<longrightarrow> hs ! idx = T idx \<and> T idx \<le> cap)"

lemma take_need_length [simp]: "length (take_need hs need) = length hs"
  unfolding take_need_def by (induction need arbitrary: hs) (auto split: prod.splits)

lemma give_length [simp]: "length (give hs need) = length hs"
  unfolding give_def by (induction need arbitrary: hs) (auto split: prod.splits)

lemma amt_Cons: "amt ((i, n) # need) idx = (if idx = i then n else amt need idx)"
  by (simp add: amt_def)

lemma amt_absent: "idx \<notin> fst ` set need \<Longrightarrow> amt need idx = 0"
  using map_of_eq_None_iff [of need idx] by (simp add: amt_def)

lemma take_need_nth:
  "distinct (map fst need) \<Longrightarrow> idx < length hs \<Longrightarrow>
     take_need hs need ! idx = (if idx \<in> fst ` set need then saturating_add (hs ! idx) (amt need idx) else hs ! idx)"
  unfolding take_need_def
proof (induction need arbitrary: hs)
  case (Cons x need)
  obtain i n where x: "x = (i, n)" by (cases x)
  show ?case using Cons.IH [of "if i < length hs then hs[i := saturating_add (hs ! i) n] else hs"] Cons.prems
    by (auto simp: x amt_Cons nth_list_update)
qed simp

lemma give_nth:
  "distinct (map fst need) \<Longrightarrow> idx < length hs \<Longrightarrow> give hs need ! idx = hs ! idx - amt need idx"
  unfolding give_def
proof (induction need arbitrary: hs)
  case (Cons x need)
  obtain i n where x: "x = (i, n)" by (cases x)
  show ?case using Cons.IH [of "if i < length hs then hs[i := hs ! i - n] else hs"] Cons.prems
    by (auto simp: x amt_Cons amt_absent nth_list_update)
qed (simp add: amt_def)

lemma account_take:
  assumes "lane_ok lane" "account lane hs T" "need_ok lane need" "fits (l_capacity lane) hs need"
  shows "account lane (take_need hs need) (\<lambda>i. T i + amt need i)"
  unfolding account_def
proof (intro conjI allI impI)
  show "length (take_need hs need) = length (l_capacity lane)" using assms(2) by (simp add: account_def)
next
  fix idx cap assume i: "idx < length (take_need hs need) \<and> l_capacity lane ! idx = Bounded cap"
  then have h: "hs ! idx = T idx" "T idx \<le> cap" "idx < length hs" and len: "length hs = length (l_capacity lane)"
    using assms(2) by (auto simp: account_def)
  have cap: "cap \<le> U64_MAX" using i len assms(1) by (simp add: lane_ok_def) (metis nth_mem)
  have d: "distinct (map fst need)" using assms(3) by (simp add: need_ok_def)
  have fit: "amt need idx \<le> cap - hs ! idx" if idx: "idx \<in> fst ` set need"
  proof -
    obtain n where n: "(idx, n) \<in> set need" using idx by auto
    then have "n \<le> cap - hs ! idx"
      using assms(4) i h(3) len by (auto simp: fits_def list_all_iff get_at_def)
    then show ?thesis using n d by (simp add: amt_def)
  qed
  have "take_need hs need ! idx = T idx + amt need idx \<and> T idx + amt need idx \<le> cap"
  proof (cases "idx \<in> fst ` set need")
    case True
    then show ?thesis using take_need_nth [OF d h(3)] fit [OF True] h cap by (simp add: saturating_add_def)
  next
    case False
    then show ?thesis using take_need_nth [OF d h(3)] h by (simp add: amt_absent)
  qed
  then show "take_need hs need ! idx = T idx + amt need idx" "T idx + amt need idx \<le> cap" by simp_all
qed

lemma account_give:
  assumes "account lane hs (\<lambda>i. T i + amt need i)" "need_ok lane need"
  shows "account lane (give hs need) T"
  using assms give_nth [of need _ hs] unfolding account_def need_ok_def by fastforce

lemma account_cong: "account lane hs T \<Longrightarrow> (\<And>i. T i = T' i) \<Longrightarrow> account lane hs T'"
  by (simp add: account_def)

text \<open>An empty lane fits every need that was clamped to it.\<close>

lemma fits_when_free:
  assumes "need_ok lane need" "account lane hs T" "\<And>i. T i = 0"
  shows "fits (l_capacity lane) hs need"
  using assms unfolding fits_def list_all_iff need_ok_def account_def get_at_def
  by (fastforce split: prod.splits Limit.splits)

section \<open>The grant chain\<close>

definition used :: "Reservation list \<Rightarrow> nat \<Rightarrow> nat" where
  "used rs idx = sum_list (map (\<lambda>r. amt (granted r) idx) rs)"

lemma used_simps [simp]: "used [] idx = 0" "used (r # rs) idx = amt (granted r) idx + used rs idx"
  "used (rs @ rs') idx = used rs idx + used rs' idx"
  by (simp_all add: used_def)

definition reservation_of :: "Waiter \<Rightarrow> Reservation" where
  "reservation_of w = \<lparr> granted = w_need w, r_clamped = w_clamped w \<rparr>"

definition waiters_ok :: "Lane \<Rightarrow> (nat \<Rightarrow> bool) \<Rightarrow> (nat \<times> Waiter) list \<Rightarrow> bool" where
  "waiters_ok lane rx_open ws \<longleftrightarrow> (\<forall>(k, w)\<in>set ws. rx_open k \<and> need_ok lane (w_need w))"

lemma grant_loop_spec:
  assumes "lane_ok lane"
  shows "account lane hs T \<Longrightarrow> waiters_ok lane rx_open ws \<Longrightarrow>
    grant_loop (l_capacity lane) rx_open hs ws = (hs', ws', sent) \<Longrightarrow>
    \<exists>front. ws = front @ ws' \<and> sent = map (\<lambda>(k, w). (k, reservation_of w)) front
      \<and> account lane hs' (\<lambda>i. T i + used (map snd sent) i)
      \<and> (\<forall>k w rest. ws' = (k, w) # rest \<longrightarrow> \<not> fits (l_capacity lane) hs' (w_need w))"
proof (induction "l_capacity lane" rx_open hs ws arbitrary: T hs' ws' sent rule: grant_loop.induct)
  case (1 rx_open hs)
  then show ?case by simp
next
  case (2 rx_open hs seq w ws)
  show ?case
  proof (cases "fits (l_capacity lane) hs (w_need w)")
    case False
    then show ?thesis using 2 by auto
  next
    case True
    have w: "rx_open seq" "need_ok lane (w_need w)" "waiters_ok lane rx_open ws" using 2(4) by (auto simp: waiters_ok_def)
    obtain sent' where rest: "grant_loop (l_capacity lane) rx_open (take_need hs (w_need w)) ws = (hs', ws', sent')"
      "sent = (seq, reservation_of w) # sent'"
      using 2(5) True w(1) by (auto simp: Let_def reservation_of_def split: prod.splits)
    have acc: "account lane (take_need hs (w_need w)) (\<lambda>i. T i + amt (w_need w) i)"
      by (rule account_take [OF assms 2(3) w(2) True])
    have nn: "\<not> \<not> fits (l_capacity lane) hs (w_need w)" using True by simp
    obtain front where "ws = front @ ws'" "sent' = map (\<lambda>(k, w). (k, reservation_of w)) front"
      "account lane hs' (\<lambda>i. T i + amt (w_need w) i + used (map snd sent') i)"
      "\<forall>k w rest. ws' = (k, w) # rest \<longrightarrow> \<not> fits (l_capacity lane) hs' (w_need w)"
      using 2(1) [OF nn refl w(1) acc w(3) rest(1)] by blast
    then show ?thesis using rest(2)
      by (intro exI [of _ "(seq, w) # front"]) (simp add: reservation_of_def add.assoc)
  qed
qed

section \<open>The invariant\<close>

definition keys :: "('a \<times> 'b) list \<Rightarrow> 'a set" where
  "keys m = fst ` set m"

definition outstanding :: "PoolSys \<Rightarrow> Reservation list" where
  "outstanding s = sys_live s @ map snd (sys_chan s)"

text \<open>Amounts: the held amounts are what is outstanding, and every need was clamped.\<close>

definition inv_amounts :: "Lane \<Rightarrow> PoolSys \<Rightarrow> bool" where
  "inv_amounts lane s \<longleftrightarrow> account lane (held (sys_st s)) (used (outstanding s))
     \<and> (\<forall>r\<in>set (outstanding s). need_ok lane (granted r)) \<and> (\<forall>(k, w)\<in>set (waiters (sys_st s)). need_ok lane (w_need w))"

text \<open>Sequence numbers: the queue is in arrival order, and a waiting acquire is queued or has its
  grant, never both and never neither.\<close>

definition inv_seqs :: "PoolSys \<Rightarrow> bool" where
  "inv_seqs s \<longleftrightarrow> bt_ok (waiters (sys_st s)) \<and> distinct (map fst (sys_chan s))
     \<and> keys (waiters (sys_st s)) \<inter> keys (sys_chan s) = {} \<and> keys (waiters (sys_st s)) \<inter> sys_dropping s = {}
     \<and> keys (waiters (sys_st s)) \<union> keys (sys_chan s) \<subseteq> sys_rx s
     \<and> sys_rx s \<subseteq> keys (waiters (sys_st s)) \<union> keys (sys_chan s) \<union> sys_dropping s
     \<and> (\<forall>q\<in>sys_rx s. q < next_seq (sys_st s)) \<and> next_seq (sys_st s) < 2 ^ 64 \<and> sys_dropping s \<subseteq> sys_rx s"

text \<open>Order: grants are sent in arrival order.\<close>

definition inv_order :: "PoolSys \<Rightarrow> bool" where
  "inv_order s \<longleftrightarrow> sorted_wrt (<) (sys_log s) \<and> (\<forall>q\<in>set (sys_log s). q < next_seq (sys_st s)
     \<and> (\<forall>k\<in>keys (waiters (sys_st s)). q < k))"

definition head_blocked :: "Lane \<Rightarrow> State \<Rightarrow> bool" where
  "head_blocked lane st \<longleftrightarrow> (case waiters st of [] \<Rightarrow> True | (_, w) # _ \<Rightarrow> \<not> fits (l_capacity lane) (held st) (w_need w))"

definition unsettled_inv :: "Lane \<Rightarrow> PoolSys \<Rightarrow> bool" where
  "unsettled_inv lane s \<longleftrightarrow> inv_amounts lane s \<and> inv_seqs s \<and> inv_order s"

definition pool_inv :: "Lane \<Rightarrow> PoolSys \<Rightarrow> bool" where
  "pool_inv lane s \<longleftrightarrow> unsettled_inv lane s \<and> head_blocked lane (sys_st s)"

lemma keys_simps [simp]: "keys [] = {}" "keys (x # m) = insert (fst x) (keys m)" "keys (m @ n) = keys m \<union> keys n"
  by (simp_all add: keys_def image_Un)

lemma keys_map [simp]: "keys (map (\<lambda>(k, w). (k, f w)) m) = keys m"
  by (induction m) auto

lemma bt_ok_append: "bt_ok (m @ n) \<longleftrightarrow> bt_ok m \<and> bt_ok n \<and> (\<forall>a\<in>keys m. \<forall>b\<in>keys n. a < b)"
  by (auto simp: bt_ok_def sorted_wrt_append keys_def)

lemma keysI: "(k, w) \<in> set m \<Longrightarrow> k \<in> keys m"
  by (force simp: keys_def)

lemma inv_seqsD:
  assumes "inv_seqs s"
  shows "bt_ok (waiters (sys_st s))" "distinct (map fst (sys_chan s))"
    "keys (waiters (sys_st s)) \<inter> keys (sys_chan s) = {}" "keys (waiters (sys_st s)) \<inter> sys_dropping s = {}"
    "keys (waiters (sys_st s)) \<subseteq> sys_rx s" "keys (sys_chan s) \<subseteq> sys_rx s"
    "sys_rx s \<subseteq> keys (waiters (sys_st s)) \<union> keys (sys_chan s) \<union> sys_dropping s"
    "\<And>q. q \<in> sys_rx s \<Longrightarrow> q < next_seq (sys_st s)" "next_seq (sys_st s) < 2 ^ 64" "sys_dropping s \<subseteq> sys_rx s"
  using assms unfolding inv_seqs_def by blast+

lemma inv_seqsI:
  assumes "bt_ok (waiters (sys_st s))" "distinct (map fst (sys_chan s))"
    "keys (waiters (sys_st s)) \<inter> keys (sys_chan s) = {}" "keys (waiters (sys_st s)) \<inter> sys_dropping s = {}"
    "keys (waiters (sys_st s)) \<subseteq> sys_rx s" "keys (sys_chan s) \<subseteq> sys_rx s"
    "sys_rx s \<subseteq> keys (waiters (sys_st s)) \<union> keys (sys_chan s) \<union> sys_dropping s"
    "\<And>q. q \<in> sys_rx s \<Longrightarrow> q < next_seq (sys_st s)" "next_seq (sys_st s) < 2 ^ 64" "sys_dropping s \<subseteq> sys_rx s"
  shows "inv_seqs s"
  using assms unfolding inv_seqs_def by blast

lemma inv_amountsD:
  assumes "inv_amounts lane s"
  shows "account lane (held (sys_st s)) (used (outstanding s))"
    "\<And>r. r \<in> set (outstanding s) \<Longrightarrow> need_ok lane (granted r)"
    "\<And>k w. (k, w) \<in> set (waiters (sys_st s)) \<Longrightarrow> need_ok lane (w_need w)"
  using assms unfolding inv_amounts_def by blast+

text \<open>Running the chain settles a state: whatever it was, the head no longer fits.\<close>

lemma settle:
  assumes lane: "lane_ok lane" and inv: "unsettled_inv lane s"
  shows "pool_inv lane (sys_send (grant_chain lane (\<lambda>q. q \<in> sys_rx s) (sys_st s)) s)"
proof -
  obtain hs ws sent where g: "grant_loop (l_capacity lane) (\<lambda>q. q \<in> sys_rx s) (held (sys_st s)) (waiters (sys_st s)) = (hs, ws, sent)"
    by (metis prod_cases3)
  have amounts: "inv_amounts lane s" and seqs: "inv_seqs s" and order: "inv_order s" using inv by (simp_all add: unsettled_inv_def)
  have "waiters_ok lane (\<lambda>q. q \<in> sys_rx s) (waiters (sys_st s))"
    using inv_amountsD(3) [OF amounts] inv_seqsD(5) [OF seqs] unfolding waiters_ok_def by (blast dest: keysI)
  then obtain front where f: "waiters (sys_st s) = front @ ws" "sent = map (\<lambda>(k, w). (k, reservation_of w)) front"
    "account lane hs (\<lambda>i. used (outstanding s) i + used (map snd sent) i)"
    "\<forall>k w rest. ws = (k, w) # rest \<longrightarrow> \<not> fits (l_capacity lane) hs (w_need w)"
    using grant_loop_spec [OF lane inv_amountsD(1) [OF amounts] _ g] by blast
  let ?s = "sys_send (sys_st s\<lparr> held := hs, waiters := ws \<rparr>, sent) s"
  have out: "grant_chain lane (\<lambda>q. q \<in> sys_rx s) (sys_st s) = (sys_st s\<lparr> held := hs, waiters := ws \<rparr>, sent)"
    by (simp add: grant_chain_def g)
  have sel: "sys_st ?s = sys_st s\<lparr> held := hs, waiters := ws \<rparr>" "sys_chan ?s = sys_chan s @ sent" "sys_rx ?s = sys_rx s"
    "sys_dropping ?s = sys_dropping s" "sys_log ?s = sys_log s @ map fst sent" "outstanding ?s = outstanding s @ map snd sent"
    by (simp_all add: sys_send_def outstanding_def)
  have fst_sent: "map fst sent = map fst front" "keys sent = keys front" by (simp_all add: f(2) case_prod_beta comp_def)
  have split: "bt_ok front" "bt_ok ws" "\<And>a b. a \<in> keys front \<Longrightarrow> b \<in> keys ws \<Longrightarrow> a < b" "keys (waiters (sys_st s)) = keys front \<union> keys ws"
    using inv_seqsD(1) [OF seqs] f(1) by (auto simp: bt_ok_append)
  have sorted: "sorted_wrt (<) (map fst front)" using split(1) by (simp add: bt_ok_def)
  have "inv_amounts lane ?s"
    unfolding inv_amounts_def sel
  proof (intro conjI ballI)
    show "account lane (held (sys_st s\<lparr>held := hs, waiters := ws\<rparr>)) (used (outstanding s @ map snd sent))"
      using account_cong [OF f(3), of "used (outstanding s @ map snd sent)"] by simp
    fix r assume "r \<in> set (outstanding s @ map snd sent)"
    then show "need_ok lane (granted r)"
      using inv_amountsD(2,3) [OF amounts] f(1,2) by (auto simp: reservation_of_def) blast
  qed (use inv_amountsD(3) [OF amounts] f(1) in auto)
  moreover have "inv_seqs ?s"
  proof (rule inv_seqsI, unfold sel)
    show "distinct (map fst (sys_chan s @ sent))"
      using inv_seqsD(2,3) [OF seqs] split(4) sorted fst_sent by (auto simp: strict_sorted_iff keys_def)
    show "keys (waiters (sys_st s\<lparr>held := hs, waiters := ws\<rparr>)) \<inter> keys (sys_chan s @ sent) = {}"
      using inv_seqsD(3) [OF seqs] split(3,4) fst_sent by fastforce
  qed (use inv_seqsD [OF seqs] split fst_sent in auto)
  moreover have "inv_order ?s"
    unfolding inv_order_def sel
  proof (intro conjI ballI)
    show "sorted_wrt (<) (sys_log s @ map fst sent)"
    proof -
      have "x < y" if "x \<in> set (sys_log s)" "y \<in> keys front" for x y using order that split(4) by (auto simp: inv_order_def)
      moreover have "set (map fst front) = keys front" by (simp add: keys_def)
      ultimately show ?thesis using order sorted fst_sent(1) by (auto simp: inv_order_def sorted_wrt_append)
    qed
    fix q assume "q \<in> set (sys_log s @ map fst sent)"
    then have q: "q \<in> set (sys_log s) \<or> q \<in> keys front" using fst_sent by (auto simp: keys_def)
    then show "q < next_seq (sys_st s\<lparr>held := hs, waiters := ws\<rparr>)"
      using order inv_seqsD(5,8) [OF seqs] split(4) by (auto simp: inv_order_def)
    fix k assume "k \<in> keys (waiters (sys_st s\<lparr>held := hs, waiters := ws\<rparr>))"
    then show "q < k" using q order split(3,4) by (auto simp: inv_order_def)
  qed
  moreover have "head_blocked lane (sys_st ?s)" using f(4) by (auto simp: head_blocked_def sys_send_def split: list.splits)
  ultimately show ?thesis unfolding out pool_inv_def unsettled_inv_def by blast
qed

section \<open>Resolving keeps needs well-formed\<close>

lemma position_Some: "position x xs = Some i \<Longrightarrow> i < length xs \<and> xs ! i = x"
  by (induction x xs arbitrary: i rule: position.induct) (auto split: if_splits)

lemma position_None: "position x xs = None \<longleftrightarrow> x \<notin> set xs"
  by (induction x xs rule: position.induct) auto

lemma position_inj: "position x xs = Some i \<Longrightarrow> position y xs = Some i \<Longrightarrow> x = y"
  using position_Some by metis

text \<open>The pools a need draws on, by name.\<close>

definition need_pools :: "Lane \<Rightarrow> need \<Rightarrow> PoolName set" where
  "need_pools lane need = (\<lambda>i. l_names lane ! i) ` fst ` set need"

lemma lane_grant_ok:
  assumes "lane_ok lane" "need_ok lane (fst acc)" "p \<notin> need_pools lane (fst acc)"
    "lane_grant lane (position p (l_names lane)) amount acc = Ok acc'"
  shows "need_ok lane (fst acc') \<and> need_pools lane (fst acc') \<subseteq> insert p (need_pools lane (fst acc))"
proof -
  obtain i where i: "position p (l_names lane) = Some i" using assms(4) by (auto simp: lane_grant_def split: option.splits)
  then have len: "i < length (l_capacity lane)" "l_names lane ! i = p"
    using position_Some assms(1) by (fastforce simp: lane_ok_def)+
  have new: "i \<notin> fst ` set (fst acc)" using assms(3) len(2) by (auto simp: need_pools_def)
  show ?thesis
  proof (cases "amount = 0")
    case True
    then have "acc' = acc" using assms(4) i by (auto simp: lane_grant_def split: option.splits Limit.splits if_splits sum.splits)
    then show ?thesis using assms(2) by auto
  next
    case False
    then obtain g where g: "fst acc' = fst acc @ [(i, g)]" "\<And>cap. l_capacity lane ! i = Bounded cap \<Longrightarrow> g \<le> cap"
      using assms(4) i len(1) by (auto simp: lane_grant_def get_at_def split: option.splits Limit.splits if_splits sum.splits)
    then show ?thesis using assms(2) new len by (auto simp: need_ok_def need_pools_def)
  qed
qed

lemma resolve_loop_ok:
  "lane_ok lane \<Longrightarrow> need_ok lane (fst acc) \<Longrightarrow> distinct (map fst ds) \<Longrightarrow> need_pools lane (fst acc) \<inter> fst ` set ds = {} \<Longrightarrow>
    resolve_loop lane ds acc = Ok acc' \<Longrightarrow>
    need_ok lane (fst acc') \<and> need_pools lane (fst acc') \<subseteq> need_pools lane (fst acc) \<union> fst ` set ds"
proof (induction lane ds acc rule: resolve_loop.induct)
  case (2 lane pool amount ds acc)
  obtain acc1 where a: "lane_grant lane (position pool (l_names lane)) amount acc = Ok acc1" "resolve_loop lane ds acc1 = Ok acc'"
    using 2(6) by (auto simp: lane_index_def split: sum.splits)
  have one: "need_ok lane (fst acc1)" "need_pools lane (fst acc1) \<subseteq> insert pool (need_pools lane (fst acc))"
    using lane_grant_ok [OF 2(2,3) _ a(1)] 2(5) by auto
  have "pool \<notin> fst ` set ds" "distinct (map fst ds)" using 2(4) by simp_all
  moreover have "fst ` set ((pool, amount) # ds) = insert pool (fst ` set ds)" by simp
  moreover have "need_pools lane (fst acc1) \<inter> fst ` set ds = {}" using one(2) calculation 2(5) by blast
  ultimately have "need_ok lane (fst acc') \<and> need_pools lane (fst acc') \<subseteq> need_pools lane (fst acc1) \<union> fst ` set ds"
    using 2(1) [OF _ 2(2) one(1) _ _ a(2)] a(1) by (simp add: lane_index_def)
  then show ?case using one(2) by auto
qed simp

lemma resolve_request_ok:
  assumes lane: "lane_ok lane" and "bt_ok (dem_declared request)" and "resolve_request lane request = Ok (need, clamped)"
  shows "need_ok lane need"
proof -
  have d: "distinct (map fst (dem_declared request))" using assms(2) by (simp add: bt_ok_def strict_sorted_iff)
  obtain acc where acc: "resolve_loop lane (dem_declared request) ([], False) = Ok acc"
    using assms(3) by (auto simp: resolve_request_def split: sum.splits)
  have ok: "need_ok lane (fst acc)" "need_pools lane (fst acc) \<subseteq> fst ` set (dem_declared request)"
    using resolve_loop_ok [OF lane _ d _ acc] by (auto simp: need_ok_def need_pools_def)
  show ?thesis
  proof (cases "demand_declared request CPU = None")
    case True
    then have "CPU \<notin> need_pools lane (fst acc)" using ok(2) by (auto simp: demand_declared_def bt_lookup_None)
    moreover have "lane_grant lane (position CPU (l_names lane)) DEFAULT_CPU_MICROS acc = Ok (need, clamped)"
      using assms(3) acc True lane by (auto simp: resolve_request_def lane_ok_def split: sum.splits)
    ultimately show ?thesis using lane_grant_ok [OF lane ok(1)] by fastforce
  next
    case False
    then show ?thesis using assms(3) acc ok(1) by (auto simp: resolve_request_def)
  qed
qed

section \<open>Every step keeps the invariant\<close>

lemma unsettledI: "inv_amounts lane s \<Longrightarrow> inv_seqs s \<Longrightarrow> inv_order s \<Longrightarrow> unsettled_inv lane s"
  by (simp add: unsettled_inv_def)

lemma pool_invD:
  assumes "pool_inv lane s"
  shows "inv_amounts lane s" "inv_seqs s" "inv_order s" "head_blocked lane (sys_st s)"
  using assms by (simp_all add: pool_inv_def unsettled_inv_def)

lemma settle_with:
  assumes "lane_ok lane" "unsettled_inv lane (s\<lparr> sys_st := st \<rparr>)"
  shows "pool_inv lane (sys_send (grant_chain lane (\<lambda>q. q \<in> sys_rx s) st) s)"
  using settle [OF assms] by (simp add: sys_send_def)

lemma sys_send_nothing [simp]: "sys_send (sys_st s, []) s = s"
  by (simp add: sys_send_def)

text \<open>Giving a need back: what is outstanding without it.\<close>

lemma release_inv:
  assumes lane: "lane_ok lane" and seqs: "inv_seqs s" and order: "inv_order s" and blocked: "head_blocked lane (sys_st s)"
    and acc: "account lane (held (sys_st s)) (\<lambda>i. used (outstanding s) i + amt need i)" and need: "need_ok lane need"
    and ok: "\<forall>r\<in>set (outstanding s). need_ok lane (granted r)" "\<forall>(k, w)\<in>set (waiters (sys_st s)). need_ok lane (w_need w)"
  shows "pool_inv lane (sys_send (release lane (\<lambda>q. q \<in> sys_rx s) need (sys_st s)) s)"
proof (cases "need = []")
  case True
  then have "inv_amounts lane s" using acc ok by (simp add: inv_amounts_def amt_def)
  then show ?thesis using True seqs order blocked by (simp add: release_def pool_inv_def unsettled_inv_def)
next
  case False
  let ?st = "sys_st s\<lparr> held := give (held (sys_st s)) need \<rparr>"
  have "outstanding (s\<lparr> sys_st := ?st \<rparr>) = outstanding s" by (simp add: outstanding_def)
  then have "inv_amounts lane (s\<lparr> sys_st := ?st \<rparr>)"
    using account_give [OF acc need] ok by (simp add: inv_amounts_def)
  moreover have "inv_seqs (s\<lparr> sys_st := ?st \<rparr>)" "inv_order (s\<lparr> sys_st := ?st \<rparr>)"
    using seqs order by (simp_all add: inv_seqs_def inv_order_def)
  ultimately show ?thesis using settle_with [OF lane unsettledI] False by (simp add: release_def)
qed

lemma used_remove1: "r \<in> set rs \<Longrightarrow> used rs i = amt (granted r) i + used (remove1 r rs) i"
  by (induction rs) auto

lemma used_filter:
  "distinct (map fst m) \<Longrightarrow> (k, r) \<in> set m \<Longrightarrow>
     used (map snd m) i = amt (granted r) i + used (map snd (filter (\<lambda>(q, _). q \<noteq> k) m)) i"
proof (induction m)
  case (Cons x m)
  show ?case
  proof (cases "x = (k, r)")
    case True
    then have "filter (\<lambda>(q, _). q \<noteq> k) m = m" using Cons.prems(1) by (auto simp: filter_id_conv intro: rev_image_eqI)
    then show ?thesis using True by simp
  next
    case False
    then have "fst x \<noteq> k" "(k, r) \<in> set m" using Cons.prems by (auto intro: rev_image_eqI)
    then show ?thesis using Cons by (cases x) simp
  qed
qed simp

lemma keys_filter [simp]: "keys (filter (\<lambda>(q, _). q \<noteq> k) m) = keys m - {k}"
  by (auto simp: keys_def)

lemma bt_ok_filter: "bt_ok m \<Longrightarrow> bt_ok (filter P m)"
  unfolding bt_ok_def by (induction m) auto

lemma drop_reservation_inv:
  assumes "lane_ok lane" "pool_inv lane s" "r \<in> set (sys_live s)"
  shows "pool_inv lane (sys_send (release lane (\<lambda>q. q \<in> sys_rx s) (granted r) (sys_st s))
      (s\<lparr> sys_live := remove1 r (sys_live s) \<rparr>))"
proof -
  note i = pool_invD [OF assms(2)]
  note a = inv_amountsD [OF i(1)]
  let ?s = "s\<lparr> sys_live := remove1 r (sys_live s) \<rparr>"
  have "account lane (held (sys_st ?s)) (\<lambda>i. used (outstanding ?s) i + amt (granted r) i)"
    using a(1) used_remove1 [OF assms(3)] by (simp add: outstanding_def add_ac account_cong)
  moreover have "need_ok lane (granted r)" using a(2) assms(3) by (simp add: outstanding_def)
  moreover have "\<forall>r\<in>set (outstanding ?s). need_ok lane (granted r)"
    using a(2) by (auto simp: outstanding_def dest: set_mp [OF set_remove1_subset])
  moreover have "inv_seqs ?s" "inv_order ?s" using i(2,3) by (simp_all add: inv_seqs_def inv_order_def)
  ultimately show ?thesis using release_inv [OF assms(1), of ?s "granted r"] i(4) a(3) by auto
qed

lemma drop_receiver_inv:
  assumes "lane_ok lane" "pool_inv lane s" "seq \<in> sys_dropping s" "(seq, r) \<in> set (sys_chan s)"
  shows "pool_inv lane (sys_send (release lane (\<lambda>q. q \<in> sys_rx s - {seq}) (granted r) (sys_st s))
      (s\<lparr> sys_chan := filter (\<lambda>(k, _). k \<noteq> seq) (sys_chan s), sys_rx := sys_rx s - {seq},
         sys_dropping := sys_dropping s - {seq} \<rparr>))"
proof -
  note i = pool_invD [OF assms(2)]
  note a = inv_amountsD [OF i(1)] and q = inv_seqsD [OF i(2)]
  let ?s = "s\<lparr> sys_chan := filter (\<lambda>(k, _). k \<noteq> seq) (sys_chan s), sys_rx := sys_rx s - {seq},
         sys_dropping := sys_dropping s - {seq} \<rparr>"
  have "used (outstanding s) j = used (outstanding ?s) j + amt (granted r) j" for j
    using used_filter [OF q(2) assms(4)] by (simp add: outstanding_def)
  then have "account lane (held (sys_st ?s)) (\<lambda>i. used (outstanding ?s) i + amt (granted r) i)"
    using account_cong [OF a(1)] by simp
  moreover have "r \<in> set (outstanding s)" using assms(4) by (force simp: outstanding_def)
  moreover have "\<forall>r\<in>set (outstanding ?s). need_ok lane (granted r)" using a(2) by (auto simp: outstanding_def)
  moreover have "inv_seqs ?s"
  proof (rule inv_seqsI)
    show "distinct (map fst (sys_chan ?s))" using q(2) by (simp add: distinct_map_filter)
    show "keys (waiters (sys_st ?s)) \<subseteq> sys_rx ?s" using q(4,5) assms(3) by auto
  qed (use q in auto)
  moreover have "inv_order ?s" using i(3) by (simp add: inv_order_def)
  ultimately show ?thesis using release_inv [OF assms(1), of ?s "granted r"] i(4) a(2,3) by auto
qed

lemma account_swap:
  "account lane hs T \<Longrightarrow> length hs' = length hs \<Longrightarrow>
     (\<And>idx cap. idx < length hs \<Longrightarrow> l_capacity lane ! idx = Bounded cap \<Longrightarrow> hs' ! idx = hs ! idx) \<Longrightarrow> account lane hs' T"
  by (simp add: account_def)

lemma fits_bounded_cong:
  assumes "length hs' = length hs"
    "\<And>idx cap. idx < length hs \<Longrightarrow> get_at capacity idx = Some (Bounded cap) \<Longrightarrow> hs' ! idx = hs ! idx"
  shows "fits capacity hs' need = fits capacity hs need"
proof -
  have "(case (get_at capacity idx, get_at hs' idx) of (Some Unbounded, Some _) \<Rightarrow> True
       | (Some (Bounded cap), Some h) \<Rightarrow> n \<le> cap - h | _ \<Rightarrow> False)
     = (case (get_at capacity idx, get_at hs idx) of (Some Unbounded, Some _) \<Rightarrow> True
       | (Some (Bounded cap), Some h) \<Rightarrow> n \<le> cap - h | _ \<Rightarrow> False)" for idx n
    using assms(2) [of idx] assms(1) by (auto simp: get_at_def [of hs'] get_at_def [of hs] split: option.splits Limit.splits)
  then show ?thesis by (simp add: fits_def)
qed

lemma unbounded_need_fits:
  assumes "need_ok lane need" "\<not> needs_bounded lane need" "length hs = length (l_capacity lane)"
  shows "fits (l_capacity lane) hs need"
  using assms unfolding fits_def needs_bounded_def need_ok_def list_all_iff list_ex_iff get_at_def
  by (fastforce split: prod.splits Limit.splits)

lemma grant_inv:
  assumes lane: "lane_ok lane" and inv: "pool_inv lane s" and need: "need_ok lane need"
    and fit: "fits (l_capacity lane) (held (sys_st s)) need"
    and blocked: "head_blocked lane (sys_st s\<lparr> held := take_need (held (sys_st s)) need \<rparr>)"
  shows "pool_inv lane (sys_send (sys_st s\<lparr> held := take_need (held (sys_st s)) need \<rparr>, [])
      (s\<lparr> sys_live := \<lparr> granted = need, r_clamped = c \<rparr> # sys_live s \<rparr>))" (is "pool_inv lane ?s")
proof -
  note i = pool_invD [OF inv]
  note a = inv_amountsD [OF i(1)]
  have "account lane (held (sys_st ?s)) (used (outstanding ?s))"
    using account_cong [OF account_take [OF lane a(1) need fit], of "used (outstanding ?s)"]
    by (simp add: outstanding_def sys_send_def)
  moreover have "\<forall>r\<in>set (outstanding ?s). need_ok lane (granted r)" using a(2) need by (auto simp: outstanding_def sys_send_def)
  ultimately have "inv_amounts lane ?s" using a(3) by (auto simp: inv_amounts_def sys_send_def)
  moreover have "inv_seqs ?s" "inv_order ?s" using i(2,3) by (simp_all add: inv_seqs_def inv_order_def sys_send_def)
  moreover have "head_blocked lane (sys_st ?s)" using blocked by (simp add: sys_send_def)
  ultimately show ?thesis unfolding pool_inv_def unsettled_inv_def by blast
qed

lemma arrive_granted_inv:
  assumes lane: "lane_ok lane" and inv: "pool_inv lane s" and req: "bt_ok (dem_declared request)"
    and acq: "acquire lane (\<lambda>q. q \<in> sys_rx s) request (sys_st s) = Ok (Ready r, st, sent)"
  shows "pool_inv lane (sys_send (st, sent) (s\<lparr> sys_live := r # sys_live s \<rparr>))"
proof -
  obtain need c where rr: "resolve_request lane request = Ok (need, c)" using acq by (auto simp: acquire_def split: sum.splits)
  have need: "need_ok lane need" by (rule resolve_request_ok [OF lane req rr])
  note i = pool_invD [OF inv]
  have acc: "account lane (held (sys_st s)) (used (outstanding s))" using inv_amountsD(1) [OF i(1)] .
  then have len: "length (held (sys_st s)) = length (l_capacity lane)" by (simp add: account_def)
  have out: "r = \<lparr> granted = need, r_clamped = c \<rparr>" "st = sys_st s\<lparr> held := take_need (held (sys_st s)) need \<rparr>" "sent = []"
    and fit: "fits (l_capacity lane) (held (sys_st s)) need"
    and blocked: "head_blocked lane (sys_st s\<lparr> held := take_need (held (sys_st s)) need \<rparr>)"
  proof -
    have *: "r = \<lparr> granted = need, r_clamped = c \<rparr> \<and> st = sys_st s\<lparr> held := take_need (held (sys_st s)) need \<rparr> \<and> sent = []
      \<and> fits (l_capacity lane) (held (sys_st s)) need
      \<and> head_blocked lane (sys_st s\<lparr> held := take_need (held (sys_st s)) need \<rparr>)"
    proof (cases "needs_bounded lane need")
      case True
      then show ?thesis using acq rr
        by (auto simp: acquire_def enqueue_def Let_def head_blocked_def split: if_splits prod.splits)
    next
      case False
      have fit: "fits (l_capacity lane) (held (sys_st s)) need" by (rule unbounded_need_fits [OF need False len])
      have same: "take_need (held (sys_st s)) need ! idx = held (sys_st s) ! idx"
        if "idx < length (held (sys_st s))" "get_at (l_capacity lane) idx = Some (Bounded cap)" for idx cap
      proof -
        have "idx \<notin> fst ` set need" using False that(2) by (auto simp: needs_bounded_def list_ex_iff)
        then show ?thesis using take_need_nth [of need idx] need that(1) by (simp add: need_ok_def)
      qed
      have "head_blocked lane (sys_st s\<lparr> held := take_need (held (sys_st s)) need \<rparr>)"
        using i(4) fits_bounded_cong [of "take_need (held (sys_st s)) need" "held (sys_st s)" "l_capacity lane"] same
        by (auto simp: head_blocked_def split: list.splits)
      then show ?thesis using acq rr False fit
        by (auto simp: acquire_def grant_now_def take_need_def split: if_splits)
    qed
    from * show "r = \<lparr> granted = need, r_clamped = c \<rparr>" "st = sys_st s\<lparr> held := take_need (held (sys_st s)) need \<rparr>" "sent = []"
      "fits (l_capacity lane) (held (sys_st s)) need"
      "head_blocked lane (sys_st s\<lparr> held := take_need (held (sys_st s)) need \<rparr>)" by blast+
  qed
  then show ?thesis using grant_inv [OF lane inv need fit blocked, of c] by simp
qed

lemma arrive_queued_inv:
  assumes lane: "lane_ok lane" and inv: "pool_inv lane s" and req: "bt_ok (dem_declared request)"
    and acq: "acquire lane (\<lambda>q. q \<in> sys_rx s) request (sys_st s) = Ok (Waiting seq, st, sent)"
    and wrap: "next_seq (sys_st s) + 1 < 2 ^ 64"
  shows "pool_inv lane (sys_send (st, sent) (s\<lparr> sys_rx := insert seq (sys_rx s) \<rparr>))"
proof -
  obtain need c where rr: "resolve_request lane request = Ok (need, c)" using acq by (auto simp: acquire_def split: sum.splits)
  have need: "need_ok lane need" by (rule resolve_request_ok [OF lane req rr])
  note i = pool_invD [OF inv]
  note a = inv_amountsD [OF i(1)] and q = inv_seqsD [OF i(2)]
  let ?w = "\<lparr> w_need = need, w_clamped = c \<rparr>"
  let ?st = "sys_st s\<lparr> next_seq := Suc (next_seq (sys_st s)), waiters := waiters (sys_st s) @ [(next_seq (sys_st s), ?w)] \<rparr>"
  let ?s = "s\<lparr> sys_rx := insert seq (sys_rx s) \<rparr>"
  have late: "k < next_seq (sys_st s)" if "k \<in> keys (waiters (sys_st s))" for k using q(5,8) that by blast
  then have ins: "bt_insert (next_seq (sys_st s)) ?w (waiters (sys_st s)) = waiters (sys_st s) @ [(next_seq (sys_st s), ?w)]"
    by (intro bt_insert_last) (auto simp: keys_def)
  have out: "seq = next_seq (sys_st s)" "grant_chain lane (\<lambda>q. q \<in> sys_rx ?s) ?st = (st, sent)"
  proof -
    have fu: "(\<lambda>q. q \<in> sys_rx s)(n := True) = (\<lambda>q. q \<in> insert n (sys_rx s))" for n by (auto simp: fun_eq_iff)
    have "seq = next_seq (sys_st s) \<and> grant_chain lane (\<lambda>q. q \<in> insert seq (sys_rx s)) ?st = (st, sent)"
      using acq rr wrap
      by (auto simp: acquire_def enqueue_def grant_now_def Let_def ins fu split: if_splits prod.splits)
    then show "seq = next_seq (sys_st s)" "grant_chain lane (\<lambda>q. q \<in> sys_rx ?s) ?st = (st, sent)" by auto
  qed
  have fresh: "seq \<notin> sys_rx s" using q(8) out(1) by blast
  have "unsettled_inv lane (?s\<lparr> sys_st := ?st \<rparr>)"
  proof (rule unsettledI)
    have "outstanding (?s\<lparr> sys_st := ?st \<rparr>) = outstanding s" by (simp add: outstanding_def)
    then show "inv_amounts lane (?s\<lparr> sys_st := ?st \<rparr>)" using a need by (auto simp: inv_amounts_def)
    show "inv_seqs (?s\<lparr> sys_st := ?st \<rparr>)"
    proof (rule inv_seqsI)
      show "bt_ok (waiters (sys_st (?s\<lparr> sys_st := ?st \<rparr>)))" using q(1) late by (simp add: bt_ok_append) (simp add: bt_ok_def)
      show "keys (waiters (sys_st (?s\<lparr> sys_st := ?st \<rparr>))) \<inter> keys (sys_chan (?s\<lparr> sys_st := ?st \<rparr>)) = {}"
        using q(3,6) fresh out(1) by auto
      show "keys (waiters (sys_st (?s\<lparr> sys_st := ?st \<rparr>))) \<inter> sys_dropping (?s\<lparr> sys_st := ?st \<rparr>) = {}"
        using q(4,10) fresh out(1) by auto
    qed (use q out(1) wrap in \<open>auto simp: less_Suc_eq\<close>)
    show "inv_order (?s\<lparr> sys_st := ?st \<rparr>)" using i(3) by (auto simp: inv_order_def less_Suc_eq)
  qed
  then show ?thesis using settle_with [OF lane, where s = ?s and st = ?st] out(2) by simp
qed

lemma drop_guard_inv:
  assumes lane: "lane_ok lane" and inv: "pool_inv lane s" and seq: "seq \<in> sys_rx s" "seq \<notin> sys_dropping s"
  shows "pool_inv lane (sys_send (cancel lane (\<lambda>q. q \<in> sys_rx s) seq (sys_st s))
      (s\<lparr> sys_dropping := insert seq (sys_dropping s) \<rparr>))"
proof -
  note i = pool_invD [OF inv]
  note a = inv_amountsD [OF i(1)] and q = inv_seqsD [OF i(2)]
  let ?s = "s\<lparr> sys_dropping := insert seq (sys_dropping s) \<rparr>"
  show ?thesis
  proof (cases "bt_lookup (waiters (sys_st s)) seq = None")
    case True
    then have "seq \<notin> keys (waiters (sys_st s))" by (simp add: bt_lookup_None keys_def)
    then have "inv_seqs ?s" using q seq by (intro inv_seqsI) auto
    moreover have "inv_amounts lane ?s" "inv_order ?s" using i(1,3) by (simp_all add: inv_amounts_def inv_order_def outstanding_def)
    ultimately show ?thesis using True i(4) by (simp add: cancel_def pool_inv_def unsettled_inv_def sys_send_def)
  next
    case False
    let ?st = "sys_st s\<lparr> waiters := filter (\<lambda>(k, _). k \<noteq> seq) (waiters (sys_st s)) \<rparr>"
    have k: "seq \<in> keys (waiters (sys_st s))" using False by (simp add: bt_lookup_None keys_def)
    have "unsettled_inv lane (?s\<lparr> sys_st := ?st \<rparr>)"
    proof (rule unsettledI)
      have "outstanding (?s\<lparr> sys_st := ?st \<rparr>) = outstanding s" by (simp add: outstanding_def)
      then show "inv_amounts lane (?s\<lparr> sys_st := ?st \<rparr>)" using a by (auto simp: inv_amounts_def)
      show "inv_seqs (?s\<lparr> sys_st := ?st \<rparr>)"
        by (rule inv_seqsI) (use q k seq bt_ok_filter [OF q(1)] in auto)
      show "inv_order (?s\<lparr> sys_st := ?st \<rparr>)" using i(3) by (auto simp: inv_order_def)
    qed
    then show ?thesis using settle_with [OF lane, where s = ?s and st = ?st] False by (simp add: cancel_def)
  qed
qed

lemma poll_ready_inv:
  assumes inv: "pool_inv lane s" and seq: "(seq, r) \<in> set (sys_chan s)"
  shows "pool_inv lane (s\<lparr> sys_chan := filter (\<lambda>(k, _). k \<noteq> seq) (sys_chan s), sys_live := r # sys_live s,
      sys_rx := sys_rx s - {seq}, sys_dropping := sys_dropping s - {seq} \<rparr>)" (is "pool_inv lane ?s")
proof -
  note i = pool_invD [OF inv]
  note a = inv_amountsD [OF i(1)] and q = inv_seqsD [OF i(2)]
  have k: "seq \<in> keys (sys_chan s)" using seq by (rule keysI)
  have "used (outstanding s) j = used (outstanding ?s) j" for j
    using used_filter [OF q(2) seq] by (simp add: outstanding_def)
  then have "account lane (held (sys_st ?s)) (used (outstanding ?s))" using account_cong [OF a(1)] by simp
  moreover have "\<forall>r\<in>set (outstanding ?s). need_ok lane (granted r)" using a(2) seq by (force simp: outstanding_def)
  ultimately have "inv_amounts lane ?s" using a(3) by (auto simp: inv_amounts_def)
  moreover have "inv_seqs ?s"
  proof (rule inv_seqsI)
    show "distinct (map fst (sys_chan ?s))" using q(2) by (simp add: distinct_map_filter)
    show "keys (waiters (sys_st ?s)) \<subseteq> sys_rx ?s" using q(3,5) k by auto
  qed (use q in auto)
  moreover have "inv_order ?s" "head_blocked lane (sys_st ?s)" using i(3,4) by (simp_all add: inv_order_def)
  ultimately show ?thesis by (simp add: pool_inv_def unsettled_inv_def)
qed

lemma drop_empty_inv:
  assumes inv: "pool_inv lane s" and seq: "seq \<in> sys_dropping s" "seq \<notin> fst ` set (sys_chan s)"
  shows "pool_inv lane (s\<lparr> sys_rx := sys_rx s - {seq}, sys_dropping := sys_dropping s - {seq} \<rparr>)" (is "pool_inv lane ?s")
proof -
  note i = pool_invD [OF inv]
  note q = inv_seqsD [OF i(2)]
  have "inv_seqs ?s" by (rule inv_seqsI) (use q seq in \<open>auto simp: keys_def [of "sys_chan s"]\<close>)
  moreover have "inv_amounts lane ?s" "inv_order ?s" using i(1,3) by (simp_all add: inv_amounts_def inv_order_def outstanding_def)
  ultimately show ?thesis using i(4) by (simp add: pool_inv_def unsettled_inv_def)
qed

lemma pool_step_inv:
  assumes lane: "lane_ok lane" and "pool_step lane s s'"
  shows "pool_inv lane s \<Longrightarrow> pool_inv lane s'"
  using assms(2)
proof cases
  case (poll_ready seq r)
  assume "pool_inv lane s"
  then show ?thesis using poll_ready_inv [of lane s seq r] poll_ready by simp
next
  case (drop_receiver_granted seq r)
  assume "pool_inv lane s"
  from drop_receiver_inv [OF lane this drop_receiver_granted(2,3)] show ?thesis unfolding drop_receiver_granted(1) .
qed (auto intro: arrive_granted_inv arrive_queued_inv drop_guard_inv drop_empty_inv drop_reservation_inv lane)

lemma pool_start_inv:
  assumes "lane_new capacities = (lane, st)" "\<And>p cap. (p, Bounded cap) \<in> set capacities \<Longrightarrow> cap \<le> U64_MAX" "bt_ok capacities"
  shows "lane_ok lane" "pool_inv lane (sys_start st)"
proof -
  have "distinct (map fst capacities)" using assms(3) by (simp add: bt_ok_def strict_sorted_iff)
  then show "lane_ok lane" using assms(1,2) by (auto simp: lane_new_def lane_ok_def Let_def)
  show "pool_inv lane (sys_start st)" using assms(1)
    by (auto simp: lane_new_def Let_def sys_start_def pool_inv_def unsettled_inv_def inv_amounts_def inv_seqs_def inv_order_def
        head_blocked_def outstanding_def account_def)
qed

text \<open>The amounts the pools are configured with are 64-bit values.\<close>

definition caps_u64 :: "(rstr \<times> Limit) list \<Rightarrow> bool" where
  "caps_u64 capacities = (\<forall>(p, limit)\<in>set (bt_of_list capacities). \<forall>cap. limit = Bounded cap \<longrightarrow> cap \<le> U64_MAX)"

lemma pool_reachable_inv:
  assumes "pool_new capacities = (lane, st)" "caps_u64 capacities"
    "(pool_step lane)\<^sup>*\<^sup>* (sys_start st) s"
  shows "lane_ok lane" "pool_inv lane s"
proof -
  have start: "lane_ok lane" "pool_inv lane (sys_start st)"
    using pool_start_inv [OF assms(1) [unfolded pool_new_def]] assms(2) bt_of_list_ok by (fastforce simp: caps_u64_def)+
  then show "lane_ok lane" by simp
  show "pool_inv lane s" using assms(3) by (induction rule: rtranclp_induct) (use start pool_step_inv in blast)+
qed

lemma drained_queue:
  assumes "pool_inv lane s" "outstanding s = []"
  shows "waiters (sys_st s) = []"
proof (rule ccontr)
  assume "waiters (sys_st s) \<noteq> []"
  then obtain k w ws where w: "waiters (sys_st s) = (k, w) # ws" by (cases "waiters (sys_st s)") auto
  note a = inv_amountsD [OF pool_invD(1) [OF assms(1)]]
  have "fits (l_capacity lane) (held (sys_st s)) (w_need w)"
    using fits_when_free [OF a(3) a(1), of k w] w assms(2) by (simp add: used_def)
  then show False using pool_invD(4) [OF assms(1)] w by (simp add: head_blocked_def)
qed

text \<open>A pool of three CPUs, a target that holds two of them, and a second one that waits for two.\<close>

definition demo_pool :: "Lane \<times> State" where
  "demo_pool = pool_new [(CPU, Bounded 3)]"

definition demo_demand :: Demand where
  "demo_demand = \<lparr> dem_declared = [(CPU, 2)] \<rparr>"

definition demo_running :: PoolSys where
  "demo_running = sys_send (\<lparr> held = [2], waiters = [], next_seq = 0 \<rparr>, [])
     ((sys_start (snd demo_pool))\<lparr> sys_live := [\<lparr> granted = [(0, 2)], r_clamped = False \<rparr>] \<rparr>)"

definition demo_waiting :: PoolSys where
  "demo_waiting = sys_send (\<lparr> held = [2], waiters = [(0, \<lparr> w_need = [(0, 2)], w_clamped = False \<rparr>)], next_seq = 1 \<rparr>, [])
     (demo_running\<lparr> sys_rx := {0} \<rparr>)"

lemmas demo_defs = demo_pool_def demo_demand_def demo_running_def demo_waiting_def pool_new_def lane_new_def bt_of_list_def
  sys_start_def sys_send_def acquire_def resolve_request_def lane_grant_def lane_index_def get_at_def demand_declared_def
  bt_ok_def needs_bounded_def enqueue_def fits_def take_need_def saturating_add_def U64_MAX_def grant_chain_def

lemma demo_run: "(pool_step (fst demo_pool))\<^sup>*\<^sup>* (sys_start (snd demo_pool)) demo_waiting"
proof -
  have "pool_step (fst demo_pool) (sys_start (snd demo_pool)) demo_running"
    using pool_step.arrive_granted [of demo_demand "fst demo_pool" "sys_start (snd demo_pool)"
        "\<lparr> granted = [(0, 2)], r_clamped = False \<rparr>" "\<lparr> held = [2], waiters = [], next_seq = 0 \<rparr>" "[]"]
    by (simp add: demo_defs)
  moreover have "pool_step (fst demo_pool) demo_running demo_waiting"
    using pool_step.arrive_queued [of demo_demand "fst demo_pool" demo_running 0
        "\<lparr> held = [2], waiters = [(0, \<lparr> w_need = [(0, 2)], w_clamped = False \<rparr>)], next_seq = 1 \<rparr>" "[]"]
    by (simp add: demo_defs)
  ultimately show ?thesis by (rule converse_rtranclp_into_rtranclp [OF _ r_into_rtranclp])
qed

lemma demo_caps: "caps_u64 [(CPU, Bounded 3)]"
  by (simp add: caps_u64_def bt_of_list_def U64_MAX_def)

lemma demo_new: "pool_new [(CPU, Bounded 3)] = (fst demo_pool, snd demo_pool)"
  by (simp add: demo_pool_def)

section \<open>Properties\<close>

text \<open>C2: The admission pool never overcommits and never loses capacity: at every point of every
  interleaving of arrivals, polls, cancellations and releases, what a bounded pool counts as
  held is exactly the sum of the outstanding reservations (those tasks hold and those sent and
  not yet observed), and it is at most the pool's capacity.\<close>

theorem pool_never_overcommits:
  assumes "pool_new capacities = (lane, st)"
    and "caps_u64 capacities"
    and "(pool_step lane)\<^sup>*\<^sup>* (sys_start st) s"
    and "idx < length (l_capacity lane)" and "l_capacity lane ! idx = Bounded cap"
  shows "held (sys_st s) ! idx = used (outstanding s) idx \<and> used (outstanding s) idx \<le> cap"
  using inv_amountsD(1) [OF pool_invD(1) [OF pool_reachable_inv(2) [OF assms(1-3)]]] assms(4,5)
  by (auto simp: account_def)

theorem pool_never_overcommits_witness:
  "l_capacity (fst demo_pool) = [Bounded 3] \<and> outstanding demo_waiting \<noteq> []
   \<and> held (sys_st demo_waiting) ! 0 = used (outstanding demo_waiting) 0 \<and> used (outstanding demo_waiting) 0 \<le> 3"
proof -
  have "l_capacity (fst demo_pool) = [Bounded 3]" by (simp add: demo_defs)
  moreover have "outstanding demo_waiting \<noteq> []" by (simp add: demo_defs outstanding_def)
  ultimately show ?thesis using pool_never_overcommits [OF demo_new demo_caps demo_run, where idx = 0 and cap = 3] by simp
qed

text \<open>C8: No waiter is stranded: at every point of every interleaving, a waiting acquire that is not
  being dropped is in the queue or has its grant, and never both; the head of the queue does not
  fit beside what is held; and as soon as nothing is outstanding the queue is empty, so a release
  or a cancellation always admits whoever it can.\<close>

theorem pool_no_stranded_waiter:
  assumes "pool_new capacities = (lane, st)"
    and "caps_u64 capacities"
    and "(pool_step lane)\<^sup>*\<^sup>* (sys_start st) s"
  shows "(\<forall>q\<in>sys_rx s - sys_dropping s. (bt_lookup (waiters (sys_st s)) q \<noteq> None) \<noteq> (q \<in> fst ` set (sys_chan s)))
    \<and> (\<forall>k w ws. waiters (sys_st s) = (k, w) # ws \<longrightarrow> \<not> fits (l_capacity lane) (held (sys_st s)) (w_need w))
    \<and> (outstanding s = [] \<longrightarrow> waiters (sys_st s) = [])"
proof -
  have inv: "pool_inv lane s" by (rule pool_reachable_inv(2) [OF assms])
  note i = pool_invD [OF inv]
  note q = inv_seqsD [OF i(2)]
  have "(bt_lookup (waiters (sys_st s)) x \<noteq> None) \<noteq> (x \<in> fst ` set (sys_chan s))" if "x \<in> sys_rx s - sys_dropping s" for x
    using that q(3,7) unfolding bt_lookup_None keys_def by blast
  moreover have "\<not> fits (l_capacity lane) (held (sys_st s)) (w_need w)" if "waiters (sys_st s) = (k, w) # ws" for k w ws
    using i(4) that by (simp add: head_blocked_def)
  ultimately show ?thesis using drained_queue [OF inv] by blast
qed

theorem pool_no_stranded_waiter_witness:
  "0 \<in> sys_rx demo_waiting - sys_dropping demo_waiting
   \<and> (bt_lookup (waiters (sys_st demo_waiting)) 0 \<noteq> None) \<noteq> (0 \<in> fst ` set (sys_chan demo_waiting))
   \<and> outstanding demo_waiting \<noteq> []"
proof -
  have "0 \<in> sys_rx demo_waiting - sys_dropping demo_waiting" "waiters (sys_st demo_waiting) \<noteq> []" by (simp_all add: demo_defs)
  then show ?thesis using pool_no_stranded_waiter [OF demo_new demo_caps demo_run] by blast
qed

text \<open>C21: Admission is first come, first served: the grants of queued requests are sent in strict
  arrival order, none of them ahead of a request that still waits, and an arrival that needs some
  of a bounded pool is admitted at once only when the queue is empty.\<close>

theorem pool_fifo:
  assumes "pool_new capacities = (lane, st)"
    and "caps_u64 capacities"
    and "(pool_step lane)\<^sup>*\<^sup>* (sys_start st) s"
  shows "sorted_wrt (<) (sys_log s) \<and> (\<forall>q k w. q \<in> set (sys_log s) \<and> (k, w) \<in> set (waiters (sys_st s)) \<longrightarrow> q < k)
    \<and> (\<forall>request r st' sent. acquire lane (\<lambda>q. q \<in> sys_rx s) request (sys_st s) = Ok (Ready r, st', sent)
         \<and> needs_bounded lane (granted r) \<longrightarrow> waiters (sys_st s) = [])"
proof -
  have inv: "pool_inv lane s" by (rule pool_reachable_inv(2) [OF assms])
  have order: "inv_order s" using pool_invD(3) [OF inv] .
  have "q < k" if "q \<in> set (sys_log s)" "(k, w) \<in> set (waiters (sys_st s))" for q k w
    using order that keysI by (fastforce simp: inv_order_def)
  moreover have "waiters (sys_st s) = []"
    if "acquire lane (\<lambda>q. q \<in> sys_rx s) request (sys_st s) = Ok (Ready r, st', sent)" "needs_bounded lane (granted r)"
    for request r st' sent
    using that by (auto simp: acquire_def enqueue_def grant_now_def Let_def split: sum.splits prod.splits if_splits)
  moreover have "sorted_wrt (<) (sys_log s)" using order by (simp add: inv_order_def)
  ultimately show ?thesis by blast
qed

theorem pool_fifo_witness:
  "sorted_wrt (<) (sys_log demo_waiting) \<and> waiters (sys_st demo_waiting) \<noteq> []
   \<and> \<not> (\<exists>r st sent. acquire (fst demo_pool) (\<lambda>q. q \<in> sys_rx demo_waiting) demo_demand (sys_st demo_waiting) = Ok (Ready r, st, sent)
        \<and> needs_bounded (fst demo_pool) (granted r))"
proof -
  have "waiters (sys_st demo_waiting) \<noteq> []" by (simp add: demo_defs)
  then show ?thesis using pool_fifo [OF demo_new demo_caps demo_run] by blast
qed

section \<open>What a request is resolved to\<close>

text \<open>The pools a request names, the implicit CPU included; whether a pool refuses every request;
  and an amount limited by the capacity of its pool.\<close>

definition requested :: "Demand \<Rightarrow> (PoolName \<times> nat) list" where
  "requested request = dem_declared request @ (if demand_declared request CPU = None then [(CPU, DEFAULT_CPU_MICROS)] else [])"

definition pool_error :: "Lane \<Rightarrow> PoolName \<Rightarrow> AcquireError option" where
  "pool_error lane p = (case pool_capacity lane p of
     None \<Rightarrow> Some (UnknownPool p)
   | Some (Bounded cap) \<Rightarrow> if cap = 0 then Some (ZeroCapacity p) else None
   | Some Unbounded \<Rightarrow> None)"

definition clamp :: "Lane \<Rightarrow> PoolName \<Rightarrow> nat \<Rightarrow> nat" where
  "clamp lane p n = (case pool_capacity lane p of Some (Bounded cap) \<Rightarrow> min n cap | _ \<Rightarrow> n)"

lemma clamp_0 [simp]: "clamp lane p 0 = 0"
  by (simp add: clamp_def split: option.splits Limit.splits)

lemma lane_grant_exact:
  assumes "lane_ok lane"
  shows "lane_grant lane (lane_index lane p) n acc = (case pool_error lane p of
     Some (UnknownPool _) \<Rightarrow> Err GUnknown
   | Some _ \<Rightarrow> Err GZeroCapacity
   | None \<Rightarrow> Ok (if n \<noteq> 0 then (fst acc @ [(the (lane_index lane p), clamp lane p n)], snd acc \<or> clamp lane p n < n) else acc))"
proof (cases "lane_index lane p")
  case None
  then show ?thesis by (simp add: lane_grant_def pool_error_def pool_capacity_def)
next
  case (Some i)
  then have "i < length (l_capacity lane)" using assms position_Some by (fastforce simp: lane_index_def lane_ok_def)
  then show ?thesis using Some
    by (auto simp: lane_grant_def pool_error_def pool_capacity_def clamp_def get_at_def split: Limit.splits)
qed

lemma resolve_loop_exact:
  assumes "lane_ok lane"
  shows "case resolve_loop lane xs acc of
     Err e \<Rightarrow> \<exists>p\<in>fst ` set xs. pool_error lane p = Some e
   | Ok (need, clamped) \<Rightarrow> (\<forall>p\<in>fst ` set xs. pool_error lane p = None)
       \<and> need = fst acc @ map (\<lambda>(p, n). (the (lane_index lane p), clamp lane p n)) (filter (\<lambda>(p, n). n \<noteq> 0) xs)
       \<and> (clamped \<longleftrightarrow> snd acc \<or> (\<exists>(p, n)\<in>set xs. clamp lane p n < n))"
proof (induction xs arbitrary: acc)
  case (Cons x xs)
  obtain p n where x: "x = (p, n)" by (cases x)
  show ?case
  proof (cases "pool_error lane p")
    case None
    define acc' where "acc' = (if n \<noteq> 0 then (fst acc @ [(the (lane_index lane p), clamp lane p n)], snd acc \<or> clamp lane p n < n) else acc)"
    have eq: "resolve_loop lane (x # xs) acc = resolve_loop lane xs acc'"
      by (simp add: x lane_grant_exact [OF assms] None acc'_def)
    show ?thesis
    proof (cases "resolve_loop lane xs acc'")
      case (Inl e)
      then show ?thesis using Cons.IH [of acc'] unfolding eq by auto
    next
      case (Inr r)
      then show ?thesis using Cons.IH [of acc'] None unfolding eq
        by (cases r) (auto simp: x acc'_def)
    qed
  next
    case (Some e)
    then have "e = UnknownPool p \<or> e = ZeroCapacity p"
      by (auto simp: pool_error_def split: option.splits Limit.splits if_splits)
    then show ?thesis using Some by (auto simp: x lane_grant_exact [OF assms])
  qed
qed auto

lemma resolve_loop_append:
  "resolve_loop lane (xs @ ys) acc = (case resolve_loop lane xs acc of Err e \<Rightarrow> Err e | Ok acc' \<Rightarrow> resolve_loop lane ys acc')"
  by (induction lane xs acc rule: resolve_loop.induct) (auto split: sum.splits)

lemma resolve_request_loop:
  assumes "lane_ok lane"
  shows "resolve_request lane request = resolve_loop lane (requested request) ([], False)"
  using assms by (auto simp: resolve_request_def requested_def resolve_loop_append lane_ok_def lane_index_def
      split: sum.splits)

lemma requested_distinct: "bt_ok (dem_declared request) \<Longrightarrow> distinct (map fst (requested request))"
  using bt_lookup_None [of "dem_declared request" CPU]
  by (auto simp: requested_def bt_ok_def strict_sorted_iff demand_declared_def)

lemma bt_lookup_map_of: "bt_lookup m k = map_of m k"
  by (induction m k rule: bt_lookup.induct) auto

lemma requested_amount: "map_of (requested request) p = (case demand_declared request p of
     Some n \<Rightarrow> Some n | None \<Rightarrow> if p = CPU then Some DEFAULT_CPU_MICROS else None)"
  by (auto simp: requested_def map_add_def demand_declared_def bt_lookup_map_of split: option.splits)

lemma find_granted:
  assumes "lane_ok lane" "\<forall>p\<in>fst ` set xs. pool_error lane p = None" "distinct (map fst xs)"
  shows "(case find (\<lambda>(idx, n). get_at (l_names lane) idx = Some p)
      (map (\<lambda>(p, n). (the (lane_index lane p), clamp lane p n)) (filter (\<lambda>(p, n). n \<noteq> 0) xs)) of Some (_, n) \<Rightarrow> n | None \<Rightarrow> 0)
    = (case map_of xs p of Some n \<Rightarrow> clamp lane p n | None \<Rightarrow> 0)"
  using assms(2,3)
proof (induction xs)
  case (Cons x xs)
  obtain q n where x: "x = (q, n)" by (cases x)
  have "pool_error lane q = None" using Cons.prems(1) x by simp
  then obtain i where i: "lane_index lane q = Some i"
    by (cases "lane_index lane q") (auto simp: pool_error_def pool_capacity_def)
  then have "get_at (l_names lane) i = Some q" using position_Some by (fastforce simp: lane_index_def get_at_def)
  moreover have "map_of xs q = None" using Cons.prems(2) x by (auto simp: map_of_eq_None_iff)
  ultimately show ?case using Cons i by (auto simp: x)
qed simp

lemma resolve_request_exact:
  assumes "lane_ok lane" and "bt_ok (dem_declared request)"
  shows "case resolve_request lane request of
     Err e \<Rightarrow> \<exists>p. (p = CPU \<or> demand_declared request p \<noteq> None) \<and> pool_error lane p = Some e
   | Ok (need, clamped) \<Rightarrow>
       (\<forall>p. p = CPU \<or> demand_declared request p \<noteq> None \<longrightarrow> pool_error lane p = None)
       \<and> (\<forall>p. reservation_amount lane \<lparr> granted = need, r_clamped = clamped \<rparr> p = clamp lane p (demand_amount request p))
       \<and> (clamped \<longleftrightarrow> (\<exists>p. clamp lane p (demand_amount request p) < demand_amount request p))"
proof -
  note d = requested_distinct [OF assms(2)]
  have named: "p \<in> fst ` set (requested request) \<longleftrightarrow> p = CPU \<or> demand_declared request p \<noteq> None" for p
    using map_of_eq_None_iff [of "requested request" p] requested_amount [of request p]
    by (cases "demand_declared request p"; cases "p = CPU") simp_all
  have amount: "(case map_of (requested request) p of Some n \<Rightarrow> n | None \<Rightarrow> 0) = demand_amount request p" for p
    by (simp add: requested_amount demand_amount_def split: option.splits)
  have cut: "(\<exists>(p, n)\<in>set (requested request). clamp lane p n < n) \<longleftrightarrow> (\<exists>p. clamp lane p (demand_amount request p) < demand_amount request p)"
  proof -
    have "(\<exists>n. (p, n) \<in> set (requested request) \<and> clamp lane p n < n) \<longleftrightarrow> clamp lane p (demand_amount request p) < demand_amount request p" for p
      unfolding amount [of p, symmetric] map_of_eq_Some_iff [OF d, symmetric] by (simp split: option.splits)
    then show ?thesis by blast
  qed
  have granted: "(case map_of (requested request) p of Some n \<Rightarrow> clamp lane p n | None \<Rightarrow> 0) = clamp lane p (demand_amount request p)" for p
    unfolding amount [of p, symmetric] by (simp split: option.splits)
  note exact = resolve_loop_exact [OF assms(1), of "requested request" "([], False)", folded resolve_request_loop [OF assms(1)]]
  show ?thesis
  proof (cases "resolve_request lane request")
    case (Inl e)
    then obtain p where "p \<in> fst ` set (requested request)" "pool_error lane p = Some e" using exact by auto
    then show ?thesis using named Inl by auto
  next
    case (Inr r)
    obtain need clamped where r: "r = (need, clamped)" by (cases r)
    have ok: "\<forall>p\<in>fst ` set (requested request). pool_error lane p = None" using exact Inr r by simp
    have "reservation_amount lane \<lparr> granted = need, r_clamped = clamped \<rparr> p = clamp lane p (demand_amount request p)" for p
      using exact find_granted [OF assms(1) ok d, of p] granted [of p] by (simp add: Inr r reservation_amount_def)
    moreover have "\<forall>p. p = CPU \<or> demand_declared request p \<noteq> None \<longrightarrow> pool_error lane p = None"
      by (intro allI impI bspec [OF ok]) (simp only: named)
    moreover have "clamped \<longleftrightarrow> (\<exists>p. clamp lane p (demand_amount request p) < demand_amount request p)"
      using exact cut by (simp add: Inr r)
    ultimately show ?thesis by (simp only: Inr r sum.case prod.case) blast
  qed
qed

text \<open>Resolving a request is exact: it fails only for a pool that the request names (the
  implicit CPU included) and that does not exist or has capacity zero, with the error of that
  pool, and otherwise reserves of every pool the demanded amount limited by the capacity of the
  pool, saying so exactly when some amount was cut.\<close>

theorem acquire_amounts_exact:
  assumes "lane_ok lane" and "bt_ok (dem_declared request)"
  shows "case resolve_request lane request of
     Err e \<Rightarrow> \<exists>p. (p = CPU \<or> demand_declared request p \<noteq> None) \<and> pool_error lane p = Some e
   | Ok (need, clamped) \<Rightarrow>
       (\<forall>p. p = CPU \<or> demand_declared request p \<noteq> None \<longrightarrow> pool_error lane p = None)
       \<and> (\<forall>p. reservation_amount lane \<lparr> granted = need, r_clamped = clamped \<rparr> p = clamp lane p (demand_amount request p))
       \<and> (clamped \<longleftrightarrow> (\<exists>p. clamp lane p (demand_amount request p) < demand_amount request p))"
  using assms by (rule resolve_request_exact)

theorem acquire_amounts_exact_witness:
  "resolve_request (fst demo_pool) demo_demand = Ok ([(0, 2)], False)
   \<and> reservation_amount (fst demo_pool) \<lparr> granted = [(0, 2)], r_clamped = False \<rparr> CPU
     = clamp (fst demo_pool) CPU (demand_amount demo_demand CPU)"
proof -
  have r: "resolve_request (fst demo_pool) demo_demand = Ok ([(0, 2)], False)" by (simp add: demo_defs)
  moreover have "lane_ok (fst demo_pool)" "bt_ok (dem_declared demo_demand)" by (simp_all add: demo_defs lane_ok_def)
  ultimately show ?thesis using acquire_amounts_exact [of "fst demo_pool" demo_demand] by simp
qed

section \<open>The engine's pools against the pool they build\<close>

lemma bt_lookup_of_list: "bt_lookup (bt_of_list kvs) k = map_of (rev kvs) k"
proof (induction kvs rule: rev_induct)
  case (snoc kv kvs)
  then show ?case by (cases kv) (auto simp: bt_of_list_def)
qed (simp add: bt_of_list_def)

lemma pool_capacity_new:
  assumes "pool_new capacities = (lane, st)"
  shows "pool_capacity lane p = map_of (rev capacities) p"
proof -
  have "Option.bind (position p (map fst m)) (get_at (map snd m)) = map_of m p" for m :: "(PoolName \<times> Limit) list"
  proof (induction m)
    case (Cons kv m)
    have "Option.bind (map_option Suc j) (get_at (snd kv # map snd m)) = Option.bind j (get_at (map snd m))" for j
      by (cases j) (simp_all add: get_at_def)
    moreover have "get_at (snd kv # map snd m) 0 = Some (snd kv)" by (simp add: get_at_def)
    ultimately show ?case using Cons by (cases kv) auto
  qed simp
  then show ?thesis using assms bt_lookup_of_list [of capacities p]
    by (auto simp: pool_new_def lane_new_def Let_def pool_capacity_def lane_index_def bt_lookup_map_of)
qed

text \<open>The names the engine accepts at definition time are exactly the pools the admission pool is
  built with, whatever the host's memory reads as, and the CPU capacity it reports without building
  the pool is the one the built pool has; so a demand whose names were accepted is never refused
  as naming an unknown pool.\<close>

theorem engine_pools_agree:
  assumes "bt_ok specs" and "engine_pool (engine_pools_new specs parallelism) host_memory = (lane, st)"
  shows "(is_pool (engine_pools_new specs parallelism) p \<longleftrightarrow> pool_capacity lane p \<noteq> None)
    \<and> pool_capacity lane CPU = Some (Bounded (ep_cpu (engine_pools_new specs parallelism)))"
proof -
  let ?caps = "resolve_capacities specs parallelism host_memory"
  have new: "pool_new ?caps = (lane, st)" using assms(2) by (simp add: engine_pool_def engine_pools_new_def)
  have d: "distinct (map fst specs)" using assms(1) by (simp add: bt_ok_def strict_sorted_iff)
  have ne: "CPU \<noteq> MEMORY" by (simp add: CPU_def MEMORY_def)
  have dist: "distinct (map fst ?caps)"
    using d ne by (auto simp: resolve_capacities_def distinct_map_filter comp_def case_prod_unfold)
  have cap: "pool_capacity lane q = map_of ?caps q" for q
    using pool_capacity_new [OF new] map_of_inject_set [of "rev ?caps" ?caps] dist by (simp add: rev_map [symmetric])
  have "map_of (map (\<lambda>(p, s). (p, custom_limit s)) (filter (\<lambda>(p, s). p \<noteq> CPU \<and> p \<noteq> MEMORY) specs)) q
      = (if q = CPU \<or> q = MEMORY then None else map_option custom_limit (map_of specs q))" for q
    by (induction specs) auto
  then have all: "map_of ?caps q = (if q = CPU then Some (Bounded (cpu_limit specs parallelism))
      else if q = MEMORY then Some (memory_limit specs host_memory) else map_option custom_limit (map_of specs q))" for q
    by (auto simp: resolve_capacities_def)
  have "ep_cpu (engine_pools_new specs parallelism) = cpu_limit specs parallelism"
    by (simp add: engine_pools_new_def resolve_capacities_def)
  moreover have "is_pool (engine_pools_new specs parallelism) p \<longleftrightarrow> map_of ?caps p \<noteq> None"
    using ne by (auto simp: all is_pool_def engine_unit_def engine_pools_new_def of_builtin_def bt_lookup_map_of split: option.splits)
  ultimately show ?thesis by (simp add: cap all)
qed

theorem engine_pools_agree_witness:
  "let self = engine_pools_new [(u ''db'', \<lparr> ps_unit = UCount, ps_capacity = None \<rparr>)] 4; lane = fst (engine_pool self 0)
   in is_pool self (u ''db'') \<and> pool_capacity lane (u ''db'') \<noteq> None \<and> \<not> is_pool self (u ''gpu'') \<and> pool_capacity lane (u ''gpu'') = None"
proof -
  have specs: "bt_ok [(u ''db'', \<lparr> ps_unit = UCount, ps_capacity = None \<rparr>)]" by (simp add: bt_ok_def)
  have "is_pool (engine_pools_new [(u ''db'', \<lparr> ps_unit = UCount, ps_capacity = None \<rparr>)] 4) (u ''db'')"
    "\<not> is_pool (engine_pools_new [(u ''db'', \<lparr> ps_unit = UCount, ps_capacity = None \<rparr>)] 4) (u ''gpu'')"
    by (simp_all add: is_pool_def engine_unit_def engine_pools_new_def of_builtin_def CPU_def MEMORY_def)
  then show ?thesis using engine_pools_agree [OF specs prod.collapse [symmetric], of 4 "u ''db''" 0]
      engine_pools_agree [OF specs prod.collapse [symmetric], of 4 "u ''gpu''" 0]
    by (simp only: Let_def) blast
qed

end
