(* ===== verification/Expand.thy ===== *)
theory Expand
  imports Target
begin

text \<open>
  The inputs of a target as the engine uses them (engine/expand.rs): the magic introspection
  input replaced by file system inputs, and transparent groups replaced by their members.

  Resolving a definition (\<^verbatim>\<open>get_def\<close>) is a parameter.  The recursion of \<^verbatim>\<open>expand_inputs\<close>
  descends through groups and stops only at a group it is already inside, so it is modelled with
  fuel for the depth of the descent; the theory shows how much is enough.
\<close>

section \<open>File system targets and the introspection input\<close>

definition FS_PKG :: rstr where "FS_PKG = u ''@heph/fs''"

definition file_addr :: "rstr \<Rightarrow> AddrInner" where
  "file_addr path = \<lparr> addr_package = FS_PKG, addr_name = u ''file'', addr_args = [(u ''f'', path)] \<rparr>"

definition glob_addr :: "rstr \<Rightarrow> rstr list \<Rightarrow> AddrInner" where
  "glob_addr pattern exclude =
     (let args = [(u ''p'', pattern)];
          args = (if exclude \<noteq> [] then bt_insert (u ''e'') (join_with c_comma exclude) args else args)
      in \<lparr> addr_package = FS_PKG, addr_name = u ''glob'', addr_args = args \<rparr>)"

definition is_file_addr :: "AddrInner \<Rightarrow> bool" where
  "is_file_addr addr \<longleftrightarrow> addr_package addr = FS_PKG \<and> addr_name addr = u ''file''"

definition is_glob_addr :: "AddrInner \<Rightarrow> bool" where
  "is_glob_addr addr \<longleftrightarrow> addr_package addr = FS_PKG \<and> addr_name addr = u ''glob''"

definition is_fs_addr :: "AddrInner \<Rightarrow> bool" where
  "is_fs_addr addr \<longleftrightarrow> addr_package addr = FS_PKG"

definition INTROSPECT_PKG :: rstr where "INTROSPECT_PKG = u ''@heph/introspect''"

definition INTROSPECT_OUTPUTS_NAME :: rstr where "INTROSPECT_OUTPUTS_NAME = u ''outputs''"

definition is_introspect_outputs :: "AddrInner \<Rightarrow> bool" where
  "is_introspect_outputs addr \<longleftrightarrow> addr_package addr = INTROSPECT_PKG \<and> addr_name addr = INTROSPECT_OUTPUTS_NAME"

definition introspect_input :: "AddrInner \<Rightarrow> Input \<Rightarrow> Input" where
  "introspect_input fs_addr template =
     \<lparr> i_ref = \<lparr> ta_ref = fs_addr, ta_output = None, ta_filters = [] \<rparr>, i_mode = i_mode template,
       i_origin_id = i_origin_id template, i_annotations = i_annotations template, i_hashed = True, i_runtime = True \<rparr>"

fun content_fs_addr :: "Content \<Rightarrow> AddrInner" where
  "content_fs_addr (FilePath p) = file_addr p"
| "content_fs_addr (Glob p) = glob_addr p []"
| "content_fs_addr (DirPath p) = glob_addr (trim_end_matches (\<lambda>c. c = c_slash) p @ u ''/**/*'') []"

fun synthesize :: "Input \<Rightarrow> AddrInner list \<Rightarrow> AddrInner set \<Rightarrow> Input list \<Rightarrow> Input list" where
  "synthesize template [] seen out = out"
| "synthesize template (a # addrs) seen out =
     (if a \<in> seen then synthesize template addrs seen out
      else synthesize template addrs (insert a seen) (out @ [introspect_input a template]))"

definition synthesized_fs_inputs :: "Output list \<Rightarrow> Input \<Rightarrow> Input list" where
  "synthesized_fs_inputs outputs template =
     synthesize template (concat (map (\<lambda>out. map (\<lambda>p. content_fs_addr (p_content p)) (o_paths out)) outputs)) {} []"

definition expand_introspect_inputs :: "TargetDef \<Rightarrow> TargetDef" where
  "expand_introspect_inputs def =
     (if \<not> list_ex (\<lambda>i. is_introspect_outputs (ta_ref (i_ref i))) (td_inputs def) then def
      else def\<lparr> td_inputs := concat (map (\<lambda>input.
             if is_introspect_outputs (ta_ref (i_ref input)) then synthesized_fs_inputs (td_outputs def) input else [input])
           (td_inputs def)) \<rparr>)"

text \<open>The fs addresses of the outputs written in place (engine/result.rs), matched against the
  inputs that read them.\<close>

definition in_place_fs_addrs :: "Output list \<Rightarrow> AddrInner set" where
  "in_place_fs_addrs outputs =
     set (map (\<lambda>p. content_fs_addr (p_content p)) (filter (\<lambda>p. p_codegen_tree p = CodegenInPlace) (concat (map o_paths outputs))))"

section \<open>Expanding groups\<close>

record ParentOverride =
  po_origin_id :: rstr
  po_mode :: InputMode
  po_annotations :: "(rstr \<times> rstr) list"
  po_hashed :: bool
  po_runtime :: bool

datatype 'e expand_error =
    DefError 'e
  | EntrypointAsInput AddrInner rstr "AddrInner option"
  | CircularGroup rstr

text \<open>The parent's annotations are the base; the input's own win on a conflict.\<close>

definition merge_annotations :: "(rstr \<times> rstr) list \<Rightarrow> (rstr \<times> rstr) list \<Rightarrow> (rstr \<times> rstr) list" where
  "merge_annotations base own = fold (\<lambda>(k, v) m. bt_insert k v m) own base"

definition effective_override :: "ParentOverride option \<Rightarrow> Input \<Rightarrow> ParentOverride" where
  "effective_override parent input = (case parent of
     Some p \<Rightarrow> p\<lparr> po_annotations := merge_annotations (po_annotations p) (i_annotations input) \<rparr>
   | None \<Rightarrow> \<lparr> po_origin_id = i_origin_id input, po_mode = i_mode input, po_annotations = i_annotations input,
       po_hashed = i_hashed input, po_runtime = i_runtime input \<rparr>)"

definition override_input :: "ParentOverride \<Rightarrow> Input \<Rightarrow> Input" where
  "override_input p input = \<lparr> i_ref = i_ref input, i_mode = po_mode p, i_origin_id = po_origin_id p,
     i_annotations = merge_annotations (po_annotations p) (i_annotations input), i_hashed = po_hashed p, i_runtime = po_runtime p \<rparr>"

text \<open>The loop of \<^verbatim>\<open>expand_inputs\<close> over the inputs from position \<open>idx\<close>: \<open>result\<close> is allocated
  on the first group, \<open>visited\<close> are the groups the walk is inside.\<close>

fun expand_loop :: "nat \<Rightarrow> (AddrInner \<Rightarrow> 'e + TargetDef) \<Rightarrow> Input list \<Rightarrow> nat \<Rightarrow> Input list \<Rightarrow> ParentOverride option
    \<Rightarrow> rstr set \<Rightarrow> Input list option \<Rightarrow> ('e expand_error + Input list option \<times> rstr set) option" where
  "expand_loop fuel get_def inputs idx [] parent visited result = Some (Ok (result, visited))"
| "expand_loop fuel get_def inputs idx (input # rest) parent visited result =
     (case get_def (ta_ref (i_ref input)) of
        Err e \<Rightarrow> Some (Err (DefError e))
      | Ok def \<Rightarrow>
          if td_entrypoint def \<noteq> None
          then Some (Err (EntrypointAsInput (ta_ref (i_ref input)) (i_origin_id input) None))
          else if td_transparent def then
            (let out = (case result of Some v \<Rightarrow> v | None \<Rightarrow> take idx inputs);
                 addr_str = format_addr (ta_ref (i_ref input))
             in if addr_str \<in> visited then Some (Err (CircularGroup addr_str))
                else case fuel of
                    0 \<Rightarrow> None
                  | Suc fuel' \<Rightarrow>
                      (case expand_loop fuel' get_def (td_inputs def) 0 (td_inputs def)
                          (Some (effective_override parent input)) (insert addr_str visited) (Some []) of
                         None \<Rightarrow> None
                       | Some (Err e) \<Rightarrow> Some (Err e)
                       | Some (Ok (nested, visited')) \<Rightarrow>
                           expand_loop fuel get_def inputs (idx + 1) rest parent (visited' - {addr_str})
                             (Some (out @ (case nested of Some n \<Rightarrow> n | None \<Rightarrow> td_inputs def)))))
          else expand_loop fuel get_def inputs (idx + 1) rest parent visited
            (case parent of
               Some p \<Rightarrow> map_option (\<lambda>out. out @ [override_input p input]) result
             | None \<Rightarrow> map_option (\<lambda>out. out @ [input]) result))"

definition expand_inputs :: "nat \<Rightarrow> (AddrInner \<Rightarrow> 'e + TargetDef) \<Rightarrow> Input list \<Rightarrow> ParentOverride option \<Rightarrow> rstr set
    \<Rightarrow> ('e expand_error + Input list \<times> rstr set) option" where
  "expand_inputs fuel get_def inputs parent visited =
     map_option (map_sum id (\<lambda>(result, visited). (case result of Some v \<Rightarrow> v | None \<Rightarrow> inputs, visited)))
       (expand_loop fuel get_def inputs 0 inputs parent visited (map_option (\<lambda>_. []) parent))"

fun name_consumer :: "AddrInner \<Rightarrow> 'e expand_error \<Rightarrow> 'e expand_error" where
  "name_consumer addr (EntrypointAsInput e origin None) = EntrypointAsInput e origin (Some addr)"
| "name_consumer addr e = e"

definition expanded_inputs_for :: "nat \<Rightarrow> (AddrInner \<Rightarrow> 'e + TargetDef) \<Rightarrow> AddrInner \<Rightarrow> ('e expand_error + Input list) option" where
  "expanded_inputs_for fuel get_def addr = (case get_def addr of
     Err e \<Rightarrow> Some (Err (DefError e))
   | Ok def \<Rightarrow> map_option (map_sum (name_consumer addr) fst) (expand_inputs fuel get_def (td_inputs def) None {}))"

section \<open>The reference expansion\<close>

text \<open>One input stands for a list of inputs: itself, rewritten under a parent, or what the members
  of the group it names stand for.\<close>

fun expand_ref :: "nat \<Rightarrow> (AddrInner \<Rightarrow> 'e + TargetDef) \<Rightarrow> ParentOverride option \<Rightarrow> rstr set \<Rightarrow> Input list
    \<Rightarrow> ('e expand_error + Input list) option" where
  "expand_ref fuel get_def parent inside [] = Some (Ok [])"
| "expand_ref fuel get_def parent inside (input # rest) =
     (case (case get_def (ta_ref (i_ref input)) of
        Err e \<Rightarrow> Some (Err (DefError e))
      | Ok def \<Rightarrow>
          if td_entrypoint def \<noteq> None then Some (Err (EntrypointAsInput (ta_ref (i_ref input)) (i_origin_id input) None))
          else if \<not> td_transparent def then Some (Ok [case parent of Some p \<Rightarrow> override_input p input | None \<Rightarrow> input])
          else if format_addr (ta_ref (i_ref input)) \<in> inside then Some (Err (CircularGroup (format_addr (ta_ref (i_ref input)))))
          else (case fuel of
              0 \<Rightarrow> None
            | Suc fuel' \<Rightarrow> expand_ref fuel' get_def (Some (effective_override parent input))
                (insert (format_addr (ta_ref (i_ref input))) inside) (td_inputs def))) of
        None \<Rightarrow> None
      | Some (Err e) \<Rightarrow> Some (Err e)
      | Some (Ok front) \<Rightarrow> map_option (map_sum id ((@) front)) (expand_ref fuel get_def parent inside rest))"

definition is_group :: "(AddrInner \<Rightarrow> 'e + TargetDef) \<Rightarrow> Input \<Rightarrow> bool" where
  "is_group get_def input = (case get_def (ta_ref (i_ref input)) of Inr def \<Rightarrow> td_transparent def | Inl _ \<Rightarrow> False)"

lemma is_group_simps [simp]:
  "get_def (ta_ref (i_ref input)) = Ok def \<Longrightarrow> is_group get_def input = td_transparent def"
  "get_def (ta_ref (i_ref input)) = Err e \<Longrightarrow> \<not> is_group get_def input"
  by (simp_all add: is_group_def)

text \<open>The loop with its late allocation computes the reference.\<close>

lemma expand_loop_ref:
  assumes "parent \<noteq> None \<Longrightarrow> result \<noteq> None" "rest = drop idx inputs"
  shows "expand_loop fuel get_def inputs idx rest parent visited result =
    map_option (map_sum id (\<lambda>r. (case result of Some out \<Rightarrow> Some (out @ r)
        | None \<Rightarrow> if list_ex (is_group get_def) rest then Some (take idx inputs @ r) else None, visited)))
      (expand_ref fuel get_def parent visited rest)"
  using assms
proof (induction fuel get_def inputs idx rest parent visited result rule: expand_loop.induct)
  case (2 fuel get_def inputs idx input rest parent visited result)
  let ?a = "ta_ref (i_ref input)"
  have next_in: "input # rest = drop idx inputs \<Longrightarrow> rest = drop (idx + 1) inputs \<and> take (idx + 1) inputs = take idx inputs @ [input]"
    by (metis Suc_eq_plus1 drop_Suc list.sel(3) nth_via_drop take_Suc_conv_app_nth tl_drop drop_eq_Nil list.distinct(1) not_less)
  show ?case
  proof (cases "get_def ?a")
    case (Inr def)
    show ?thesis
    proof (cases "td_entrypoint def = None")
      case True
      show ?thesis
      proof (cases "td_transparent def")
        case group: True
        show ?thesis
        proof (cases "format_addr ?a \<in> visited")
          case False
          show ?thesis
          proof (cases fuel)
            case (Suc fuel')
            let ?nested = "expand_ref fuel' get_def (Some (effective_override parent input)) (insert (format_addr ?a) visited) (td_inputs def)"
            have nested: "expand_loop fuel' get_def (td_inputs def) 0 (td_inputs def) (Some (effective_override parent input))
                (insert (format_addr ?a) visited) (Some []) = map_option (map_sum id (\<lambda>r. (Some r, insert (format_addr ?a) visited))) ?nested"
              using "2.IH"(1) [OF Inr _ group refl refl False Suc] True by (simp add: id_def)
            show ?thesis
            proof (cases ?nested)
              case None
              then show ?thesis using nested True group False by (simp add: Inr Suc Let_def)
            next
              case (Some r)
              show ?thesis
              proof (cases r)
                case (Inl e)
                then show ?thesis using nested True group False Some by (simp add: Inr Suc Let_def)
              next
                case r: (Inr front)
                have "insert (format_addr ?a) visited - {format_addr ?a} = visited" using False by simp
                moreover have ok: "expand_loop fuel' get_def (td_inputs def) 0 (td_inputs def) (Some (effective_override parent input))
                    (insert (format_addr ?a) visited) (Some []) = Some (Ok (Some front, insert (format_addr ?a) visited))"
                  by (simp add: nested Some r)
                ultimately show ?thesis
                  using True group False Some r next_in [OF "2.prems"(2)]
                    "2.IH"(2) [OF Inr _ group refl refl False Suc ok refl refl]
                  by (simp add: Inr Suc Let_def option.map_comp sum.map_comp comp_def id_def split: option.splits)
              qed
            qed
          qed (use True group False in \<open>simp add: Inr Let_def\<close>)
        qed (use True group in \<open>simp add: Inr Let_def\<close>)
      next
        case False
        then show ?thesis
          using "2.IH"(3) [OF Inr _ False] True "2.prems"(1) next_in [OF "2.prems"(2)]
          by (cases parent; cases result) (simp_all add: Inr option.map_comp sum.map_comp comp_def id_def cong: if_cong)
      qed
    qed (simp add: Inr)
  qed simp
qed (auto split: option.splits)
theorem expand_inputs_ref:
  "expand_inputs fuel get_def inputs parent visited =
     map_option (map_sum id (\<lambda>r. (r, visited))) (expand_ref fuel get_def parent visited inputs)"
proof -
  have unchanged: "expand_ref fuel get_def None visited inputs = Some (Ok r) \<Longrightarrow> \<not> list_ex (is_group get_def) inputs \<Longrightarrow> r = inputs" for r
    by (induction inputs arbitrary: r) (auto simp: map_sum_iff is_group_def split: sum.splits option.splits if_splits)
  show ?thesis
    using expand_loop_ref [of parent "map_option (\<lambda>_. []) parent" inputs 0 inputs fuel get_def visited] unchanged
    by (cases "expand_ref fuel get_def parent visited inputs"; cases "the (expand_ref fuel get_def parent visited inputs)"; cases parent)
      (auto simp: expand_inputs_def)
qed

section \<open>What the expansion yields\<close>

text \<open>The membership of groups, on references: a group's own output and filters are not passed on.\<close>

inductive member :: "(AddrInner \<Rightarrow> 'e + TargetDef) \<Rightarrow> TargetAddr \<Rightarrow> TargetAddr \<Rightarrow> bool" for get_def where
  member: "get_def (ta_ref g) = Ok def \<Longrightarrow> td_transparent def \<Longrightarrow> m \<in> set (td_inputs def) \<Longrightarrow> member get_def g (i_ref m)"

definition is_leaf :: "(AddrInner \<Rightarrow> 'e + TargetDef) \<Rightarrow> TargetAddr \<Rightarrow> bool" where
  "is_leaf get_def t \<longleftrightarrow> (\<exists>def. get_def (ta_ref t) = Ok def \<and> \<not> td_transparent def \<and> td_entrypoint def = None)"

definition leaf_of :: "(AddrInner \<Rightarrow> 'e + TargetDef) \<Rightarrow> TargetAddr \<Rightarrow> TargetAddr \<Rightarrow> bool" where
  "leaf_of get_def t l \<longleftrightarrow> (member get_def)\<^sup>*\<^sup>* t l \<and> is_leaf get_def l"

definition routed_as :: "ParentOverride \<Rightarrow> Input \<Rightarrow> bool" where
  "routed_as p i \<longleftrightarrow> i_origin_id i = po_origin_id p \<and> i_mode i = po_mode p \<and> i_hashed i = po_hashed p \<and> i_runtime i = po_runtime p"

lemma leaf_of_group:
  assumes "get_def (ta_ref t) = Ok def" "td_transparent def"
  shows "leaf_of get_def t l \<longleftrightarrow> (\<exists>m\<in>set (td_inputs def). leaf_of get_def (i_ref m) l)"
proof
  assume l: "leaf_of get_def t l"
  then have "t \<noteq> l" using assms by (auto simp: leaf_of_def is_leaf_def)
  then obtain z where z: "member get_def t z" "(member get_def)\<^sup>*\<^sup>* z l" using l by (auto simp: leaf_of_def elim: converse_rtranclpE)
  then show "\<exists>m\<in>set (td_inputs def). leaf_of get_def (i_ref m) l"
    using l assms(1) by (auto simp: leaf_of_def elim!: member.cases)
next
  assume "\<exists>m\<in>set (td_inputs def). leaf_of get_def (i_ref m) l"
  then show "leaf_of get_def t l"
    using assms member.intros converse_rtranclp_into_rtranclp unfolding leaf_of_def by metis
qed

lemma leaf_of_leaf:
  assumes "is_leaf get_def t"
  shows "leaf_of get_def t l \<longleftrightarrow> l = t"
proof -
  have "\<not> member get_def t z" for z using assms by (auto simp: is_leaf_def elim!: member.cases)
  then show ?thesis using assms unfolding leaf_of_def by (metis converse_rtranclpE rtranclp.rtrancl_refl)
qed

lemma routed_override [simp]:
  "routed_as (effective_override (Some p) i) x \<longleftrightarrow> routed_as p x" "routed_as p (override_input p i)"
  "routed_as (effective_override None i) i" "i_ref (override_input p i) = i_ref i"
  by (simp_all add: routed_as_def effective_override_def override_input_def)

text \<open>What one input stands for, as the recursion sees it.\<close>

lemma expand_ref_Cons:
  assumes "expand_ref fuel get_def parent inside (input # rest) = Some r" "get_def (ta_ref (i_ref input)) = Ok def"
  obtains (entry) "td_entrypoint def \<noteq> None" "r = Err (EntrypointAsInput (ta_ref (i_ref input)) (i_origin_id input) None)"
  | (circular) "td_entrypoint def = None" "td_transparent def" "format_addr (ta_ref (i_ref input)) \<in> inside"
      "r = Err (CircularGroup (format_addr (ta_ref (i_ref input))))"
  | (group_err) fuel' e where "td_entrypoint def = None" "td_transparent def" "fuel = Suc fuel'" "r = Err e"
      "expand_ref fuel' get_def (Some (effective_override parent input)) (insert (format_addr (ta_ref (i_ref input))) inside) (td_inputs def) = Some (Err e)"
  | (group) fuel' front z where "td_entrypoint def = None" "td_transparent def" "fuel = Suc fuel'"
      "format_addr (ta_ref (i_ref input)) \<notin> inside"
      "expand_ref fuel' get_def (Some (effective_override parent input)) (insert (format_addr (ta_ref (i_ref input))) inside) (td_inputs def) = Some (Ok front)"
      "expand_ref fuel get_def parent inside rest = Some z" "map_sum id ((@) front) z = r"
  | (leaf) z where "is_leaf get_def (i_ref input)" "expand_ref fuel get_def parent inside rest = Some z"
      "map_sum id ((@) [case parent of Some p \<Rightarrow> override_input p input | None \<Rightarrow> input]) z = r"
proof (cases "td_entrypoint def = None")
  case True
  show ?thesis
  proof (cases "td_transparent def")
    case group: True
    then show ?thesis using assms True that(2,3,4)
      by (cases "format_addr (ta_ref (i_ref input)) \<in> inside") (auto split: nat.splits option.splits sum.splits)
  next
    case False
    then show ?thesis using assms True that(5) by (auto simp: is_leaf_def)
  qed
qed (use assms that(1) in auto)

lemma expand_ref_leaves:
  assumes "expand_ref fuel get_def parent inside inputs = Some (Ok out)"
  shows "i_ref ` set out = (\<Union>i\<in>set inputs. {l. leaf_of get_def (i_ref i) l})
    \<and> (\<forall>x\<in>set out. \<exists>i\<in>set inputs. leaf_of get_def (i_ref i) (i_ref x) \<and> routed_as (effective_override parent i) x)"
  using assms
proof (induction fuel arbitrary: parent inside inputs out rule: less_induct)
  case (less fuel)
  show ?case using less.prems
  proof (induction inputs arbitrary: out)
    case (Cons input rest)
    obtain def where def: "get_def (ta_ref (i_ref input)) = Ok def"
      using Cons.prems by (cases "get_def (ta_ref (i_ref input))") auto
    from Cons.prems def show ?case
    proof (cases rule: expand_ref_Cons)
      case (group fuel' front z)
      obtain r where r: "z = Ok r" "out = front @ r" using group(7) by (auto simp: map_sum_iff)
      have "fuel' < fuel" using group(3) by simp
      note n = less.IH [OF this group(5)]
      have "i_ref ` set front = {l. leaf_of get_def (i_ref input) l}"
        "\<forall>x\<in>set front. leaf_of get_def (i_ref input) (i_ref x) \<and> routed_as (effective_override parent input) x"
        using n by (auto simp: leaf_of_group [where get_def = get_def, OF def group(2)])
      then show ?thesis using Cons.IH [OF group(6) [unfolded r(1)]] by (auto simp: r(2) image_Un)
    next
      case (leaf z)
      obtain r where r: "z = Ok r" "out = (case parent of Some p \<Rightarrow> override_input p input | None \<Rightarrow> input) # r"
        using leaf(3) by (auto simp: map_sum_iff)
      have "routed_as (effective_override parent input) (case parent of Some p \<Rightarrow> override_input p input | None \<Rightarrow> input)"
        "i_ref (case parent of Some p \<Rightarrow> override_input p input | None \<Rightarrow> input) = i_ref input"
        by (cases parent; simp)+
      then show ?thesis using Cons.IH [OF leaf(2) [unfolded r(1)]] by (auto simp: r(2) leaf_of_leaf [OF leaf(1)])
    qed auto
  qed simp
qed

lemma expand_ref_depth:
  assumes "expand_ref fuel get_def parent inside inputs = Some (Ok out)" "i \<in> set inputs" "(member get_def ^^ n) (i_ref i) t"
  shows "n \<le> fuel"
  using assms
proof (induction fuel arbitrary: parent inside inputs out i n rule: less_induct)
  case (less fuel)
  show ?case using less.prems
  proof (induction inputs arbitrary: out)
    case (Cons input rest)
    obtain def where def: "get_def (ta_ref (i_ref input)) = Ok def"
      using Cons.prems by (cases "get_def (ta_ref (i_ref input))") auto
    from Cons.prems(1) def show ?case
    proof (cases rule: expand_ref_Cons)
      case (group fuel' front z)
      show ?thesis
      proof (cases "i \<in> set rest")
        case True
        then show ?thesis using Cons group(6,7) by (auto simp: map_sum_iff)
      next
        case False
        then have i: "i = input" using Cons.prems(2) by simp
        show ?thesis
        proof (cases n)
          case (Suc k)
          then obtain s where s: "member get_def (i_ref input) s" "(member get_def ^^ k) s t"
            using Cons.prems(3) i by (auto simp: relpowp_commute [symmetric] elim: relpowp_Suc_E2)
          then obtain m where "m \<in> set (td_inputs def)" "s = i_ref m" using def by (auto elim!: member.cases)
          then have "k \<le> fuel'" using less.IH [OF _ group(5)] s(2) group(3) by simp
          then show ?thesis using Suc group(3) by simp
        qed simp
      qed
    next
      case (leaf z)
      have "\<not> member get_def (i_ref input) s" for s using leaf(1) by (auto simp: is_leaf_def elim!: member.cases)
      then have "i = input \<Longrightarrow> n = 0" using Cons.prems(3) by (metis not0_implies_Suc relpowp_Suc_E2)
      then show ?thesis using Cons leaf(2,3) by (auto simp: map_sum_iff)
    qed auto
  qed simp
qed

definition closed_under_groups :: "(AddrInner \<Rightarrow> 'e + TargetDef) \<Rightarrow> AddrInner set \<Rightarrow> bool" where
  "closed_under_groups get_def R \<longleftrightarrow> (\<forall>a\<in>R. \<forall>def. get_def a = Ok def \<and> td_transparent def \<longrightarrow> (\<forall>m\<in>set (td_inputs def). ta_ref (i_ref m) \<in> R))"

lemma expand_ref_returns:
  assumes "finite R" "closed_under_groups get_def R"
    "\<forall>i\<in>set inputs. ta_ref (i_ref i) \<in> R" "card (format_addr ` R - inside) \<le> fuel"
  shows "expand_ref fuel get_def parent inside inputs \<noteq> None"
  using assms(3,4)
proof (induction fuel arbitrary: parent inside inputs)
  case 0
  then have "format_addr ` R \<subseteq> inside" using assms(1) by simp
  then show ?case using 0(1) by (induction inputs) (auto split: sum.splits)
next
  case (Suc fuel)
  show ?case using Suc.prems(1)
  proof (induction inputs)
    case (Cons input rest)
    let ?a = "ta_ref (i_ref input)"
    have nested: "expand_ref fuel get_def p (insert (format_addr ?a) inside) (td_inputs def) \<noteq> None"
      if "get_def ?a = Ok def" "td_transparent def" "format_addr ?a \<notin> inside" for def p
    proof (rule Suc.IH)
      show "\<forall>i\<in>set (td_inputs def). ta_ref (i_ref i) \<in> R"
        using assms(2) Cons.prems that(1,2) by (auto simp: closed_under_groups_def)
      have "format_addr ` R - insert (format_addr ?a) inside \<subset> format_addr ` R - inside" using Cons.prems that(3) by auto
      then have "card (format_addr ` R - insert (format_addr ?a) inside) < card (format_addr ` R - inside)"
        by (rule psubset_card_mono [rotated]) (simp add: assms(1))
      then show "card (format_addr ` R - insert (format_addr ?a) inside) \<le> fuel" using Suc.prems(2) by linarith
    qed
    have rest: "expand_ref (Suc fuel) get_def parent inside rest \<noteq> None" using Cons by simp
    show ?case
    proof (cases "get_def ?a")
      case (Inr def)
      show ?thesis using rest nested [OF Inr, of "Some (effective_override parent input)"]
        by (auto simp: Inr split: sum.splits option.splits)
    qed simp
  qed simp
qed

lemma expand_ref_circular:
  assumes "expand_ref fuel get_def parent inside inputs = Some (Err (CircularGroup s))"
  shows "\<exists>i\<in>set inputs. \<exists>g. (member get_def)\<^sup>*\<^sup>* (i_ref i) g \<and> format_addr (ta_ref g) = s
    \<and> (s \<in> inside \<or> (\<exists>g0. (member get_def)\<^sup>*\<^sup>* (i_ref i) g0 \<and> (member get_def)\<^sup>+\<^sup>+ g0 g \<and> format_addr (ta_ref g0) = s))"
  using assms
proof (induction fuel arbitrary: parent inside inputs rule: less_induct)
  case (less fuel)
  show ?case using less.prems
  proof (induction inputs)
    case (Cons input rest)
    obtain def where def: "get_def (ta_ref (i_ref input)) = Ok def"
      using Cons.prems by (cases "get_def (ta_ref (i_ref input))") auto
    from Cons.prems def show ?case
    proof (cases rule: expand_ref_Cons)
      case (group_err fuel' e)
      then have nested: "expand_ref fuel' get_def (Some (effective_override parent input))
          (insert (format_addr (ta_ref (i_ref input))) inside) (td_inputs def) = Some (Err (CircularGroup s))" by simp
      obtain m g where m: "m \<in> set (td_inputs def)" "(member get_def)\<^sup>*\<^sup>* (i_ref m) g" "format_addr (ta_ref g) = s"
        "s \<in> insert (format_addr (ta_ref (i_ref input))) inside
          \<or> (\<exists>g0. (member get_def)\<^sup>*\<^sup>* (i_ref m) g0 \<and> (member get_def)\<^sup>+\<^sup>+ g0 g \<and> format_addr (ta_ref g0) = s)"
        using less.IH [of fuel', OF _ nested] group_err(3) by blast
      have step: "member get_def (i_ref input) (i_ref m)" using def group_err(2) m(1) by (rule member.intros)
      have "(member get_def)\<^sup>+\<^sup>+ (i_ref input) g" using step m(2) by (rule rtranclp_into_tranclp2)
      moreover have "(member get_def)\<^sup>*\<^sup>* (i_ref input) g0" if "(member get_def)\<^sup>*\<^sup>* (i_ref m) g0" for g0
        using step that by (rule converse_rtranclp_into_rtranclp)
      moreover have "(member get_def)\<^sup>*\<^sup>* (i_ref input) (i_ref input)" by simp
      ultimately have "s \<in> inside \<or> (\<exists>g0. (member get_def)\<^sup>*\<^sup>* (i_ref input) g0 \<and> (member get_def)\<^sup>+\<^sup>+ g0 g \<and> format_addr (ta_ref g0) = s)"
        using m(4) by blast
      then show ?thesis using m(3) converse_rtranclp_into_rtranclp [OF step m(2)]
        by (intro bexI [of _ input] exI [of _ g]) simp_all
    qed (use Cons.IH in \<open>auto simp: map_sum_iff\<close>)
  qed simp
qed

lemma expand_inputs_OkD:
  "expand_inputs fuel get_def inputs parent visited = Some (Ok (out, v)) \<Longrightarrow>
     v = visited \<and> expand_ref fuel get_def parent visited inputs = Some (Ok out)"
  by (auto simp: expand_inputs_ref map_sum_iff)

lemma expand_inputs_ErrD:
  "expand_inputs fuel get_def inputs parent visited = Some (Err e) \<Longrightarrow>
     expand_ref fuel get_def parent visited inputs = Some (Err e)"
  by (auto simp: expand_inputs_ref map_sum_iff)

section \<open>The introspection input\<close>

lemma synthesize_set:
  "set (synthesize template addrs seen out) = set out \<union> (\<lambda>a. introspect_input a template) ` (set addrs - seen)"
  by (induction template addrs seen out rule: synthesize.induct) auto

lemma content_fs_addr_pkg: "addr_package (content_fs_addr c) = FS_PKG"
  by (cases c) (simp_all add: file_addr_def glob_addr_def Let_def)

lemma fs_not_introspect: "\<not> is_introspect_outputs (content_fs_addr c)"
  by (simp add: is_introspect_outputs_def content_fs_addr_pkg FS_PKG_def INTROSPECT_PKG_def)

lemma synthesized_set:
  "set (synthesized_fs_inputs outputs template) =
     {introspect_input (content_fs_addr (p_content p)) template | p out. out \<in> set outputs \<and> p \<in> set (o_paths out)}"
  by (auto simp: synthesized_fs_inputs_def synthesize_set)

lemma expand_introspect_set:
  "set (td_inputs (expand_introspect_inputs def)) =
     {i \<in> set (td_inputs def). \<not> is_introspect_outputs (ta_ref (i_ref i))}
     \<union> (\<Union>i\<in>{i \<in> set (td_inputs def). is_introspect_outputs (ta_ref (i_ref i))}. set (synthesized_fs_inputs (td_outputs def) i))"
  by (auto simp: expand_introspect_inputs_def list_ex_iff split: if_splits)

lemma expand_introspect_none:
  "i \<in> set (td_inputs (expand_introspect_inputs def)) \<Longrightarrow> \<not> is_introspect_outputs (ta_ref (i_ref i))"
  by (auto simp: expand_introspect_set synthesized_set introspect_input_def fs_not_introspect)

text \<open>A target with the group \<open>//:g\<close> as its only input, which has two files as members.\<close>

definition demo_ref :: "rstr \<Rightarrow> TargetAddr" where
  "demo_ref name = \<lparr> ta_ref = \<lparr> addr_package = [], addr_name = name, addr_args = [] \<rparr>, ta_output = None, ta_filters = [] \<rparr>"

definition demo_input :: "rstr \<Rightarrow> rstr \<Rightarrow> Input" where
  "demo_input origin name = \<lparr> i_ref = demo_ref name, i_mode = Standard, i_origin_id = origin, i_annotations = [], i_hashed = True, i_runtime = True \<rparr>"

definition demo_def :: "rstr \<Rightarrow> Input list \<Rightarrow> bool \<Rightarrow> TargetDef" where
  "demo_def name inputs transparent = \<lparr> td_addr = ta_ref (demo_ref name), td_labels = [], td_inputs = inputs, td_outputs = [],
     td_support_files = [], td_entrypoint = None, td_transparent = transparent \<rparr>"

definition demo_get :: "AddrInner \<Rightarrow> unit + TargetDef" where
  "demo_get a = (if addr_name a = u ''g'' then Ok (demo_def (u ''g'') [demo_input (u ''m0'') (u ''a''), demo_input (u ''m1'') (u ''b'')] True)
     else if addr_name a = u ''loop'' then Ok (demo_def (u ''loop'') [demo_input (u ''m0'') (u ''loop'')] True)
     else Ok (demo_def (addr_name a) [] False))"

lemmas demo_defs = demo_ref_def demo_input_def demo_def_def demo_get_def

lemma demo_expansion:
  "expand_inputs 1 demo_get [demo_input (u ''dep|0'') (u ''g'')] None {}
     = Some (Ok ([demo_input (u ''dep|0'') (u ''a''), demo_input (u ''dep|0'') (u ''b'')], {}))"
  by (simp add: expand_inputs_ref demo_defs effective_override_def override_input_def merge_annotations_def)

lemma demo_circular:
  "expand_inputs 1 demo_get [demo_input (u ''dep|0'') (u ''loop'')] None {} = Some (Err (CircularGroup (u ''//:loop'')))"
  by (simp add: expand_inputs_ref demo_defs format_addr_def)

section \<open>Properties\<close>

text \<open>C10: The walk with its late allocation and its shared set of visited groups computes the plain
  recursive expansion, input by input and in order, and leaves the set as it found it; so a group
  may be reached along several paths without being taken for a cycle.\<close>

theorem expand_inputs_refines:
  "expand_inputs fuel get_def inputs parent visited =
     map_option (map_sum id (\<lambda>r. (r, visited))) (expand_ref fuel get_def parent visited inputs)"
  by (rule expand_inputs_ref)

text \<open>C12: An expansion yields exactly the targets that are reachable through groups from the
  declared inputs and are not groups themselves, no entrypoint among them, and each of them is
  routed (origin, mode, hashed and runtime flags) as the declared input it came in through.\<close>

theorem expand_inputs_leaves:
  assumes "expand_inputs fuel get_def inputs None {} = Some (Ok (out, visited))"
  shows "i_ref ` set out = (\<Union>i\<in>set inputs. {l. leaf_of get_def (i_ref i) l})
    \<and> (\<forall>x\<in>set out. \<exists>i\<in>set inputs. leaf_of get_def (i_ref i) (i_ref x) \<and> i_origin_id x = i_origin_id i
         \<and> i_mode x = i_mode i \<and> i_hashed x = i_hashed i \<and> i_runtime x = i_runtime i)"
  using expand_ref_leaves [of fuel get_def None "{}" inputs out] expand_inputs_OkD [OF assms]
  by (auto simp: routed_as_def effective_override_def)

theorem expand_inputs_leaves_witness:
  "i_ref ` set [demo_input (u ''dep|0'') (u ''a''), demo_input (u ''dep|0'') (u ''b'')]
     = {l. leaf_of demo_get (demo_ref (u ''g'')) l}"
  using expand_inputs_leaves [OF demo_expansion] by (simp add: demo_input_def)

text \<open>C26: Expansion terminates: over a finite set of targets closed under group membership, fuel for
  the number of targets in it is enough, whatever cycles the groups have.\<close>

theorem expand_inputs_returns:
  assumes "finite R" and "closed_under_groups get_def R" and "\<forall>i\<in>set inputs. ta_ref (i_ref i) \<in> R"
  shows "\<exists>r. expand_inputs (card R) get_def inputs parent visited = Some r"
proof -
  have "card (format_addr ` R - visited) \<le> card R"
    using card_Diff_subset_Int [of "format_addr ` R" visited] card_image_le [OF assms(1), of format_addr] assms(1)
    by (meson Diff_subset card_mono finite_imageI le_trans)
  then show ?thesis using expand_ref_returns [OF assms] by (auto simp: expand_inputs_ref)
qed

theorem expand_inputs_returns_witness:
  "\<exists>r. expand_inputs 1 demo_get [demo_input (u ''dep|0'') (u ''loop'')] None {} = Some r"
  using expand_inputs_returns [of "{ta_ref (demo_ref (u ''loop''))}" demo_get "[demo_input (u ''dep|0'') (u ''loop'')]" None "{}"]
  by (simp add: closed_under_groups_def demo_defs)

text \<open>C38: Cycles of groups are reported, and only those: an expansion that succeeds met no group that
  contains itself, and the error names a printed address that two groups on one chain of memberships
  share.\<close>

theorem expand_inputs_cycles:
  assumes "expand_inputs fuel get_def inputs None {} = Some r"
  shows "case r of
     Ok _ \<Rightarrow> \<not> (\<exists>i\<in>set inputs. \<exists>g. (member get_def)\<^sup>*\<^sup>* (i_ref i) g \<and> (member get_def)\<^sup>+\<^sup>+ g g)
   | Err e \<Rightarrow> \<forall>s. e = CircularGroup s \<longrightarrow> (\<exists>i\<in>set inputs. \<exists>g0 g. (member get_def)\<^sup>*\<^sup>* (i_ref i) g0 \<and> (member get_def)\<^sup>+\<^sup>+ g0 g
        \<and> format_addr (ta_ref g0) = s \<and> format_addr (ta_ref g) = s)"
proof (cases r)
  case (Inl e)
  then show ?thesis using expand_ref_circular [of fuel get_def None "{}" inputs] expand_inputs_ErrD [of fuel get_def inputs None "{}" e] assms
    by auto blast
next
  case (Inr x)
  then have ok: "expand_ref fuel get_def None {} inputs = Some (Ok (fst x))" using expand_inputs_OkD assms by (cases x) fastforce
  have "False" if i: "i \<in> set inputs" and g: "(member get_def)\<^sup>*\<^sup>* (i_ref i) g" "(member get_def)\<^sup>+\<^sup>+ g g" for i g
  proof -
    obtain k where k: "(member get_def ^^ Suc k) g g" using g(2) by (metis tranclp_power gr0_conv_Suc)
    have loop: "(member get_def ^^ (m * Suc k)) g g" for m
    proof (induction m)
      case (Suc m)
      show ?case unfolding mult_Suc relpowp_add using k Suc by (rule relcomppI)
    qed simp
    obtain d where d: "(member get_def ^^ d) (i_ref i) g" using g(1) by (meson rtranclp_imp_relpowp)
    have "(member get_def ^^ (d + Suc fuel * Suc k)) (i_ref i) g" unfolding relpowp_add
      using d loop [of "Suc fuel"] by (rule relcomppI)
    then show False using expand_ref_depth [OF ok i] by fastforce
  qed
  then show ?thesis using Inr by auto
qed

theorem expand_inputs_cycles_witness:
  "\<exists>g0 g. (member demo_get)\<^sup>+\<^sup>+ g0 g \<and> format_addr (ta_ref g0) = u ''//:loop'' \<and> format_addr (ta_ref g) = u ''//:loop''"
  using expand_inputs_cycles [OF demo_circular] by auto

text \<open>The file system target that reads the files of an output path: the file itself, the files that
  match a pattern, or all files below a directory, whose trailing slashes do not matter.\<close>

definition reads_output :: "Content \<Rightarrow> AddrInner \<Rightarrow> bool" where
  "reads_output c a \<longleftrightarrow> addr_package a = u ''@heph/fs'' \<and> (case c of
     FilePath path \<Rightarrow> addr_name a = u ''file'' \<and> addr_args a = [(u ''f'', path)]
   | Glob pattern \<Rightarrow> addr_name a = u ''glob'' \<and> addr_args a = [(u ''p'', pattern)]
   | DirPath dir \<Rightarrow> addr_name a = u ''glob'' \<and> (\<exists>d n. dir = d @ replicate n c_slash \<and> \<not> ends_with [c_slash] d
       \<and> addr_args a = [(u ''p'', d @ u ''/**/*'')]))"

lemma trim_slashes:
  shows "\<exists>n. dir = trim_end_matches (\<lambda>c. c = c_slash) dir @ replicate n c_slash"
    and "\<not> ends_with [c_slash] (trim_end_matches (\<lambda>c. c = c_slash) dir)"
proof -
  have "takeWhile (\<lambda>c. c = c_slash) xs = replicate (length (takeWhile (\<lambda>c. c = c_slash) xs)) c_slash" for xs :: rstr
    by (induction xs) auto
  then show "\<exists>n. dir = trim_end_matches (\<lambda>c. c = c_slash) dir @ replicate n c_slash"
    unfolding trim_end_matches_def by (metis rev_append rev_replicate rev_rev_ident takeWhile_dropWhile_id)
  show "\<not> ends_with [c_slash] (trim_end_matches (\<lambda>c. c = c_slash) dir)"
  proof
    assume "ends_with [c_slash] (trim_end_matches (\<lambda>c. c = c_slash) dir)"
    then obtain d where "rev (dropWhile (\<lambda>c. c = c_slash) (rev dir)) = d @ [c_slash]"
      by (auto simp: trim_end_matches_def ends_with_def strip_suffix_Some)
    then have "dropWhile (\<lambda>c. c = c_slash) (rev dir) = c_slash # rev d" by (simp add: rev_swap)
    then show False using hd_dropWhile [of "\<lambda>c. c = c_slash" "rev dir"] by simp
  qed
qed

lemma content_reads_output: "reads_output c (content_fs_addr c)"
  using trim_slashes by (cases c) (auto simp: reads_output_def file_addr_def glob_addr_def FS_PKG_def)

lemma synthesize_distinct:
  "distinct (map (\<lambda>j. ta_ref (i_ref j)) out) \<Longrightarrow> set (map (\<lambda>j. ta_ref (i_ref j)) out) \<subseteq> seen
    \<Longrightarrow> distinct (map (\<lambda>j. ta_ref (i_ref j)) (synthesize template addrs seen out))"
proof (induction template addrs seen out rule: synthesize.induct)
  case (2 template a addrs seen out)
  then show ?case by (cases "a \<in> seen") (auto simp: introspect_input_def)
qed simp

text \<open>What stands in the place of one input.\<close>

definition introspect_part :: "Output list \<Rightarrow> Input \<Rightarrow> Input list \<Rightarrow> bool" where
  "introspect_part outputs i part \<longleftrightarrow>
     (if addr_package (ta_ref (i_ref i)) = u ''@heph/introspect'' \<and> addr_name (ta_ref (i_ref i)) = u ''outputs''
      then distinct (map (\<lambda>j. ta_ref (i_ref j)) part)
        \<and> (\<forall>j\<in>set part. i_origin_id j = i_origin_id i \<and> i_mode j = i_mode i \<and> i_annotations j = i_annotations i
            \<and> i_hashed j \<and> i_runtime j \<and> ta_output (i_ref j) = None \<and> ta_filters (i_ref j) = []
            \<and> (\<exists>out\<in>set outputs. \<exists>p\<in>set (o_paths out). reads_output (p_content p) (ta_ref (i_ref j))))
        \<and> (\<forall>out\<in>set outputs. \<forall>p\<in>set (o_paths out). \<exists>j\<in>set part. reads_output (p_content p) (ta_ref (i_ref j)))
      else part = [i])"

lemma synthesized_part:
  assumes "is_introspect_outputs (ta_ref (i_ref i))"
  shows "introspect_part outputs i (synthesized_fs_inputs outputs i)"
proof -
  have "distinct (map (\<lambda>j. ta_ref (i_ref j)) (synthesized_fs_inputs outputs i))"
    unfolding synthesized_fs_inputs_def by (rule synthesize_distinct) simp_all
  moreover have "i_origin_id j = i_origin_id i \<and> i_mode j = i_mode i \<and> i_annotations j = i_annotations i
      \<and> i_hashed j \<and> i_runtime j \<and> ta_output (i_ref j) = None \<and> ta_filters (i_ref j) = []
      \<and> (\<exists>out\<in>set outputs. \<exists>p\<in>set (o_paths out). reads_output (p_content p) (ta_ref (i_ref j)))"
    if j: "j \<in> set (synthesized_fs_inputs outputs i)" for j
  proof -
    obtain out p where p: "out \<in> set outputs" "p \<in> set (o_paths out)" and j: "j = introspect_input (content_fs_addr (p_content p)) i"
      using j by (auto simp: synthesized_set)
    have "reads_output (p_content p) (ta_ref (i_ref j))" unfolding j using content_reads_output by (simp add: introspect_input_def)
    then have "\<exists>out\<in>set outputs. \<exists>p\<in>set (o_paths out). reads_output (p_content p) (ta_ref (i_ref j))" using p by blast
    then show ?thesis using j by (simp add: introspect_input_def)
  qed
  moreover have "\<exists>j\<in>set (synthesized_fs_inputs outputs i). reads_output (p_content p) (ta_ref (i_ref j))"
    if "out \<in> set outputs" "p \<in> set (o_paths out)" for out p
  proof (rule bexI)
    show "introspect_input (content_fs_addr (p_content p)) i \<in> set (synthesized_fs_inputs outputs i)"
      using that by (auto simp: synthesized_set)
  qed (simp add: introspect_input_def content_reads_output)
  ultimately show ?thesis using assms
    unfolding introspect_part_def is_introspect_outputs_def INTROSPECT_PKG_def INTROSPECT_OUTPUTS_NAME_def by simp
qed

text \<open>C39: Replacing the introspection input is complete.  No input on \<^verbatim>\<open>//@heph/introspect:outputs\<close> is left,
  and doing it again changes nothing.  Every other input stays in its place.  In the place of the magic input
  stand file system inputs with its origin, mode and annotations, each target once: every declared output path of
  the target is read by one of them, and each of them reads one: the file, the files that match the pattern, or
  all files below the directory.  Nothing else of the definition changes.\<close>

theorem introspection_complete:
  "(\<forall>j\<in>set (td_inputs (expand_introspect_inputs def)).
      \<not> (addr_package (ta_ref (i_ref j)) = u ''@heph/introspect'' \<and> addr_name (ta_ref (i_ref j)) = u ''outputs''))
   \<and> expand_introspect_inputs (expand_introspect_inputs def) = expand_introspect_inputs def
   \<and> (\<exists>parts. expand_introspect_inputs def = def\<lparr> td_inputs := concat parts \<rparr>
        \<and> list_all2 (introspect_part (td_outputs def)) (td_inputs def) parts)"
proof -
  let ?magic = "\<lambda>i. is_introspect_outputs (ta_ref (i_ref i))"
  let ?part = "\<lambda>i. if ?magic i then synthesized_fs_inputs (td_outputs def) i else [i]"
  have none: "\<not> list_ex ?magic (td_inputs (expand_introspect_inputs def))"
    using expand_introspect_none by (auto simp: list_ex_iff)
  have "map ?part (td_inputs def) = map (\<lambda>i. [i]) (td_inputs def)" if "\<not> list_ex ?magic (td_inputs def)"
    using that by (auto simp: list_ex_iff)
  then have "concat (map ?part (td_inputs def)) = td_inputs def" if "\<not> list_ex ?magic (td_inputs def)"
    using arg_cong [of "map ?part (td_inputs def)" "map (\<lambda>i. [i]) (td_inputs def)" concat] that by simp
  then have parts: "expand_introspect_inputs def = def\<lparr> td_inputs := concat (map ?part (td_inputs def)) \<rparr>"
    by (simp add: expand_introspect_inputs_def)
  have "introspect_part (td_outputs def) i (?part i)" for i
    using synthesized_part [of i]
    by (auto simp: introspect_part_def is_introspect_outputs_def INTROSPECT_PKG_def INTROSPECT_OUTPUTS_NAME_def)
  then have "list_all2 (introspect_part (td_outputs def)) (td_inputs def) (map ?part (td_inputs def))"
    by (simp add: list_all2_map2 list_all2_same)
  moreover have "expand_introspect_inputs (expand_introspect_inputs def) = expand_introspect_inputs def"
    using none by (simp add: expand_introspect_inputs_def [of "expand_introspect_inputs def"])
  moreover have "\<forall>j\<in>set (td_inputs (expand_introspect_inputs def)). \<not> ?magic j"
    using none by (simp add: list_ex_iff)
  ultimately show ?thesis using parts
    unfolding is_introspect_outputs_def INTROSPECT_PKG_def INTROSPECT_OUTPUTS_NAME_def by blast
qed

definition demo_codegen :: TargetDef where
  "demo_codegen = \<lparr> td_addr = ta_ref (demo_ref (u ''gen'')), td_labels = [],
     td_inputs = [\<lparr> i_ref = \<lparr> ta_ref = \<lparr> addr_package = INTROSPECT_PKG, addr_name = INTROSPECT_OUTPUTS_NAME, addr_args = [] \<rparr>,
       ta_output = None, ta_filters = [] \<rparr>, i_mode = Standard, i_origin_id = u ''dep|0'', i_annotations = [], i_hashed = True, i_runtime = True \<rparr>],
     td_outputs = [\<lparr> o_group = [], o_paths = [\<lparr> p_content = FilePath (u ''p/x.go''), p_codegen_tree = CodegenCopy, p_collect = True \<rparr>] \<rparr>],
     td_support_files = [], td_entrypoint = None, td_transparent = False \<rparr>"

theorem introspection_complete_witness:
  "\<exists>j. td_inputs (expand_introspect_inputs demo_codegen) = [j] \<and> i_origin_id j = u ''dep|0''
     \<and> ta_ref (i_ref j) = \<lparr> addr_package = u ''@heph/fs'', addr_name = u ''file'', addr_args = [(u ''f'', u ''p/x.go'')] \<rparr>"
proof -
  obtain parts where e: "expand_introspect_inputs demo_codegen = demo_codegen\<lparr> td_inputs := concat parts \<rparr>"
    and p: "list_all2 (introspect_part (td_outputs demo_codegen)) (td_inputs demo_codegen) parts"
    using introspection_complete [of demo_codegen] by blast
  have addr: "a = \<lparr> addr_package = u ''@heph/fs'', addr_name = u ''file'', addr_args = [(u ''f'', u ''p/x.go'')] \<rparr>"
    if "reads_output (FilePath (u ''p/x.go'')) a" for a
    using that by (simp add: reads_output_def del: u.simps)
  obtain part where part: "parts = [part]" "introspect_part (td_outputs demo_codegen) (hd (td_inputs demo_codegen)) part"
    using p by (auto simp: demo_codegen_def list_all2_Cons1)
  have d: "distinct (map (\<lambda>j. ta_ref (i_ref j)) part)" "part \<noteq> []"
      "\<And>j. j \<in> set part \<Longrightarrow> i_origin_id j = u ''dep|0'' \<and> reads_output (FilePath (u ''p/x.go'')) (ta_ref (i_ref j))"
    using part(2) by (auto simp del: u.simps simp: introspect_part_def demo_codegen_def INTROSPECT_PKG_def INTROSPECT_OUTPUTS_NAME_def)
  have same: "ta_ref (i_ref j) = ta_ref (i_ref j')" if "j \<in> set part" "j' \<in> set part" for j j'
    using addr [OF conjunct2 [OF d(3) [OF that(1)]]] addr [OF conjunct2 [OF d(3) [OF that(2)]]] by (simp del: u.simps)
  obtain j part' where j: "part = j # part'" using d(2) by (cases part) auto
  have "part' = []"
  proof (cases part')
    case (Cons j' rest)
    then show ?thesis using same [of j j'] d(1) j by simp
  qed simp
  then have "td_inputs (expand_introspect_inputs demo_codegen) = [j]" using e part(1) j by simp
  moreover have "j \<in> set part" using j by simp
  ultimately show ?thesis using d(3) [of j] addr [of "ta_ref (i_ref j)"] by blast
qed

end
