(* ===== verification/Deferred.thy ===== *)
theory Deferred
  imports Template Resource_Pool Expand
begin

text \<open>
  Deferred values (engine/deferred.rs): the references a target's configuration carries, the inputs
  they add to its definition, and their substitution, by the engine for what another target wrote
  or the run was granted (\<^verbatim>\<open>render_deferred\<close>), and by the layer that staged the inputs for sandbox
  paths (\<^verbatim>\<open>complete_deferred\<close>, driver-support/driver_managed.rs).  With them, the checks of a target's
  resources at definition time (engine/result.rs) and what a run is told of its grant
  (engine/execute.rs).

  A configuration map is its entries in ascending key order, the order the walk visits them in.
  The file list of a staged input is the text of its list file.
\<close>

section \<open>Configuration values\<close>

datatype Value =
    VString rstr
  | VBool bool
  | VFloat "64 word"
  | VInt int
  | VUint nat
  | VNull
  | VMap "(rstr \<times> Value) list"
  | VList "Value list"

fun any_ref :: "Value \<Rightarrow> bool" where
  "any_ref (VString s) \<longleftrightarrow> has_ref s"
| "any_ref (VList items) \<longleftrightarrow> (\<exists>v\<in>set items. any_ref v)"
| "any_ref (VMap m) \<longleftrightarrow> (\<exists>kv\<in>set m. any_ref (snd kv))"
| "any_ref _ \<longleftrightarrow> False"

section \<open>References in a configuration\<close>

datatype producer_kind = Read | Src

record Producer =
  p_kind :: producer_kind
  p_addr :: TargetAddr

record DeferredRef =
  d_raw :: rstr
  d_producers :: "Producer list"
  d_path :: rstr

definition needs_sandbox :: "DeferredRef \<Rightarrow> bool" where
  "needs_sandbox r = list_ex (\<lambda>p. p_kind p = Src) (d_producers r)"

datatype deferred_error =
    BadRefs rstr template_error
  | NotAnAddress rstr rstr target_addr_error
  | DriverRefuses rstr rstr

text \<open>The loop of \<^verbatim>\<open>parse_refs\<close> over the pieces: the producers so far, and whether a pool is named.\<close>

fun scan_refs :: "nom \<Rightarrow> PkgBuf \<Rightarrow> rstr \<Rightarrow> Piece list \<Rightarrow> Producer list \<times> bool \<Rightarrow> deferred_error + Producer list \<times> bool" where
  "scan_refs N pkg path [] acc = Ok acc"
| "scan_refs N pkg path (PRef r # ps) (producers, names_resource) =
     (if \<not> claimed DEFERRED_KINDS r then scan_refs N pkg path ps (producers, names_resource)
      else if r_kind r = Some RESOURCE_KIND then scan_refs N pkg path ps (producers, True)
      else (case parse_target_addr N (r_arg r) pkg of
          Err e \<Rightarrow> Err (NotAnAddress (r_raw r) path e)
        | Ok addr \<Rightarrow> scan_refs N pkg path ps
            (producers @ [\<lparr> p_kind = (if r_kind r = Some SRC_KIND then Src else Read), p_addr = addr \<rparr>], names_resource)))"
| "scan_refs N pkg path (p # ps) acc = scan_refs N pkg path ps acc"

definition parse_refs :: "nom \<Rightarrow> rstr \<Rightarrow> PkgBuf \<Rightarrow> rstr \<Rightarrow> deferred_error + DeferredRef option" where
  "parse_refs N s pkg path = (if \<not> has_ref s then Ok None
     else case template_parse s of
         Err e \<Rightarrow> Err (BadRefs path e)
       | Ok pieces \<Rightarrow> (case scan_refs N pkg path pieces ([], False) of
             Err e \<Rightarrow> Err e
           | Ok (producers, names_resource) \<Rightarrow>
               if producers = [] \<and> \<not> names_resource then Ok None
               else Ok (Some \<lparr> d_raw = s, d_producers = producers, d_path = path \<rparr>)))"

fun walk :: "nom \<Rightarrow> PkgBuf \<Rightarrow> Value \<Rightarrow> rstr \<Rightarrow> DeferredRef list \<Rightarrow> deferred_error + DeferredRef list"
  and walk_items :: "nom \<Rightarrow> PkgBuf \<Rightarrow> nat \<Rightarrow> Value list \<Rightarrow> rstr \<Rightarrow> DeferredRef list \<Rightarrow> deferred_error + DeferredRef list"
  and walk_entries :: "nom \<Rightarrow> PkgBuf \<Rightarrow> (rstr \<times> Value) list \<Rightarrow> rstr \<Rightarrow> DeferredRef list \<Rightarrow> deferred_error + DeferredRef list" where
  "walk N pkg (VString s) path out = (case parse_refs N s pkg path of
     Err e \<Rightarrow> Err e | Ok None \<Rightarrow> Ok out | Ok (Some r) \<Rightarrow> Ok (out @ [r]))"
| "walk N pkg (VList items) path out = walk_items N pkg 0 items path out"
| "walk N pkg (VMap m) path out = walk_entries N pkg m path out"
| "walk N pkg _ path out = Ok out"
| "walk_items N pkg i [] path out = Ok out"
| "walk_items N pkg i (v # vs) path out =
     (if any_ref v
      then (case walk N pkg v (path @ u ''['' @ fmt_nat i @ u '']'') out of
          Err e \<Rightarrow> Err e | Ok out' \<Rightarrow> walk_items N pkg (i + 1) vs path out')
      else walk_items N pkg (i + 1) vs path out)"
| "walk_entries N pkg [] path out = Ok out"
| "walk_entries N pkg ((k, v) # m) path out =
     (if any_ref v
      then (case walk N pkg v (path @ u ''.'' @ k) out of
          Err e \<Rightarrow> Err e | Ok out' \<Rightarrow> walk_entries N pkg m path out')
      else walk_entries N pkg m path out)"

text \<open>The top level of a configuration: like the entries of a map, with the key as the path.\<close>

fun collect_entries :: "nom \<Rightarrow> PkgBuf \<Rightarrow> (rstr \<times> Value) list \<Rightarrow> DeferredRef list \<Rightarrow> deferred_error + DeferredRef list" where
  "collect_entries N pkg [] out = Ok out"
| "collect_entries N pkg ((k, v) # m) out =
     (if any_ref v
      then (case walk N pkg v k out of Err e \<Rightarrow> Err e | Ok out' \<Rightarrow> collect_entries N pkg m out')
      else collect_entries N pkg m out)"

fun dedup_raw :: "DeferredRef list \<Rightarrow> DeferredRef list" where
  "dedup_raw (a # b # rs) = (if d_raw b = d_raw a then dedup_raw (a # rs) else a # dedup_raw (b # rs))"
| "dedup_raw rs = rs"

definition collect :: "nom \<Rightarrow> (rstr \<times> Value) list \<Rightarrow> PkgBuf \<Rightarrow> deferred_error + DeferredRef list" where
  "collect N config pkg = (if \<not> list_ex (\<lambda>(_, v). any_ref v) config then Ok []
     else map_sum id (\<lambda>out. dedup_raw (sort_key d_raw out)) (collect_entries N pkg config []))"

text \<open>\<open>accepts\<close> is what the driver's schema says of deferred values.\<close>

definition deferred_refs :: "nom \<Rightarrow> (rstr \<times> Value) list \<Rightarrow> PkgBuf \<Rightarrow> rstr \<Rightarrow> bool \<Rightarrow> deferred_error + DeferredRef list" where
  "deferred_refs N config pkg driver accepts =
     (if \<not> list_ex (\<lambda>(_, v). any_ref v) config then Ok []
      else case collect N config pkg of
          Err e \<Rightarrow> Err e
        | Ok [] \<Rightarrow> Ok []
        | Ok (r # rs) \<Rightarrow> if accepts then Ok (r # rs) else Err (DriverRefuses (d_raw r) driver))"

section \<open>The inputs references add\<close>

definition DEFERRED_ORIGIN_PREFIX :: rstr where "DEFERRED_ORIGIN_PREFIX = u ''option''"
definition DEFERRED_SRC_ANNOTATION :: rstr where "DEFERRED_SRC_ANNOTATION = u ''heph.deferred.src''"

fun kind_name :: "producer_kind \<Rightarrow> rstr" where
  "kind_name Read = READ_KIND"
| "kind_name Src = SRC_KIND"

definition origin_id_for :: "DeferredRef \<Rightarrow> Producer \<Rightarrow> AddrInner option \<Rightarrow> rstr" where
  "origin_id_for r p via = (case via of
     Some v \<Rightarrow> DEFERRED_ORIGIN_PREFIX @ u ''|'' @ format_addr v @ u ''|'' @ kind_name (p_kind p) @ u ''|'' @ d_path r
   | None \<Rightarrow> DEFERRED_ORIGIN_PREFIX @ u ''|'' @ kind_name (p_kind p) @ u ''|'' @ d_path r)"

definition deferred_input :: "AddrInner option \<Rightarrow> DeferredRef \<Rightarrow> Producer \<Rightarrow> Input" where
  "deferred_input via r p = \<lparr> i_ref = p_addr p, i_mode = Standard, i_origin_id = origin_id_for r p via,
     i_annotations = (if p_kind p = Src then [(DEFERRED_SRC_ANNOTATION, [])] else []),
     i_hashed = True, i_runtime = (p_kind p = Src) \<rparr>"

fun add_inputs :: "AddrInner option \<Rightarrow> (DeferredRef \<times> Producer) list \<Rightarrow> (rstr \<times> bool) set \<Rightarrow> Input list \<Rightarrow> Input list" where
  "add_inputs via [] seen out = out"
| "add_inputs via ((r, p) # rps) seen out =
     (let key = (format_target_addr (p_addr p), p_kind p = Src)
      in if key \<in> seen then add_inputs via rps seen out
         else add_inputs via rps (insert key seen) (out @ [deferred_input via r p]))"

definition ref_producers :: "DeferredRef list \<Rightarrow> (DeferredRef \<times> Producer) list" where
  "ref_producers refs = concat (map (\<lambda>r. map (Pair r) (d_producers r)) refs)"

definition inputs_for_labelled :: "DeferredRef list \<Rightarrow> AddrInner option \<Rightarrow> Input list" where
  "inputs_for_labelled refs via = add_inputs via (ref_producers refs) {} []"

definition inputs_for :: "DeferredRef list \<Rightarrow> Input list" where
  "inputs_for refs = inputs_for_labelled refs None"

section \<open>Reading a producer\<close>

datatype read_error = NoSingleFile nat "rstr list" | TooLarge | EmptyValue | SeveralLines

definition MAX_VALUE_BYTES :: nat where "MAX_VALUE_BYTES = 65536"

text \<open>An artifact is the entries of its packed stream: a path, and the text of a regular file.  The
  size is checked per file; a text that is not UTF-8 has no model.\<close>

type_synonym artifact = "(rstr \<times> rstr option) list"

fun read_files :: "artifact \<Rightarrow> rstr \<Rightarrow> read_error + rstr" where
  "read_files [] body = Ok body"
| "read_files ((_, None) # es) body = read_files es body"
| "read_files ((_, Some text) # es) body =
     (if byte_len text > MAX_VALUE_BYTES then Err TooLarge else read_files es (body @ text))"

definition read_deferred_value :: "artifact list \<Rightarrow> read_error + rstr" where
  "read_deferred_value artifacts =
     (let names = map fst (concat artifacts)
      in if length names \<noteq> 1 then Err (NoSingleFile (length names) (sort names))
         else case read_files (concat artifacts) [] of
             Err e \<Rightarrow> Err e
           | Ok body \<Rightarrow>
               (let text = trim body
                in if text = [] then Err EmptyValue
                   else if c_newline \<in> set text then Err SeveralLines
                   else Ok text))"

text \<open>\<^verbatim>\<open>deferred_values\<close>: every value is read once; \<open>read\<close> reads a producer.\<close>

fun read_values :: "(TargetAddr \<Rightarrow> 'e + rstr) \<Rightarrow> Producer list \<Rightarrow> (rstr \<times> rstr) list \<Rightarrow> 'e + (rstr \<times> rstr) list" where
  "read_values read [] by_addr = Ok by_addr"
| "read_values read (p # ps) by_addr =
     (if bt_lookup by_addr (format_target_addr (p_addr p)) \<noteq> None then read_values read ps by_addr
      else case read (p_addr p) of
          Err e \<Rightarrow> Err e
        | Ok value \<Rightarrow> read_values read ps (bt_insert (format_target_addr (p_addr p)) value by_addr))"

definition deferred_values :: "(TargetAddr \<Rightarrow> 'e + rstr) \<Rightarrow> DeferredRef list \<Rightarrow> 'e + (rstr \<times> rstr) list" where
  "deferred_values read refs = read_values read (concat (map (\<lambda>r. filter (\<lambda>p. p_kind p = Read) (d_producers r)) refs)) []"

section \<open>Substitution\<close>

type_synonym Allotment = "(rstr \<times> rstr) list"

datatype run_error =
    NoAllotment rstr
  | BadRunAddr target_addr_error
  | NoValue TargetAddr
  | Unresolved_by_host rstr
  | NotStaged rstr rstr
  | NoListPath rstr
  | StagedNothing rstr
  | StagedMany nat "rstr list"

definition allotment_reference :: "Allotment option \<Rightarrow> Ref \<Rightarrow> run_error + rstr" where
  "allotment_reference allotment r = (case allotment of
     None \<Rightarrow> Err (NoAllotment (r_raw r))
   | Some a \<Rightarrow> Ok (case bt_lookup a (r_arg r) of Some v \<Rightarrow> v | None \<Rightarrow> r_raw r))"

datatype DeferredValue =
    DReady rstr
  | NeedsSandbox "(rstr \<times> rstr) list" "(rstr \<times> rstr) list"

definition resolve_read :: "nom \<Rightarrow> PkgBuf \<Rightarrow> (rstr \<times> rstr) list \<Rightarrow> Allotment option \<Rightarrow> Ref \<Rightarrow> run_error + rstr" where
  "resolve_read N pkg by_addr allotment t =
     (if r_kind t = Some RESOURCE_KIND then allotment_reference allotment t
      else case parse_target_addr N (r_arg t) pkg of
          Err e \<Rightarrow> Err (BadRunAddr e)
        | Ok addr \<Rightarrow> (case bt_lookup by_addr (format_target_addr addr) of
              Some v \<Rightarrow> Ok v
            | None \<Rightarrow> Err (NoValue addr)))"

definition sandbox_reads :: "(rstr \<times> rstr) list \<Rightarrow> DeferredRef \<Rightarrow> (rstr \<times> rstr) list" where
  "sandbox_reads by_addr r = bt_of_list (List.map_filter (\<lambda>p.
     if p_kind p = Read then map_option (Pair (format_target_addr (p_addr p))) (bt_lookup by_addr (format_target_addr (p_addr p)))
     else None) (d_producers r))"

definition sandbox_srcs :: "DeferredRef \<Rightarrow> (rstr \<times> rstr) list" where
  "sandbox_srcs r = bt_of_list (map (\<lambda>p. (format_target_addr (p_addr p), origin_id_for r p None))
     (filter (\<lambda>p. p_kind p = Src) (d_producers r)))"

fun render_loop :: "nom \<Rightarrow> PkgBuf \<Rightarrow> (rstr \<times> rstr) list \<Rightarrow> Allotment option \<Rightarrow> DeferredRef list \<Rightarrow> (rstr \<times> DeferredValue) list
    \<Rightarrow> run_error render_error + (rstr \<times> DeferredValue) list" where
  "render_loop N pkg by_addr allotment [] values = Ok values"
| "render_loop N pkg by_addr allotment (r # rs) values =
     (if needs_sandbox r
      then render_loop N pkg by_addr allotment rs (bt_insert (d_raw r) (NeedsSandbox (sandbox_reads by_addr r) (sandbox_srcs r)) values)
      else case substitute (d_raw r) [READ_KIND, RESOURCE_KIND] (resolve_read N pkg by_addr allotment) of
          Err e \<Rightarrow> Err e
        | Ok rendered \<Rightarrow> render_loop N pkg by_addr allotment rs (bt_insert (d_raw r) (DReady rendered) values))"

definition render_deferred :: "nom \<Rightarrow> AddrInner \<Rightarrow> DeferredRef list \<Rightarrow> (rstr \<times> rstr) list \<Rightarrow> Allotment option
    \<Rightarrow> run_error render_error + (rstr \<times> DeferredValue) list" where
  "render_deferred N addr refs by_addr allotment = render_loop N (addr_package addr) by_addr allotment refs []"

section \<open>Completion in the sandbox\<close>

text \<open>A staged input: its origin, and the text of its list file, if it has one.\<close>

record ManagedRunInput =
  mi_origin_id :: rstr
  mi_list :: "rstr option"

definition staged_path :: "ManagedRunInput list \<Rightarrow> rstr \<Rightarrow> rstr \<Rightarrow> run_error + rstr" where
  "staged_path inputs origin_id arg = (case find (\<lambda>m. mi_origin_id m = origin_id) inputs of
     None \<Rightarrow> Err (NotStaged arg origin_id)
   | Some input \<Rightarrow> (case mi_list input of
         None \<Rightarrow> Err (NoListPath origin_id)
       | Some listed \<Rightarrow> (case filter (\<lambda>l. l \<noteq> []) (text_lines listed) of
             [] \<Rightarrow> Err (StagedNothing arg)
           | [first] \<Rightarrow> Ok first
           | all \<Rightarrow> Err (StagedMany (length all) (sort all)))))"

definition resolve_staged :: "ManagedRunInput list \<Rightarrow> Allotment option \<Rightarrow> (rstr \<times> rstr) list \<Rightarrow> (rstr \<times> rstr) list \<Rightarrow> Ref \<Rightarrow> run_error + rstr" where
  "resolve_staged inputs allotment reads srcs r =
     (if r_kind r = Some RESOURCE_KIND then allotment_reference allotment r
      else case bt_lookup reads (r_arg r) of
          Some v \<Rightarrow> Ok v
        | None \<Rightarrow> (case bt_lookup srcs (r_arg r) of
              None \<Rightarrow> Err (Unresolved_by_host (r_raw r))
            | Some origin_id \<Rightarrow> staged_path inputs origin_id (r_arg r)))"

fun complete_deferred :: "ManagedRunInput list \<Rightarrow> Allotment option \<Rightarrow> (rstr \<times> DeferredValue) list
    \<Rightarrow> run_error render_error + (rstr \<times> DeferredValue) list" where
  "complete_deferred inputs allotment [] = Ok []"
| "complete_deferred inputs allotment ((raw, DReady v) # ds) =
     map_sum id ((#) (raw, DReady v)) (complete_deferred inputs allotment ds)"
| "complete_deferred inputs allotment ((raw, NeedsSandbox reads srcs) # ds) =
     (case substitute raw DEFERRED_KINDS (resolve_staged inputs allotment reads srcs) of
        Err e \<Rightarrow> Err e
      | Ok value \<Rightarrow> map_sum id ((#) (raw, DReady value)) (complete_deferred inputs allotment ds))"

section \<open>Resources at definition time and at run\<close>

datatype resource_check_error =
    UnknownResource PoolName
  | BadResources resource_error
  | UnknownRef rstr rstr
  | UnreservedRef rstr rstr bool

text \<open>The hint the first error shows: how to declare the pool, in the unit the amount is written in.\<close>

definition declare_hint :: "rstr \<Rightarrow> rstr" where
  "declare_hint amount = (case find (\<lambda>x. case unit_parse x amount of Ok _ \<Rightarrow> True | Err _ \<Rightarrow> False) [UCount, UBytes, UCpu] of
     Some x \<Rightarrow> if x \<noteq> UCount then u ''{unit: '' @ unit_name x @ u '', value: <n>}'' else u ''<n>''
   | None \<Rightarrow> u ''<n>'')"

definition validate_resources :: "EnginePools \<Rightarrow> Resources \<Rightarrow> resource_check_error + Demand" where
  "validate_resources pools resources =
     (if res_declared resources = [] then Ok \<lparr> dem_declared = [] \<rparr>
      else case find (\<lambda>(p, _). \<not> is_pool pools p) (res_declared resources) of
          Some (pool, _) \<Rightarrow> Err (UnknownResource pool)
        | None \<Rightarrow> (case resources_parse (engine_unit pools) resources of
              Err e \<Rightarrow> Err (BadResources e)
            | Ok demand \<Rightarrow> Ok demand))"

fun check_pieces :: "EnginePools \<Rightarrow> Demand \<Rightarrow> rstr \<Rightarrow> Piece list \<Rightarrow> resource_check_error + unit" where
  "check_pieces pools demand path [] = Ok ()"
| "check_pieces pools demand path (PRef t # ps) =
     (if \<not> claimed [RESOURCE_KIND] t then check_pieces pools demand path ps
      else if \<not> is_pool pools (r_arg t) then Err (UnknownRef path (r_arg t))
      else if \<not> reserves demand (r_arg t) then Err (UnreservedRef path (r_arg t) (demand_declared demand (r_arg t) \<noteq> None))
      else check_pieces pools demand path ps)"
| "check_pieces pools demand path (p # ps) = check_pieces pools demand path ps"

fun validate_resource_refs :: "EnginePools \<Rightarrow> (rstr \<times> rstr) list \<Rightarrow> Demand \<Rightarrow> resource_check_error + unit" where
  "validate_resource_refs pools [] demand = Ok ()"
| "validate_resource_refs pools ((path, raw) # refs) demand = (case template_parse raw of
     Err _ \<Rightarrow> validate_resource_refs pools refs demand
   | Ok pieces \<Rightarrow> (case check_pieces pools demand path pieces of
         Err e \<Rightarrow> Err e
       | Ok _ \<Rightarrow> validate_resource_refs pools refs demand))"

definition render_amount :: "(rstr \<Rightarrow> Unit option) \<Rightarrow> PoolName \<times> nat \<Rightarrow> rstr \<times> rstr" where
  "render_amount unit_of = (\<lambda>(p, n). (p, unit_render (case unit_of p of Some x \<Rightarrow> x | None \<Rightarrow> default_for p) n))"

definition reservation_iter :: "Lane \<Rightarrow> Reservation \<Rightarrow> (PoolName \<times> nat) list" where
  "reservation_iter lane r = List.map_filter (\<lambda>(idx, n). map_option (\<lambda>p. (p, n)) (get_at (l_names lane) idx)) (granted r)"

definition allotment_of :: "Lane \<Rightarrow> Reservation \<Rightarrow> (rstr \<Rightarrow> Unit option) \<Rightarrow> Allotment" where
  "allotment_of lane r unit_of = bt_of_list
     ((CPU, unit_render UCpu (max (reservation_amount lane r CPU) 1))
      # map (render_amount unit_of) (filter (\<lambda>(p, n). p \<noteq> CPU \<and> n > 0) (reservation_iter lane r)))"

definition entrypoint_allotment :: "nat \<Rightarrow> Demand \<Rightarrow> (rstr \<Rightarrow> Unit option) \<Rightarrow> Allotment" where
  "entrypoint_allotment cpu_capacity demand unit_of = bt_of_list
     ((CPU, unit_render UCpu (max cpu_capacity 1))
      # map (render_amount unit_of) (filter (\<lambda>(p, n). p \<noteq> CPU \<and> n > 0) (dem_declared demand)))"

section \<open>Every reference becomes an edge\<close>

fun strings_of :: "Value \<Rightarrow> rstr set" where
  "strings_of (VString s) = {s}"
| "strings_of (VList items) = (\<Union>v\<in>set items. strings_of v)"
| "strings_of (VMap m) = (\<Union>kv\<in>set m. strings_of (snd kv))"
| "strings_of _ = {}"

definition config_strings :: "(rstr \<times> Value) list \<Rightarrow> rstr set" where
  "config_strings config = (\<Union>kv\<in>set config. strings_of (snd kv))"

definition ref_ok :: "nom \<Rightarrow> PkgBuf \<Rightarrow> DeferredRef \<Rightarrow> bool" where
  "ref_ok N pkg r \<longleftrightarrow> parse_refs N (d_raw r) pkg (d_path r) = Ok (Some r)"

definition covered :: "nom \<Rightarrow> PkgBuf \<Rightarrow> DeferredRef list \<Rightarrow> rstr \<Rightarrow> bool" where
  "covered N pkg out s \<longleftrightarrow> (\<exists>path. parse_refs N s pkg path = Ok None) \<or> (\<exists>r\<in>set out. d_raw r = s)"

lemma parse_refs_raw: "parse_refs N s pkg path = Ok (Some r) \<Longrightarrow> d_raw r = s \<and> d_path r = path"
  by (auto simp: parse_refs_def split: if_splits sum.splits prod.splits)

lemma covered_mono: "covered N pkg out s \<Longrightarrow> set out \<subseteq> set out' \<Longrightarrow> covered N pkg out' s"
  by (auto simp: covered_def)

lemma no_ref_covered: "\<not> any_ref v \<Longrightarrow> s \<in> strings_of v \<Longrightarrow> covered N pkg out s"
  by (induction v rule: any_ref.induct) (auto simp: covered_def parse_refs_def)

lemma parse_refs_ok: "parse_refs N s pkg path = Ok (Some r) \<Longrightarrow> ref_ok N pkg r"
  using parse_refs_raw [of N s pkg path r] by (auto simp: ref_ok_def)

text \<open>What a walk adds: it keeps what it had, every reference is one that its text parses to, and
  every string it passed is covered.\<close>

definition walked :: "nom \<Rightarrow> PkgBuf \<Rightarrow> rstr set \<Rightarrow> DeferredRef list \<Rightarrow> DeferredRef list \<Rightarrow> bool" where
  "walked N pkg S out out' \<longleftrightarrow> set out \<subseteq> set out' \<and> (\<forall>r\<in>set out' - set out. ref_ok N pkg r) \<and> (\<forall>s\<in>S. covered N pkg out' s)"

lemma walked_trans:
  assumes "walked N pkg S out out1" "walked N pkg T out1 out2"
  shows "walked N pkg (S \<union> T) out out2"
  using assms covered_mono unfolding walked_def by blast

lemma walked_skip: "\<not> any_ref v \<Longrightarrow> walked N pkg (strings_of v) out out"
  using no_ref_covered by (auto simp: walked_def)

lemma walk_spec:
  "walk N pkg v path out = Ok out' \<Longrightarrow> walked N pkg (strings_of v) out out'"
  "walk_items N pkg i vs path out = Ok out' \<Longrightarrow> walked N pkg (\<Union>v\<in>set vs. strings_of v) out out'"
  "walk_entries N pkg m path out = Ok out' \<Longrightarrow> walked N pkg (\<Union>kv\<in>set m. strings_of (snd kv)) out out'"
proof (induction N pkg v path out and N pkg i vs path out and N pkg m path out arbitrary: out' and out' and out'
    rule: walk_walk_items_walk_entries.induct)
  case (1 N pkg s path out)
  then show ?case
    by (auto simp: walked_def covered_def split: sum.splits option.splits dest: parse_refs_raw intro: parse_refs_ok)
next
  case (6 N pkg i v vs path out)
  then show ?case
    using walked_trans walked_skip [of v N pkg out] by (fastforce split: if_splits sum.splits)
next
  case (8 N pkg k v m path out)
  then show ?case
    using walked_trans walked_skip [of v N pkg out] by (fastforce split: if_splits sum.splits)
qed (auto simp: walked_def)

lemma collect_entries_spec:
  "collect_entries N pkg config out = Ok out' \<Longrightarrow> walked N pkg (config_strings config) out out'"
proof (induction N pkg config out arbitrary: out' rule: collect_entries.induct)
  case (2 N pkg k v m out)
  show ?case
  proof (cases "any_ref v")
    case True
    then obtain out1 where o: "walk N pkg v k out = Ok out1" "collect_entries N pkg m out1 = Ok out'"
      using "2.prems" by (auto split: sum.splits)
    show ?thesis using walked_trans [OF walk_spec(1) [OF o(1)] "2.IH"(1) [OF True o]] by (simp add: config_strings_def)
  next
    case False
    then show ?thesis using walked_trans [OF walked_skip [OF False] "2.IH"(2) [OF False]] "2.prems" by (simp add: config_strings_def)
  qed
qed (auto simp: walked_def config_strings_def)

lemma dedup_raw_spec: "set (dedup_raw rs) \<subseteq> set rs \<and> d_raw ` set (dedup_raw rs) = d_raw ` set rs"
  by (induction rs rule: dedup_raw.induct) auto

lemma collect_spec:
  assumes "collect N config pkg = Ok refs"
  shows "(\<forall>r\<in>set refs. ref_ok N pkg r) \<and> (\<forall>s\<in>config_strings config. covered N pkg refs s)"
proof (cases "list_ex (\<lambda>(_, v). any_ref v) config")
  case True
  then obtain out where out: "collect_entries N pkg config [] = Ok out" "refs = dedup_raw (sort_key d_raw out)"
    using assms by (auto simp: collect_def map_sum_iff)
  have w: "walked N pkg (config_strings config) [] out" by (rule collect_entries_spec [OF out(1)])
  have "covered N pkg refs s" if "s \<in> config_strings config" for s
  proof -
    have "covered N pkg out s" using w that by (simp add: walked_def)
    moreover have "d_raw ` set refs = d_raw ` set out" using dedup_raw_spec [of "sort_key d_raw out"] out(2) by simp
    ultimately show ?thesis unfolding covered_def by (metis imageE imageI)
  qed
  then show ?thesis using w dedup_raw_spec [of "sort_key d_raw out"] out(2) by (auto simp: walked_def)
next
  case False
  then show ?thesis using assms no_ref_covered
    by (fastforce simp: collect_def config_strings_def list_ex_iff)
qed

lemma scan_refs_complete:
  assumes "scan_refs N pkg path ps acc = Ok (producers, res)"
  shows "set (fst acc) \<subseteq> set producers \<and> (snd acc \<longrightarrow> res)
    \<and> (\<forall>t. PRef t \<in> set ps \<and> claimed DEFERRED_KINDS t \<longrightarrow>
         (if r_kind t = Some RESOURCE_KIND then res
          else \<exists>p\<in>set producers. parse_target_addr N (r_arg t) pkg = Ok (p_addr p) \<and> (p_kind p = Src \<longleftrightarrow> r_kind t = Some SRC_KIND)))"
  using assms
proof (induction N pkg path ps acc rule: scan_refs.induct)
  case (2 N pkg path r ps producers' res')
  show ?case
  proof (cases "claimed DEFERRED_KINDS r \<and> r_kind r \<noteq> Some RESOURCE_KIND")
    case True
    then obtain addr where addr: "parse_target_addr N (r_arg r) pkg = Ok addr"
      "scan_refs N pkg path ps (producers' @ [\<lparr> p_kind = (if r_kind r = Some SRC_KIND then Src else Read), p_addr = addr \<rparr>], res') = Ok (producers, res)"
      using "2.prems" by (auto split: sum.splits)
    let ?p = "\<lparr> p_kind = (if r_kind r = Some SRC_KIND then Src else Read), p_addr = addr \<rparr>"
    have ih: "set (producers' @ [?p]) \<subseteq> set producers" "res' \<longrightarrow> res"
      "\<And>t. PRef t \<in> set ps \<Longrightarrow> claimed DEFERRED_KINDS t \<Longrightarrow> (if r_kind t = Some RESOURCE_KIND then res
          else \<exists>p\<in>set producers. parse_target_addr N (r_arg t) pkg = Ok (p_addr p) \<and> (p_kind p = Src \<longleftrightarrow> r_kind t = Some SRC_KIND))"
      using "2.IH"(3) [OF _ _ addr(1) addr(2)] True by auto
    have "\<exists>p\<in>set producers. parse_target_addr N (r_arg r) pkg = Ok (p_addr p) \<and> (p_kind p = Src \<longleftrightarrow> r_kind r = Some SRC_KIND)"
      using ih(1) addr(1) by (intro bexI [of _ ?p]) auto
    then show ?thesis using ih True by auto
  next
    case False
    show ?thesis
    proof (cases "claimed DEFERRED_KINDS r")
      case True
      then have k: "r_kind r = Some RESOURCE_KIND" using False by simp
      show ?thesis using "2.IH"(2) [OF _ k] True "2.prems" k by auto
    next
      case False
      then show ?thesis using "2.IH"(1) [OF False] "2.prems" by auto
    qed
  qed
qed auto

lemma add_inputs_keep: "set out \<subseteq> set (add_inputs via rps seen out)"
  by (induction via rps seen out rule: add_inputs.induct) (auto simp: Let_def)

lemma add_inputs_covers:
  assumes "(r, p) \<in> set rps" "(format_target_addr (p_addr p), p_kind p = Src) \<notin> seen"
  shows "\<exists>j\<in>set (add_inputs via rps seen out). format_target_addr (i_ref j) = format_target_addr (p_addr p) \<and> i_hashed j
    \<and> (i_runtime j \<longleftrightarrow> p_kind p = Src)"
  using assms
proof (induction via rps seen out rule: add_inputs.induct)
  case (2 via r' p' rps seen out)
  let ?key = "(format_target_addr (p_addr p'), p_kind p' = Src)"
  show ?case
  proof (cases "(format_target_addr (p_addr p), p_kind p = Src) = ?key \<and> ?key \<notin> seen")
    case True
    have "deferred_input via r' p' \<in> set (add_inputs via ((r', p') # rps) seen out)"
      using True add_inputs_keep [of "out @ [deferred_input via r' p']"] by (auto simp: Let_def)
    then show ?thesis using True by (intro bexI [of _ "deferred_input via r' p'"]) (simp_all add: deferred_input_def)
  next
    case False
    then have ne: "(format_target_addr (p_addr p), p_kind p = Src) \<noteq> ?key" using "2.prems"(2) by metis
    then have "(r, p) \<in> set rps" using "2.prems"(1) by auto
    then show ?thesis using "2.IH" "2.prems"(2) ne by (auto simp: Let_def)
  qed
qed simp

lemma parse_refs_SomeD:
  "parse_refs N s pkg path = Ok (Some r) \<Longrightarrow> template_parse s = Ok ps \<Longrightarrow>
     \<exists>res. scan_refs N pkg path ps ([], False) = Ok (d_producers r, res)"
  by (auto simp: parse_refs_def split: sum.splits if_splits)

lemma covered_claimed:
  assumes "covered N pkg refs s" "\<forall>r\<in>set refs. ref_ok N pkg r" "template_parse s = Ok ps" "PRef t \<in> set ps"
    "claimed DEFERRED_KINDS t" "r_kind t \<noteq> Some RESOURCE_KIND"
  shows "\<exists>r\<in>set refs. \<exists>p\<in>set (d_producers r). parse_target_addr N (r_arg t) pkg = Ok (p_addr p) \<and> (p_kind p = Src \<longleftrightarrow> r_kind t = Some SRC_KIND)"
proof -
  have "has_ref s" using parse_loop_ref [of s "[]" "[]" s ps] assms(3,4) by (force simp: template_parse_def list_ex_iff)
  then have none: "parse_refs N s pkg path \<noteq> Ok None" for path
    using assms(3-6) scan_refs_complete [of N pkg path ps "([], False)"]
    by (fastforce simp: parse_refs_def split: sum.splits if_splits prod.splits)
  then obtain r where r: "r \<in> set refs" "d_raw r = s" using assms(1) by (auto simp: covered_def)
  then have "parse_refs N s pkg (d_path r) = Ok (Some r)" using assms(2) by (auto simp: ref_ok_def)
  then obtain res where "scan_refs N pkg (d_path r) ps ([], False) = Ok (d_producers r, res)"
    using parse_refs_SomeD [OF _ assms(3)] by blast
  then show ?thesis using r(1) assms(4-6) scan_refs_complete by fastforce
qed

lemma ref_producers_mem: "r \<in> set refs \<Longrightarrow> p \<in> set (d_producers r) \<Longrightarrow> (r, p) \<in> set (ref_producers refs)"
  by (auto simp: ref_producers_def)

section \<open>Properties\<close>

text \<open>C15: No reference is missed: every reference to a target that heph claims, in any string at any
  depth of a target's configuration, is a valid address and becomes an input of the target that is
  hashed, and staged exactly when the reference asks for a path.\<close>

theorem deferred_edges_complete:
  assumes "collect N config pkg = Ok refs" and "s \<in> config_strings config" and "template_parse s = Ok ps"
    and "PRef t \<in> set ps" and "claimed DEFERRED_KINDS t" and "r_kind t \<noteq> Some RESOURCE_KIND"
  shows "\<exists>addr. parse_target_addr N (r_arg t) pkg = Ok addr
    \<and> (\<exists>j\<in>set (inputs_for refs). format_target_addr (i_ref j) = format_target_addr addr \<and> i_hashed j
         \<and> (i_runtime j \<longleftrightarrow> r_kind t = Some SRC_KIND))"
proof -
  obtain r p where p: "r \<in> set refs" "p \<in> set (d_producers r)" "parse_target_addr N (r_arg t) pkg = Ok (p_addr p)"
    "p_kind p = Src \<longleftrightarrow> r_kind t = Some SRC_KIND"
    using covered_claimed [OF _ _ assms(3-6)] collect_spec [OF assms(1)] assms(2) by blast
  then show ?thesis
    using add_inputs_covers [OF ref_producers_mem [OF p(1,2)], of "{}"] by (auto simp: inputs_for_def inputs_for_labelled_def)
qed

definition demo_config :: "(rstr \<times> Value) list" where
  "demo_config = [(u ''x'', VString (u ''${src://a:b}/x'')), (u ''y'', VList [VString (u ''${src://a:b}/y'')])]"

definition demo_producer :: Producer where
  "demo_producer = \<lparr> p_kind = Src, p_addr = \<lparr> ta_ref = \<lparr> addr_package = u ''a'', addr_name = u ''b'', addr_args = [] \<rparr>, ta_output = None, ta_filters = [] \<rparr> \<rparr>"

definition demo_refs :: "DeferredRef list" where
  "demo_refs = [\<lparr> d_raw = u ''${src://a:b}/x'', d_producers = [demo_producer], d_path = u ''x'' \<rparr>,
     \<lparr> d_raw = u ''${src://a:b}/y'', d_producers = [demo_producer], d_path = u ''y[0]'' \<rparr>]"

lemma demo_collect: "collect nom_std demo_config [] = Ok demo_refs"
  by code_simp

theorem deferred_edges_complete_witness:
  "\<exists>j\<in>set (inputs_for demo_refs). format_target_addr (i_ref j) = u ''//a:b'' \<and> i_hashed j \<and> i_runtime j"
proof -
  let ?t = "make_ref (u ''src://a:b'')"
  have s: "u ''${src://a:b}/x'' \<in> config_strings demo_config" by (simp add: config_strings_def demo_config_def)
  have p: "template_parse (u ''${src://a:b}/x'') = Ok [PRef ?t, Text (u ''/x'')]" by code_simp
  have t: "claimed DEFERRED_KINDS ?t" "r_kind ?t = Some SRC_KIND" "SRC_KIND \<noteq> RESOURCE_KIND" by code_simp+
  have a: "parse_target_addr nom_std (r_arg ?t) [] = Ok (p_addr demo_producer)" "format_target_addr (p_addr demo_producer) = u ''//a:b''" by code_simp+
  show ?thesis using deferred_edges_complete [OF demo_collect s p, of ?t] t a by simp
qed

section \<open>What a run is told of its grant\<close>

lemma reservation_amount_iter:
  "reservation_amount lane r p = (case map_of (reservation_iter lane r) p of Some n \<Rightarrow> n | None \<Rightarrow> 0)"
proof -
  have "(case find (\<lambda>(idx, n). get_at (l_names lane) idx = Some p) need of Some (_, n) \<Rightarrow> n | None \<Rightarrow> 0)
      = (case map_of (List.map_filter (\<lambda>(idx, n). map_option (\<lambda>p. (p, n)) (get_at (l_names lane) idx)) need) p of Some n \<Rightarrow> n | None \<Rightarrow> 0)" for need
    by (induction need) (auto simp: List.map_filter_simps split: option.splits)
  then show ?thesis by (simp add: reservation_amount_def reservation_iter_def)
qed

lemma reservation_iter_distinct:
  assumes "lane_ok lane" "need_ok lane (granted r)"
  shows "distinct (map fst (reservation_iter lane r))"
proof -
  let ?known = "filter (\<lambda>(idx, n). idx < length (l_names lane)) (granted r)"
  have "map fst (List.map_filter (\<lambda>(idx, n). map_option (\<lambda>p. (p, n)) (get_at (l_names lane) idx)) need)
      = map ((!) (l_names lane)) (map fst (filter (\<lambda>(idx, n). idx < length (l_names lane)) need))" for need
    by (induction need) (auto simp: List.map_filter_simps get_at_def)
  then have "map fst (reservation_iter lane r) = map ((!) (l_names lane)) (map fst ?known)"
    by (simp add: reservation_iter_def)
  moreover have "distinct (map fst ?known)" using assms(2) by (auto simp: need_ok_def intro: distinct_map_filter)
  moreover have "inj_on ((!) (l_names lane)) (set (map fst ?known))"
    using assms(1) by (auto simp: inj_on_def lane_ok_def nth_eq_iff_index_eq)
  ultimately show ?thesis by (simp add: distinct_map del: map_map)
qed

lemma map_of_filter_render:
  "distinct (map fst xs) \<Longrightarrow> p \<noteq> CPU \<Longrightarrow>
     map_of (map (render_amount unit_of) (filter (\<lambda>(p, n). p \<noteq> CPU \<and> n > 0) xs)) p
       = (case map_of xs p of Some n \<Rightarrow> if n > 0 then Some (snd (render_amount unit_of (p, n))) else None | None \<Rightarrow> None)"
proof (induction xs)
  case (Cons x xs)
  obtain q n where x: "x = (q, n)" by (cases x)
  have "map_of xs q = None" using Cons.prems(1) x by (auto simp: map_of_eq_None_iff)
  then show ?case using Cons by (auto simp: x render_amount_def)
qed simp

lemma allotment_lookup:
  assumes "lane_ok lane" "need_ok lane (granted r)"
  shows "bt_lookup (allotment_of lane r unit_of) p =
    (if p = CPU then Some (unit_render UCpu (max (reservation_amount lane r CPU) 1))
     else if reservation_amount lane r p > 0 then Some (snd (render_amount unit_of (p, reservation_amount lane r p))) else None)"
proof -
  let ?rest = "map (render_amount unit_of) (filter (\<lambda>(p, n). p \<noteq> CPU \<and> n > 0) (reservation_iter lane r))"
  let ?kvs = "(CPU, unit_render UCpu (max (reservation_amount lane r CPU) 1)) # ?rest"
  note d = reservation_iter_distinct [OF assms]
  have fst_render: "fst (render_amount unit_of x) = fst x" for x by (simp add: render_amount_def split: prod.splits)
  have keys: "map fst ?rest = map fst (filter (\<lambda>(p, n). p \<noteq> CPU \<and> n > 0) (reservation_iter lane r))"
    by (simp add: fst_render comp_def)
  have "distinct (map fst ?rest)" unfolding keys using d by (rule distinct_map_filter)
  then have dist: "distinct (map fst ?kvs)" by (auto simp: fst_render)
  have "bt_lookup (allotment_of lane r unit_of) p = map_of ?kvs p"
    using map_of_inject_set [of "rev ?kvs" ?kvs] dist
    unfolding allotment_of_def bt_lookup_of_list by (simp add: rev_map [symmetric])
  then show ?thesis
    using map_of_filter_render [OF d, of p unit_of] by (simp add: reservation_amount_iter split: option.splits)
qed

lemma check_pieces_ok:
  "check_pieces pools demand path ps = Ok () \<Longrightarrow> PRef t \<in> set ps \<Longrightarrow> claimed [RESOURCE_KIND] t \<Longrightarrow>
     is_pool pools (r_arg t) \<and> reserves demand (r_arg t)"
proof (induction ps)
  case (Cons p ps)
  then show ?case by (cases p) (auto split: if_splits)
qed simp

lemma validate_refs_ok:
  "validate_resource_refs pools refs demand = Ok () \<Longrightarrow> (path, raw) \<in> set refs \<Longrightarrow> template_parse raw = Ok ps \<Longrightarrow>
     PRef t \<in> set ps \<Longrightarrow> claimed [RESOURCE_KIND] t \<Longrightarrow> is_pool pools (r_arg t) \<and> reserves demand (r_arg t)"
  by (induction pools refs demand rule: validate_resource_refs.induct) (auto split: sum.splits dest: check_pieces_ok)

lemma resources_parse_bt: "resources_parse_loop unit_of ds out = Ok out' \<Longrightarrow> bt_ok out \<Longrightarrow> bt_ok out'"
  by (induction unit_of ds out rule: resources_parse_loop.induct) (auto split: option.splits sum.splits)

lemma validate_resources_bt: "validate_resources pools resources = Ok demand \<Longrightarrow> bt_ok (dem_declared demand)"
  by (auto simp: validate_resources_def resources_parse_def bt_ok_def [of "[]"] split: if_splits option.splits sum.splits
      intro: resources_parse_bt)

section \<open>Divergences of sandbox paths\<close>

text \<open>Inputs are merged by address, so two fields that name the same artifact share the input of the
  first; the completion of the second looks for an input of its own and fails.\<close>

definition staged_inputs :: "rstr \<Rightarrow> Input list \<Rightarrow> ManagedRunInput list" where
  "staged_inputs listing inputs = map (\<lambda>i. \<lparr> mi_origin_id = i_origin_id i, mi_list = Some listing \<rparr>) inputs"

theorem second_src_field_not_staged:
  "\<exists>values. render_deferred nom_std (ta_ref (p_addr demo_producer)) demo_refs [] None = Ok values
    \<and> complete_deferred (staged_inputs (u ''/ws/a/f'') (inputs_for demo_refs)) None values
        = Err (Unresolved (NotStaged (u ''//a:b'') (u ''option|src|y[0]'')))"
proof -
  have "render_deferred nom_std (ta_ref (p_addr demo_producer)) demo_refs [] None
      = Ok [(u ''${src://a:b}/x'', NeedsSandbox [] [(u ''//a:b'', u ''option|src|x'')]),
            (u ''${src://a:b}/y'', NeedsSandbox [] [(u ''//a:b'', u ''option|src|y[0]'')])]" by code_simp
  moreover have "complete_deferred (staged_inputs (u ''/ws/a/f'') (inputs_for demo_refs)) None
      [(u ''${src://a:b}/x'', NeedsSandbox [] [(u ''//a:b'', u ''option|src|x'')]),
       (u ''${src://a:b}/y'', NeedsSandbox [] [(u ''//a:b'', u ''option|src|y[0]'')])]
      = Err (Unresolved (NotStaged (u ''//a:b'') (u ''option|src|y[0]'')))" by code_simp
  ultimately show ?thesis by blast
qed

text \<open>A field that asks for both the contents and the path of one artifact gets the contents twice.\<close>

theorem src_beside_read_gets_contents:
  "complete_deferred [\<lparr> mi_origin_id = u ''option|src|x'', mi_list = Some (u ''/ws/a/f'') \<rparr>] None
     [(u ''${read://a:b} ${src://a:b}'', NeedsSandbox [(u ''//a:b'', u ''v'')] [(u ''//a:b'', u ''option|src|x'')])]
   = Ok [(u ''${read://a:b} ${src://a:b}'', DReady (u ''v v''))]"
  by code_simp

text \<open>The maps are keyed by the printed address, and read by the address as written: a reference
  that is not written as it is printed is not found.\<close>

theorem src_noncanonical_not_found:
  "\<exists>refs values. collect nom_std [(u ''x'', VString (u ''${src://a:b[]}''))] [] = Ok refs
    \<and> render_deferred nom_std (ta_ref (p_addr demo_producer)) refs [] None = Ok values
    \<and> complete_deferred (staged_inputs (u ''/ws/a/f'') (inputs_for refs)) None values
        = Err (Unresolved (Unresolved_by_host (u ''${src://a:b[]}'')))"
proof -
  let ?refs = "[\<lparr> d_raw = u ''${src://a:b[]}'', d_producers = [demo_producer], d_path = u ''x'' \<rparr>]"
  let ?vals = "[(u ''${src://a:b[]}'', NeedsSandbox [] [(u ''//a:b'', u ''option|src|x'')])]"
  have "collect nom_std [(u ''x'', VString (u ''${src://a:b[]}''))] [] = Ok ?refs"
    "render_deferred nom_std (ta_ref (p_addr demo_producer)) ?refs [] None = Ok ?vals"
    "complete_deferred (staged_inputs (u ''/ws/a/f'') (inputs_for ?refs)) None ?vals
        = Err (Unresolved (Unresolved_by_host (u ''${src://a:b[]}'')))" by code_simp+
  then show ?thesis by blast
qed

end
