(* ===== verification/Utf8.thy ===== *)
theory Utf8
  imports Prelude
begin

text \<open>
  Decoding bytes as the standard library does: \<open>from_utf8\<close> refuses an ill-formed sequence,
  \<open>from_utf8_lossy\<close> replaces it.  The two agree on well-formed bytes, and a line break always decodes
  to itself, so that lines can be cut before decoding.
\<close>

section \<open>Decoding\<close>

text \<open>The characters of two, three and four bytes.\<close>

definition char2 :: "nat \<Rightarrow> nat \<Rightarrow> rchar" where
  "char2 b c = (b - 192) * 64 + (c - 128)"

definition char3 :: "nat \<Rightarrow> nat \<Rightarrow> nat \<Rightarrow> rchar" where
  "char3 b c d = ((b - 224) * 64 + (c - 128)) * 64 + (d - 128)"

definition char4 :: "nat \<Rightarrow> nat \<Rightarrow> nat \<Rightarrow> nat \<Rightarrow> rchar" where
  "char4 b c d e = (((b - 240) * 64 + (c - 128)) * 64 + (d - 128)) * 64 + (e - 128)"

text \<open>\<^verbatim>\<open>str::from_utf8\<close>, as \<^verbatim>\<open>Read::read_to_string\<close> applies it to what it reads.\<close>

definition utf8_tail :: "nat \<Rightarrow> bool" where
  "utf8_tail b \<longleftrightarrow> 128 \<le> b \<and> b < 192"

fun from_utf8 :: "nat list \<Rightarrow> rstr option" where
  "from_utf8 [] = Some []"
| "from_utf8 (b # bs) = (if b < 128 then map_option (Cons b) (from_utf8 bs)
     else if 194 \<le> b \<and> b \<le> 223 then (case bs of
         c # bs' \<Rightarrow> if utf8_tail c then map_option (Cons (char2 b c)) (from_utf8 bs') else None
       | _ \<Rightarrow> None)
     else if 224 \<le> b \<and> b \<le> 239 then (case bs of
         c # d # bs' \<Rightarrow> (let x = char3 b c d
           in if utf8_tail c \<and> utf8_tail d \<and> 2048 \<le> x \<and> \<not> (55296 \<le> x \<and> x \<le> 57343)
              then map_option (Cons x) (from_utf8 bs') else None)
       | _ \<Rightarrow> None)
     else if 240 \<le> b \<and> b \<le> 244 then (case bs of
         c # d # e # bs' \<Rightarrow> (let x = char4 b c d e
           in if utf8_tail c \<and> utf8_tail d \<and> utf8_tail e \<and> 65536 \<le> x \<and> x \<le> 1114111
              then map_option (Cons x) (from_utf8 bs') else None)
       | _ \<Rightarrow> None)
     else None)"

text \<open>\<^verbatim>\<open>String::from_utf8_lossy\<close>: an ill-formed sequence becomes a replacement character, up to the
  first byte that cannot continue it.\<close>

abbreviation c_replacement :: rchar where "c_replacement \<equiv> 65533"

definition second3 :: "nat \<Rightarrow> nat \<Rightarrow> bool" where
  "second3 b c \<longleftrightarrow> utf8_tail c \<and> (b = 224 \<longrightarrow> 160 \<le> c) \<and> (b = 237 \<longrightarrow> c \<le> 159)"

definition second4 :: "nat \<Rightarrow> nat \<Rightarrow> bool" where
  "second4 b c \<longleftrightarrow> utf8_tail c \<and> (b = 240 \<longrightarrow> 144 \<le> c) \<and> (b = 244 \<longrightarrow> c \<le> 143)"

text \<open>The first character and the number of bytes after the first that it takes.\<close>

definition lossy_step :: "nat \<Rightarrow> nat list \<Rightarrow> rchar \<times> nat" where
  "lossy_step b bs = (if b < 128 then (b, 0)
     else if 194 \<le> b \<and> b \<le> 223 then (case bs of
         c # _ \<Rightarrow> if utf8_tail c then (char2 b c, 1) else (c_replacement, 0)
       | [] \<Rightarrow> (c_replacement, 0))
     else if 224 \<le> b \<and> b \<le> 239 then (case bs of
         c # bs' \<Rightarrow> if \<not> second3 b c then (c_replacement, 0) else (case bs' of
             d # _ \<Rightarrow> if utf8_tail d then (char3 b c d, 2) else (c_replacement, 1)
           | [] \<Rightarrow> (c_replacement, 1))
       | [] \<Rightarrow> (c_replacement, 0))
     else if 240 \<le> b \<and> b \<le> 244 then (case bs of
         c # bs' \<Rightarrow> if \<not> second4 b c then (c_replacement, 0) else (case bs' of
             d # bs'' \<Rightarrow> if \<not> utf8_tail d then (c_replacement, 1) else (case bs'' of
                 e # _ \<Rightarrow> if utf8_tail e then (char4 b c d e, 3)
                   else (c_replacement, 2)
               | [] \<Rightarrow> (c_replacement, 2))
           | [] \<Rightarrow> (c_replacement, 1))
       | [] \<Rightarrow> (c_replacement, 0))
     else (c_replacement, 0))"

function from_utf8_lossy :: "nat list \<Rightarrow> rstr" where
  "from_utf8_lossy [] = []"
| "from_utf8_lossy (b # bs) = (case lossy_step b bs of (c, k) \<Rightarrow> c # from_utf8_lossy (drop k bs))"
  by pat_completeness auto

termination
  by (relation "measure length") auto

text \<open>The bytes of a string, \<^verbatim>\<open>str::as_bytes\<close>.\<close>

definition is_scalar :: "rchar \<Rightarrow> bool" where
  "is_scalar c \<longleftrightarrow> c \<le> 1114111 \<and> \<not> (55296 \<le> c \<and> c \<le> 57343)"

definition char_bytes :: "rchar \<Rightarrow> nat list" where
  "char_bytes c = (if c < 128 then [c]
     else if c < 2048 then [192 + c div 64, 128 + c mod 64]
     else if c < 65536 then [224 + c div 4096, 128 + c div 64 mod 64, 128 + c mod 64]
     else [240 + c div 262144, 128 + c div 4096 mod 64, 128 + c div 64 mod 64, 128 + c mod 64])"

definition str_bytes :: "rstr \<Rightarrow> nat list" where
  "str_bytes s = concat (map char_bytes s)"

section \<open>Lemmas\<close>

lemma not_tail_newline [simp]:
  "\<not> utf8_tail c_newline" "\<not> second3 b c_newline" "\<not> second4 b c_newline"
  by (simp_all add: utf8_tail_def second3_def second4_def)

lemma utf8_tail_neq: "utf8_tail b \<Longrightarrow> b \<noteq> c_newline"
  by (auto simp: utf8_tail_def)

lemma second_tail: "second3 b c \<Longrightarrow> utf8_tail c" "second4 b c \<Longrightarrow> utf8_tail c"
  by (simp_all add: second3_def second4_def)

text \<open>A line break ends an ill-formed sequence before it.\<close>

lemma lossy_step_break: "lossy_step b (bs @ c_newline # ys) = lossy_step b bs"
  by (simp add: lossy_step_def split: list.splits)

lemma lossy_step_bytes: "lossy_step b bs = (c, k) \<Longrightarrow> k \<le> length bs \<and> count_list (take k bs) c_newline = 0"
  by (auto simp: lossy_step_def dest: utf8_tail_neq second_tail split: list.splits if_splits)

lemma char2_big: "194 \<le> b \<Longrightarrow> 128 \<le> char2 b c"
  by (simp add: char2_def)

lemma char3_big: "224 \<le> b \<Longrightarrow> second3 b c \<Longrightarrow> 128 \<le> char3 b c d"
  by (cases "b = 224") (auto simp: char3_def second3_def utf8_tail_def)

lemma char4_big: "240 \<le> b \<Longrightarrow> second4 b c \<Longrightarrow> 128 \<le> char4 b c d e"
  by (cases "b = 240") (auto simp: char4_def second4_def utf8_tail_def)

lemma lossy_step_char:
  assumes "lossy_step b bs = (c, k)"
  shows "c = c_newline \<longleftrightarrow> b = c_newline"
proof (cases "b < 128")
  case True
  then show ?thesis using assms by (simp add: lossy_step_def)
next
  case False
  moreover have "128 \<le> c"
    using assms False by (auto simp: lossy_step_def char2_big char3_big char4_big split: list.splits if_splits)
  ultimately show ?thesis by simp
qed

lemma lossy_step_ascii: "lossy_step b bs = (c, k) \<Longrightarrow> k = 0 \<or> 128 \<le> b"
  by (auto simp: lossy_step_def)

lemma lossy_break:
  "from_utf8_lossy (a @ c_newline # b) = from_utf8_lossy a @ c_newline # from_utf8_lossy b"
proof (induction a rule: from_utf8_lossy.induct)
  case 1
  then show ?case by (simp add: lossy_step_def)
next
  case (2 x xs)
  obtain c k where st: "lossy_step x xs = (c, k)" by fastforce
  have "k \<le> length xs" using lossy_step_bytes [OF st] by simp
  then show ?case using 2 [OF st [symmetric]] st by (simp add: lossy_step_break)
qed

lemma lossy_Nil_iff [simp]: "from_utf8_lossy a = [] \<longleftrightarrow> a = []"
  by (cases a) (auto split: prod.splits)

lemma lossy_count: "count_list (from_utf8_lossy a) c_newline = count_list a c_newline"
proof (induction a rule: from_utf8_lossy.induct)
  case (2 x xs)
  obtain c k where st: "lossy_step x xs = (c, k)" by fastforce
  have "count_list xs c_newline = count_list (take k xs) c_newline + count_list (drop k xs) c_newline"
    by (metis append_take_drop_id count_list_append)
  then show ?case using 2 [OF st [symmetric]] st lossy_step_bytes [OF st] lossy_step_char [OF st] by simp
qed simp

lemma lossy_last: "a \<noteq> [] \<Longrightarrow> last (from_utf8_lossy a) = c_newline \<longleftrightarrow> last a = c_newline"
proof (induction a rule: from_utf8_lossy.induct)
  case (2 x xs)
  obtain c k where st: "lossy_step x xs = (c, k)" by fastforce
  have k: "k \<le> length xs" "count_list (take k xs) c_newline = 0" using lossy_step_bytes [OF st] by auto
  show ?case
  proof (cases "drop k xs = []")
    case True
    then have "take k xs = xs" by simp
    then have "c_newline \<notin> set xs" using k(2) by (simp add: count_list_0_iff)
    then have nl: "xs = [] \<or> last xs \<noteq> c_newline" using last_in_set by metis
    have "xs = [] \<or> x \<noteq> c_newline" using lossy_step_ascii [OF st] True by auto
    then show ?thesis using nl True st lossy_step_char [OF st] by auto
  next
    case False
    then have "last (drop k xs) = last xs" by simp
    then show ?thesis using 2(1) [OF st [symmetric] False] False st by auto
  qed
qed simp

lemma char3_second:
  assumes "224 \<le> b" "b \<le> 239" "utf8_tail c" "utf8_tail d" "2048 \<le> char3 b c d" "\<not> (55296 \<le> char3 b c d \<and> char3 b c d \<le> 57343)"
  shows "second3 b c"
  using assms by (auto simp: second3_def utf8_tail_def char3_def)

lemma char4_second:
  assumes "240 \<le> b" "b \<le> 244" "utf8_tail c" "utf8_tail d" "utf8_tail e" "65536 \<le> char4 b c d e" "char4 b c d e \<le> 1114111"
  shows "second4 b c"
  using assms by (auto simp: second4_def utf8_tail_def char4_def)

lemma from_utf8_step:
  assumes "from_utf8 (b # bs) = Some s"
  shows "\<exists>c k s'. lossy_step b bs = (c, k) \<and> from_utf8 (drop k bs) = Some s' \<and> s = c # s'"
proof -
  consider "b < 128" | "194 \<le> b" "b \<le> 223" | "224 \<le> b" "b \<le> 239" | "240 \<le> b" "b \<le> 244"
    using assms by (auto split: if_splits)
  then show ?thesis
  proof cases
    case 1
    then show ?thesis using assms by (auto simp: lossy_step_def)
  next
    case 2
    then show ?thesis using assms by (cases bs) (auto simp: lossy_step_def split: if_splits)
  next
    case 3
    then obtain c d r where bs: "bs = c # d # r" using assms by (auto split: list.splits)
    then show ?thesis using 3 assms by (auto simp: lossy_step_def Let_def char3_second simp del: from_utf8.simps(2) simp: from_utf8.simps(2) [of b] split: if_splits)
  next
    case 4
    then obtain c d e r where bs: "bs = c # d # e # r" using assms by (auto split: list.splits)
    then show ?thesis using 4 assms by (auto simp: lossy_step_def Let_def char4_second simp del: from_utf8.simps(2) simp: from_utf8.simps(2) [of b] split: if_splits)
  qed
qed

lemma from_utf8_is_lossy: "from_utf8 bs = Some s \<Longrightarrow> from_utf8_lossy bs = s"
proof (induction bs arbitrary: s rule: from_utf8_lossy.induct)
  case (2 b bs)
  obtain c k s' where "lossy_step b bs = (c, k)" "from_utf8 (drop k bs) = Some s'" "s = c # s'"
    using from_utf8_step [OF 2(2)] by blast
  then show ?case using 2(1) [of c k s'] by simp
qed simp

lemma div_mod_64: "(c div 64) * 64 + c mod 64 = (c :: nat)"
  by (simp add: div_mult_mod_eq)

lemma char3_bytes: "2048 \<le> c \<Longrightarrow> c < 65536 \<Longrightarrow> char3 (224 + c div 4096) (128 + c div 64 mod 64) (128 + c mod 64) = c"
proof -
  have "c div 4096 = c div 64 div 64" by (simp add: div_mult2_eq [symmetric])
  then show ?thesis using div_mod_64 [of c] div_mod_64 [of "c div 64"] by (simp add: char3_def)
qed

lemma char4_bytes: "char4 (240 + c div 262144) (128 + c div 4096 mod 64) (128 + c div 64 mod 64) (128 + c mod 64) = c"
proof -
  have "c div 4096 = c div 64 div 64" "c div 262144 = c div 64 div 64 div 64" by (simp_all add: div_mult2_eq [symmetric])
  then show ?thesis using div_mod_64 [of c] div_mod_64 [of "c div 64"] div_mod_64 [of "c div 64 div 64"] by (simp add: char4_def)
qed

lemma from_utf8_char:
  assumes "is_scalar c"
  shows "from_utf8 (char_bytes c @ bs) = map_option (Cons c) (from_utf8 bs)"
proof -
  consider "c < 128" | "128 \<le> c" "c < 2048" | "2048 \<le> c" "c < 65536" | "65536 \<le> c" by linarith
  then show ?thesis
  proof cases
    case 1
    then show ?thesis by (simp add: char_bytes_def)
  next
    case 2
    have "char2 (192 + c div 64) (128 + c mod 64) = c" using div_mod_64 [of c] by (simp add: char2_def)
    moreover have "2 \<le> c div 64" "c div 64 \<le> 31" using 2 by auto
    ultimately show ?thesis using 2 by (simp add: char_bytes_def utf8_tail_def)
  next
    case 3
    have "c div 4096 \<le> 15" using 3 by auto
    then show ?thesis using 3 assms char3_bytes [OF 3]
      by (simp add: char_bytes_def utf8_tail_def is_scalar_def Let_def)
  next
    case 4
    have "c div 262144 \<le> 4" using assms by (auto simp: is_scalar_def)
    then show ?thesis using 4 assms char4_bytes [of c]
      by (simp add: char_bytes_def utf8_tail_def is_scalar_def Let_def)
  qed
qed

lemma from_utf8_str: "list_all is_scalar s \<Longrightarrow> from_utf8 (str_bytes s) = Some s"
  by (induction s) (simp_all add: str_bytes_def from_utf8_char)

lemma str_bytes_inj: "list_all is_scalar s \<Longrightarrow> list_all is_scalar t \<Longrightarrow> str_bytes s = str_bytes t \<Longrightarrow> s = t"
  using from_utf8_str by (metis option.inject)

end
