(* ===== verification/Flock.thy ===== *)
theory Flock
  imports Prelude "HOL-Library.Sublist"
begin

text \<open>
  The file lock (lock/hlock/flock.rs): \<^verbatim>\<open>flock(2)\<close> on a lock file that a releasing writer deletes.

  The operating system is a parameter.  \<open>Kernel\<close> is what of it the code can observe for one lock
  file: the inode its path names, the open file descriptions with the lock each has, and the
  contents of the inodes.  An open file description is named by the lock instance that opened it,
  which has at most one.  \<open>allowed\<close> states what the system calls are documented to do, failures
  included; the behaviours of a particular system are a relation that stays within it, and
  \<open>sys_std\<close> is one.

  An operation is a program: a tree of system calls, branching on their answers.  It runs under
  the mutex of its instance, so an instance runs one operation at a time, while the operations of
  different instances interleave at every system call.  The proofs are rely/guarantee: \<open>rely\<close> is
  what an instance counts on, and \<open>good\<close> says that a program establishes its postcondition and
  lets every other instance rely on the same.
\<close>

section \<open>The operating system\<close>

datatype lock_mode = LOCK_SH | LOCK_EX

record OpenFile =
  f_ino :: nat
  f_lock :: "lock_mode option"

record Kernel =
  k_path :: "nat option"
  k_ofd :: "nat \<Rightarrow> OpenFile option"
  k_data :: "nat \<Rightarrow> rstr"
  k_next :: nat

datatype call = COpen | COpenExisting | CFlock lock_mode | CUnlock | CClose | CFstat | CStat | CUnlink
  | CSetLen0 | CPwrite nat rstr

datatype ret = Done | WouldBlock | NotFound | Interrupted | Failed | RIno nat | Wrote nat

fun compatible :: "lock_mode option \<Rightarrow> lock_mode option \<Rightarrow> bool" where
  "compatible (Some a) (Some b) \<longleftrightarrow> a = LOCK_SH \<and> b = LOCK_SH"
| "compatible _ _ \<longleftrightarrow> True"

definition unlocked_for :: "Kernel \<Rightarrow> nat \<Rightarrow> nat \<Rightarrow> lock_mode \<Rightarrow> bool" where
  "unlocked_for k t ino m \<longleftrightarrow> (\<forall>t' f. t' \<noteq> t \<and> k_ofd k t' = Some f \<and> f_ino f = ino \<longrightarrow> compatible (f_lock f) (Some m))"

definition fresh_ino :: "Kernel \<Rightarrow> nat \<Rightarrow> bool" where
  "fresh_ino k ino \<longleftrightarrow> (\<forall>t f. k_ofd k t = Some f \<longrightarrow> f_ino f \<noteq> ino)"

abbreviation set_ofd :: "Kernel \<Rightarrow> nat \<Rightarrow> OpenFile option \<Rightarrow> Kernel" where
  "set_ofd k t f \<equiv> k\<lparr> k_ofd := (k_ofd k)(t := f) \<rparr>"

text \<open>Writing at an offset; a gap before it reads as zeros.\<close>

definition overwrite :: "nat \<Rightarrow> rstr \<Rightarrow> rstr \<Rightarrow> rstr" where
  "overwrite off bs old = take off (old @ replicate (off - length old) 0) @ bs @ drop (off + length bs) old"

text \<open>A signal can interrupt the calls whose callers then make them again: the loop of
  \<^verbatim>\<open>flock_nb\<close>, and the standard library around opening, truncating and writing.\<close>

fun retried :: "call \<Rightarrow> bool" where
  "retried COpen \<longleftrightarrow> True"
| "retried COpenExisting \<longleftrightarrow> True"
| "retried (CFlock m) \<longleftrightarrow> True"
| "retried CSetLen0 \<longleftrightarrow> True"
| "retried (CPwrite off bs) \<longleftrightarrow> True"
| "retried _ \<longleftrightarrow> False"

fun allowed :: "Kernel \<Rightarrow> nat \<Rightarrow> call \<Rightarrow> ret \<Rightarrow> Kernel \<Rightarrow> bool" where
  "allowed k t c Interrupted k' \<longleftrightarrow> retried c \<and> k' = k"
| "allowed k t CClose r k' \<longleftrightarrow> r = Done \<and> k' = set_ofd k t None"
| "allowed k t (CFlock m) WouldBlock k' \<longleftrightarrow> (\<exists>f. k_ofd k t = Some f \<and> \<not> unlocked_for k t (f_ino f) m
     \<and> (k' = k \<or> k' = set_ofd k t (Some (f\<lparr> f_lock := None \<rparr>))))"
| "allowed k t c Failed k' \<longleftrightarrow> k' = k"
| "allowed k t COpen Done k' \<longleftrightarrow> k_ofd k t = None \<and> (case k_path k of
     Some n \<Rightarrow> k' = set_ofd k t (Some \<lparr> f_ino = n, f_lock = None \<rparr>)
   | None \<Rightarrow> (\<exists>n next. fresh_ino k n \<and> k' = (set_ofd k t (Some \<lparr> f_ino = n, f_lock = None \<rparr>))
       \<lparr> k_path := Some n, k_data := (k_data k)(n := []), k_next := next \<rparr>))"
| "allowed k t COpenExisting Done k' \<longleftrightarrow> k_ofd k t = None \<and>
     (\<exists>n. k_path k = Some n \<and> k' = set_ofd k t (Some \<lparr> f_ino = n, f_lock = None \<rparr>))"
| "allowed k t COpenExisting NotFound k' \<longleftrightarrow> k_path k = None \<and> k' = k"
| "allowed k t (CFlock m) Done k' \<longleftrightarrow> (\<exists>f. k_ofd k t = Some f \<and> unlocked_for k t (f_ino f) m
     \<and> k' = set_ofd k t (Some (f\<lparr> f_lock := Some m \<rparr>)))"
| "allowed k t CUnlock Done k' \<longleftrightarrow> (\<exists>f. k_ofd k t = Some f \<and> k' = set_ofd k t (Some (f\<lparr> f_lock := None \<rparr>)))"
| "allowed k t CFstat (RIno n) k' \<longleftrightarrow> k' = k \<and> (\<exists>f. k_ofd k t = Some f \<and> f_ino f = n)"
| "allowed k t CStat (RIno n) k' \<longleftrightarrow> k' = k \<and> k_path k = Some n"
| "allowed k t CStat NotFound k' \<longleftrightarrow> k' = k \<and> k_path k = None"
| "allowed k t CUnlink Done k' \<longleftrightarrow> k_path k \<noteq> None \<and> k' = k\<lparr> k_path := None \<rparr>"
| "allowed k t CUnlink NotFound k' \<longleftrightarrow> k_path k = None \<and> k' = k"
| "allowed k t CSetLen0 Done k' \<longleftrightarrow> (\<exists>f. k_ofd k t = Some f \<and> k' = k\<lparr> k_data := (k_data k)(f_ino f := []) \<rparr>)"
| "allowed k t (CPwrite off bs) (Wrote n) k' \<longleftrightarrow> (\<exists>f. k_ofd k t = Some f \<and> n \<le> length bs
     \<and> k' = k\<lparr> k_data := (k_data k)(f_ino f := overwrite off (take n bs) (k_data k (f_ino f))) \<rparr>)"
| "allowed k t c r k' \<longleftrightarrow> False"

type_synonym os = "Kernel \<Rightarrow> nat \<Rightarrow> call \<Rightarrow> ret \<Rightarrow> Kernel \<Rightarrow> bool"

definition os_laws :: "os \<Rightarrow> bool" where
  "os_laws os \<longleftrightarrow> (\<forall>k t c r k'. os k t c r k' \<longrightarrow> allowed k t c r k')"

section \<open>Programs of system calls\<close>

datatype 'a prog = Return 'a | Sys call "ret \<Rightarrow> 'a prog"

primrec bind_prog :: "'a prog \<Rightarrow> ('a \<Rightarrow> 'b prog) \<Rightarrow> 'b prog" where
  "bind_prog (Return x) g = g x"
| "bind_prog (Sys c f) g = Sys c (\<lambda>r. bind_prog (f r) g)"

section \<open>The lock instance\<close>

datatype io_error = OpenFailed | FlockFailed | FdNotOpen | FstatFailed | StatFailed | NotHeld | SetLenFailed | WriteFailed
  | ProbeOpenFailed

text \<open>\<open>fd_file\<close> says whether the file is open; the description is the one named by the instance.\<close>

record FdState =
  fd_file :: bool
  fd_readers :: nat
  fd_writer :: bool
  fd_stale_warned :: bool

definition FdState_new :: FdState where
  "FdState_new = \<lparr> fd_file = False, fd_readers = 0, fd_writer = False, fd_stale_warned = False \<rparr>"

definition STALE_RETRIES :: nat where "STALE_RETRIES = 16"

definition ensure_open :: "FdState \<Rightarrow> (FdState \<times> (io_error + unit)) prog" where
  "ensure_open st = (if \<not> fd_file st
     then Sys COpen (\<lambda>r. if r = Done then Return (st\<lparr> fd_file := True \<rparr>, Ok ()) else Return (st, Err OpenFailed))
     else Return (st, Ok ()))"

definition discard_fd :: "FdState \<Rightarrow> FdState prog" where
  "discard_fd st = (if fd_file st then Sys CUnlock (\<lambda>_. Sys CClose (\<lambda>_. Return (st\<lparr> fd_file := False \<rparr>)))
     else Return st)"

definition maybe_close :: "FdState \<Rightarrow> FdState prog" where
  "maybe_close st = (if fd_readers st = 0 \<and> \<not> fd_writer st then discard_fd st else Return st)"

definition fd_matches_path :: "FdState \<Rightarrow> (io_error + bool) prog" where
  "fd_matches_path st = (if \<not> fd_file st then Return (Err FdNotOpen)
     else Sys CFstat (\<lambda>r. case r of
        RIno fd_ino \<Rightarrow> Sys CStat (\<lambda>r. case r of
            RIno path_ino \<Rightarrow> Return (Ok (path_ino = fd_ino))
          | NotFound \<Rightarrow> Return (Ok False)
          | _ \<Rightarrow> Return (Err StatFailed))
      | _ \<Rightarrow> Return (Err FstatFailed)))"

definition flock_nb :: "lock_mode \<Rightarrow> (io_error + bool) prog" where
  "flock_nb op = Sys (CFlock op) (\<lambda>r. case r of
     Done \<Rightarrow> Return (Ok True)
   | WouldBlock \<Rightarrow> Return (Ok False)
   | _ \<Rightarrow> Return (Err FlockFailed))"

primrec fresh_loop :: "lock_mode \<Rightarrow> nat \<Rightarrow> FdState \<Rightarrow> (FdState \<times> (io_error + bool)) prog" where
  "fresh_loop op 0 st = Return (st\<lparr> fd_stale_warned := True \<rparr>, Ok False)"
| "fresh_loop op (Suc n) st = bind_prog (ensure_open st) (\<lambda>(st, opened). case opened of
     Err e \<Rightarrow> Return (st, Err e)
   | Ok _ \<Rightarrow> bind_prog (flock_nb op) (\<lambda>locked. case locked of
         Err e \<Rightarrow> Return (st, Err e)
       | Ok l \<Rightarrow> if \<not> l then Sys CClose (\<lambda>_. Return (st\<lparr> fd_file := False \<rparr>, Ok False))
           else bind_prog (fd_matches_path st) (\<lambda>matches. case matches of
               Err e \<Rightarrow> Return (st, Err e)
             | Ok m \<Rightarrow> if m then Return (st\<lparr> fd_stale_warned := False \<rparr>, Ok True)
                 else bind_prog (discard_fd st) (fresh_loop op n))))"

definition try_lock_fresh :: "FdState \<Rightarrow> lock_mode \<Rightarrow> (FdState \<times> (io_error + bool)) prog" where
  "try_lock_fresh st op = fresh_loop op STALE_RETRIES st"

definition try_acquire_read :: "FdState \<Rightarrow> (FdState \<times> (io_error + bool)) prog" where
  "try_acquire_read st = (if fd_writer st then Return (st, Ok False)
     else if fd_readers st > 0 then Return (st\<lparr> fd_readers := fd_readers st + 1 \<rparr>, Ok True)
     else bind_prog (try_lock_fresh st LOCK_SH) (\<lambda>(st, locked). case locked of
         Err e \<Rightarrow> Return (st, Err e)
       | Ok l \<Rightarrow> if l then Return (st\<lparr> fd_readers := 1 \<rparr>, Ok True) else Return (st, Ok False)))"

definition try_acquire_write :: "FdState \<Rightarrow> (FdState \<times> (io_error + bool)) prog" where
  "try_acquire_write st = (if fd_writer st \<or> fd_readers st > 0 then Return (st, Ok False)
     else bind_prog (try_lock_fresh st LOCK_EX) (\<lambda>(st, locked). case locked of
         Err e \<Rightarrow> Return (st, Err e)
       | Ok l \<Rightarrow> if l then Return (st\<lparr> fd_writer := True \<rparr>, Ok True) else Return (st, Ok False)))"

text \<open>\<^verbatim>\<open>write_all_at\<close> of the standard library: positioned writes until all bytes are written.\<close>

function write_all_at :: "nat \<Rightarrow> rstr \<Rightarrow> (io_error + unit) prog" where
  "write_all_at off bs = (if bs = [] then Return (Ok ())
     else Sys (CPwrite off bs) (\<lambda>r. case r of
        Wrote n \<Rightarrow> if n = 0 then Return (Err WriteFailed) else write_all_at (off + n) (drop n bs)
      | _ \<Rightarrow> Return (Err WriteFailed)))"
  by pat_completeness auto

termination
  by (relation "measure (\<lambda>(off, bs). length bs)") auto

declare write_all_at.simps [simp del]

definition write_contents :: "FdState \<Rightarrow> rstr \<Rightarrow> (io_error + unit) prog" where
  "write_contents st bytes = (if \<not> fd_file st then Return (Err NotHeld)
     else Sys CSetLen0 (\<lambda>r. if r = Done then write_all_at 0 bytes else Return (Err SetLenFailed)))"

definition release_read :: "FdState \<Rightarrow> FdState prog" where
  "release_read st = maybe_close (st\<lparr> fd_readers := fd_readers st - 1 \<rparr>)"

definition release_write :: "FdState \<Rightarrow> FdState prog" where
  "release_write st = (let st = st\<lparr> fd_writer := False \<rparr>
     in if fd_file st then Sys CUnlink (\<lambda>_. maybe_close st) else maybe_close st)"

text \<open>The probes open a description of their own.\<close>

definition probe :: "lock_mode \<Rightarrow> (io_error + bool) prog" where
  "probe op = Sys COpenExisting (\<lambda>r. case r of
     Done \<Rightarrow> bind_prog (flock_nb op) (\<lambda>locked. case locked of
         Err e \<Rightarrow> Sys CClose (\<lambda>_. Return (Err e))
       | Ok l \<Rightarrow> if l then Sys CUnlock (\<lambda>_. Sys CClose (\<lambda>_. Return (Ok False)))
           else Sys CClose (\<lambda>_. Return (Ok True)))
   | NotFound \<Rightarrow> Return (Ok False)
   | _ \<Rightarrow> Return (Err ProbeOpenFailed))"

definition is_path_held :: "(io_error + bool) prog" where
  "is_path_held = probe LOCK_SH"

definition is_path_locked :: "(io_error + bool) prog" where
  "is_path_locked = probe LOCK_EX"


section \<open>Instances and their guards\<close>

text \<open>What a caller can do with an instance.  A release and a write to the file need the guard
  they are methods of.  A probe opens a description of its own, so it is run under the name of an
  instance that has none.\<close>

datatype lock_op = AcquireRead | AcquireWrite | ReleaseRead | ReleaseWrite | WriteContents rstr | ProbeHeld | ProbeLocked

fun op_prog :: "lock_op \<Rightarrow> FdState \<Rightarrow> (FdState \<times> (io_error + bool)) prog" where
  "op_prog AcquireRead st = try_acquire_read st"
| "op_prog AcquireWrite st = try_acquire_write st"
| "op_prog ReleaseRead st = bind_prog (release_read st) (\<lambda>st. Return (st, Ok True))"
| "op_prog ReleaseWrite st = bind_prog (release_write st) (\<lambda>st. Return (st, Ok True))"
| "op_prog (WriteContents bs) st = bind_prog (write_contents st bs) (\<lambda>r. Return (st, map_sum id (\<lambda>_. True) r))"
| "op_prog ProbeHeld st = bind_prog is_path_held (\<lambda>r. Return (st, r))"
| "op_prog ProbeLocked st = bind_prog is_path_locked (\<lambda>r. Return (st, r))"

text \<open>\<open>i_reads\<close> and \<open>i_writes\<close> count the guards of the instance that exist; a guard being dropped
  is gone when its release begins.\<close>

record Inst =
  i_st :: FdState
  i_run :: "(lock_op \<times> (FdState \<times> (io_error + bool)) prog) option"
  i_reads :: nat
  i_writes :: nat

definition Inst_new :: Inst where
  "Inst_new = \<lparr> i_st = FdState_new, i_run = None, i_reads = 0, i_writes = 0 \<rparr>"

fun can_begin :: "rstr set \<Rightarrow> lock_op \<Rightarrow> Inst \<Rightarrow> bool" where
  "can_begin P AcquireRead i \<longleftrightarrow> True"
| "can_begin P AcquireWrite i \<longleftrightarrow> True"
| "can_begin P ReleaseRead i \<longleftrightarrow> i_reads i > 0"
| "can_begin P ReleaseWrite i \<longleftrightarrow> i_writes i > 0"
| "can_begin P (WriteContents bs) i \<longleftrightarrow> i_writes i > 0 \<and> (bs = [] \<or> bs \<in> P)"
| "can_begin P ProbeHeld i \<longleftrightarrow> \<not> fd_file (i_st i)"
| "can_begin P ProbeLocked i \<longleftrightarrow> \<not> fd_file (i_st i)"

fun begin_reads :: "lock_op \<Rightarrow> nat \<Rightarrow> nat" where
  "begin_reads ReleaseRead r = r - 1"
| "begin_reads _ r = r"

fun begin_writes :: "lock_op \<Rightarrow> nat \<Rightarrow> nat" where
  "begin_writes ReleaseWrite w = w - 1"
| "begin_writes _ w = w"

fun end_reads :: "lock_op \<Rightarrow> io_error + bool \<Rightarrow> nat \<Rightarrow> nat" where
  "end_reads AcquireRead (Inr True) r = r + 1"
| "end_reads _ _ r = r"

fun end_writes :: "lock_op \<Rightarrow> io_error + bool \<Rightarrow> nat \<Rightarrow> nat" where
  "end_writes AcquireWrite (Inr True) w = w + 1"
| "end_writes _ _ w = w"

text \<open>An interrupted call is made again.\<close>

definition resume :: "call \<Rightarrow> (ret \<Rightarrow> 'a prog) \<Rightarrow> ret \<Rightarrow> 'a prog" where
  "resume c f r = (if r = Interrupted then Sys c f else f r)"

type_synonym lock_system = "Kernel \<times> (nat \<Rightarrow> Inst)"

inductive lock_step :: "os \<Rightarrow> rstr set \<Rightarrow> lock_system \<Rightarrow> lock_system \<Rightarrow> bool" for os P where
  begins: "i_run (I t) = None \<Longrightarrow> can_begin P op (I t) \<Longrightarrow>
    lock_step os P (k, I) (k, I(t := (I t)\<lparr> i_run := Some (op, op_prog op (i_st (I t))),
      i_reads := begin_reads op (i_reads (I t)), i_writes := begin_writes op (i_writes (I t)) \<rparr>))"
| calls: "i_run (I t) = Some (op, Sys c f) \<Longrightarrow> os k t c r k' \<Longrightarrow>
    lock_step os P (k, I) (k', I(t := (I t)\<lparr> i_run := Some (op, resume c f r) \<rparr>))"
| finishes: "i_run (I t) = Some (op, Return (st, res)) \<Longrightarrow>
    lock_step os P (k, I) (k, I(t := \<lparr> i_st = st, i_run = None,
      i_reads = end_reads op res (i_reads (I t)), i_writes = end_writes op res (i_writes (I t)) \<rparr>))"
| killed: "lock_step os P (k, I) (set_ofd k t None, I(t := Inst_new))"

definition data_ok :: "rstr set \<Rightarrow> Kernel \<Rightarrow> bool" where
  "data_ok P k \<longleftrightarrow> (\<forall>n. k_data k n = [] \<or> (\<exists>p\<in>P. prefix (k_data k n) p))"

definition lock_init :: "rstr set \<Rightarrow> lock_system \<Rightarrow> bool" where
  "lock_init P = (\<lambda>(k, I). k_ofd k = (\<lambda>_. None) \<and> data_ok P k \<and> I = (\<lambda>_. Inst_new))"

definition lock_reachable :: "os \<Rightarrow> rstr set \<Rightarrow> lock_system \<Rightarrow> bool" where
  "lock_reachable os P s \<longleftrightarrow> (\<exists>s0. lock_init P s0 \<and> (lock_step os P)\<^sup>*\<^sup>* s0 s)"

section \<open>What instances rely on\<close>

definition backed :: "Kernel \<Rightarrow> nat \<Rightarrow> lock_mode \<Rightarrow> bool" where
  "backed k t m \<longleftrightarrow> (\<exists>f. k_ofd k t = Some f \<and> f_lock f = Some m \<and> k_path k = Some (f_ino f))"

definition rely :: "nat \<Rightarrow> Kernel \<Rightarrow> Kernel \<Rightarrow> bool" where
  "rely t k k' \<longleftrightarrow> k_ofd k' t = k_ofd k t
     \<and> (\<forall>m. backed k t m \<longrightarrow> k_path k' = k_path k)
     \<and> (\<forall>n. backed k t LOCK_EX \<and> k_path k = Some n \<longrightarrow> k_data k' n = k_data k n)"

definition locks_ok :: "Kernel \<Rightarrow> bool" where
  "locks_ok k \<longleftrightarrow> (\<forall>t t' f f'. t \<noteq> t' \<and> k_ofd k t = Some f \<and> k_ofd k t' = Some f' \<and> f_ino f = f_ino f'
     \<longrightarrow> compatible (f_lock f) (f_lock f'))"

definition kernel_ok :: "rstr set \<Rightarrow> Kernel \<Rightarrow> bool" where
  "kernel_ok P k \<longleftrightarrow> locks_ok k \<and> data_ok P k"

primrec good :: "rstr set \<Rightarrow> nat \<Rightarrow> (Kernel \<Rightarrow> bool) \<Rightarrow> ('a \<Rightarrow> Kernel \<Rightarrow> bool) \<Rightarrow> 'a prog \<Rightarrow> Kernel \<Rightarrow> bool" where
  "good P t A Q (Return x) k \<longleftrightarrow> A k \<and> Q x k"
| "good P t A Q (Sys c f) k \<longleftrightarrow> A k \<and> (\<forall>k1 r k2. rely t k k1 \<and> kernel_ok P k1 \<and> allowed k1 t c r k2 \<longrightarrow>
     kernel_ok P k2 \<and> (\<forall>t'. t' \<noteq> t \<longrightarrow> rely t' k1 k2) \<and> good P t A Q (f r) k2)"

definition rely_stable :: "nat \<Rightarrow> (Kernel \<Rightarrow> bool) \<Rightarrow> bool" where
  "rely_stable t A \<longleftrightarrow> (\<forall>k k'. A k \<and> rely t k k' \<longrightarrow> A k')"

lemma compatible_sym: "compatible a b = compatible b a"
  by (cases a; cases b) auto

lemma rely_refl [simp]: "rely t k k"
  by (simp add: rely_def)

lemma backed_rely: "backed k t m \<Longrightarrow> rely t k k' \<Longrightarrow> backed k' t m"
  unfolding backed_def rely_def by metis

lemma rely_trans: "rely t k k' \<Longrightarrow> rely t k' k'' \<Longrightarrow> rely t k k''"
  using backed_rely [of k t _ k'] unfolding rely_def by metis

lemma stable_backed: "rely_stable t (\<lambda>k. backed k t m)"
  by (auto simp: rely_stable_def intro: backed_rely)

lemma backed_exclusive:
  assumes "kernel_ok P k" "backed k t LOCK_EX" "backed k t' m"
  shows "t' = t"
proof (rule ccontr)
  assume "t' \<noteq> t"
  then show False using assms unfolding kernel_ok_def locks_ok_def backed_def by fastforce
qed

lemma good_now: "good P t A Q p k \<Longrightarrow> A k"
  by (cases p) auto

lemma good_rely:
  assumes "rely_stable t A" "\<And>x. rely_stable t (Q x)" "good P t A Q p k" "rely t k k'"
  shows "good P t A Q p k'"
proof (cases p)
  case (Return x)
  then show ?thesis using assms unfolding rely_stable_def by auto
next
  case (Sys c f)
  have "A k'" using assms(1) good_now [OF assms(3)] assms(4) unfolding rely_stable_def by blast
  moreover have "kernel_ok P k2 \<and> (\<forall>t'. t' \<noteq> t \<longrightarrow> rely t' k1 k2) \<and> good P t A Q (f r) k2"
    if "rely t k' k1 \<and> kernel_ok P k1 \<and> allowed k1 t c r k2" for k1 r k2
    using assms(3) rely_trans [OF assms(4)] that unfolding Sys good.simps by blast
  ultimately show ?thesis unfolding Sys good.simps by blast
qed

lemma good_Sys:
  "good P t A Q (Sys c f) k \<longleftrightarrow> A k \<and> (\<forall>k1 r k2. rely t k k1 \<longrightarrow> kernel_ok P k1 \<longrightarrow> allowed k1 t c r k2 \<longrightarrow>
     kernel_ok P k2 \<and> (\<forall>t'. t' \<noteq> t \<longrightarrow> rely t' k1 k2) \<and> good P t A Q (f r) k2)"
  unfolding good.simps by blast

declare good.simps(2) [simp del]

lemma good_SysD:
  assumes "good P t A Q (Sys c f) k" "rely t k k1" "kernel_ok P k1" "allowed k1 t c r k2"
  shows "kernel_ok P k2" "t' \<noteq> t \<Longrightarrow> rely t' k1 k2" "good P t A Q (f r) k2"
  using assms unfolding good_Sys by blast+

lemma good_SysI:
  assumes "A k"
    and "\<And>k1 r k2. rely t k k1 \<Longrightarrow> kernel_ok P k1 \<Longrightarrow> allowed k1 t c r k2 \<Longrightarrow>
      kernel_ok P k2 \<and> (\<forall>t'. t' \<noteq> t \<longrightarrow> rely t' k1 k2) \<and> good P t A Q (f r) k2"
  shows "good P t A Q (Sys c f) k"
  unfolding good_Sys using assms by blast

lemma good_bind:
  assumes "good P t A R p k" "\<And>x k. A k \<Longrightarrow> R x k \<Longrightarrow> good P t A Q (g x) k"
  shows "good P t A Q (bind_prog p g) k"
  using assms(1)
proof (induction p arbitrary: k)
  case (Return x)
  then show ?case using assms(2) by simp
next
  case (Sys c f)
  show ?case unfolding bind_prog.simps
  proof (rule good_SysI)
    show "A k" by (rule good_now [OF Sys.prems])
    show "kernel_ok P k2 \<and> (\<forall>t'. t' \<noteq> t \<longrightarrow> rely t' k1 k2) \<and> good P t A Q (bind_prog (f r) g) k2"
      if "rely t k k1" "kernel_ok P k1" "allowed k1 t c r k2" for k1 r k2
      using good_SysD [OF Sys.prems that] Sys.IH [OF rangeI] by blast
  qed
qed

lemma good_mono:
  assumes "good P t A R p k" "\<And>x k. A k \<Longrightarrow> R x k \<Longrightarrow> Q x k"
  shows "good P t A Q p k"
  using assms(1)
proof (induction p arbitrary: k)
  case (Return x)
  then show ?case using assms(2) by simp
next
  case (Sys c f)
  show ?case
  proof (rule good_SysI)
    show "A k" by (rule good_now [OF Sys.prems])
    show "kernel_ok P k2 \<and> (\<forall>t'. t' \<noteq> t \<longrightarrow> rely t' k1 k2) \<and> good P t A Q (f r) k2"
      if "rely t k k1" "kernel_ok P k1" "allowed k1 t c r k2" for k1 r k2
      using good_SysD [OF Sys.prems that] Sys.IH [OF rangeI] by blast
  qed
qed

section \<open>What the calls leave to the others\<close>

lemma allowed_open: "allowed k t COpen r k' \<longleftrightarrow> (r = Interrupted \<or> r = Failed) \<and> k' = k
  \<or> r = Done \<and> k_ofd k t = None \<and> (case k_path k of
     Some n \<Rightarrow> k' = set_ofd k t (Some \<lparr> f_ino = n, f_lock = None \<rparr>)
   | None \<Rightarrow> (\<exists>n next. fresh_ino k n \<and> k' = (set_ofd k t (Some \<lparr> f_ino = n, f_lock = None \<rparr>))
       \<lparr> k_path := Some n, k_data := (k_data k)(n := []), k_next := next \<rparr>))"
  by (cases r) auto

lemma allowed_open_existing: "allowed k t COpenExisting r k' \<longleftrightarrow> (r = Interrupted \<or> r = Failed \<or> r = NotFound \<and> k_path k = None) \<and> k' = k
  \<or> r = Done \<and> k_ofd k t = None \<and> (\<exists>n. k_path k = Some n \<and> k' = set_ofd k t (Some \<lparr> f_ino = n, f_lock = None \<rparr>))"
  by (cases r) auto

lemma allowed_flock: "allowed k t (CFlock m) r k' \<longleftrightarrow> (r = Interrupted \<or> r = Failed) \<and> k' = k
  \<or> (\<exists>f. k_ofd k t = Some f \<and> (r = Done \<and> unlocked_for k t (f_ino f) m \<and> k' = set_ofd k t (Some (f\<lparr> f_lock := Some m \<rparr>))
      \<or> r = WouldBlock \<and> \<not> unlocked_for k t (f_ino f) m \<and> (k' = k \<or> k' = set_ofd k t (Some (f\<lparr> f_lock := None \<rparr>)))))"
  by (cases r) auto

lemma allowed_unlock: "allowed k t CUnlock r k' \<longleftrightarrow> r = Failed \<and> k' = k
  \<or> r = Done \<and> (\<exists>f. k_ofd k t = Some f \<and> k' = set_ofd k t (Some (f\<lparr> f_lock := None \<rparr>)))"
  by (cases r) auto

lemma allowed_close: "allowed k t CClose r k' \<longleftrightarrow> r = Done \<and> k' = set_ofd k t None"
  by (cases r) auto

lemma allowed_fstat: "allowed k t CFstat r k' \<longleftrightarrow> k' = k \<and> (r = Failed \<or> (\<exists>f. k_ofd k t = Some f \<and> r = RIno (f_ino f)))"
  by (cases r) auto

lemma allowed_stat: "allowed k t CStat r k' \<longleftrightarrow> k' = k \<and> (r = Failed
  \<or> r = NotFound \<and> k_path k = None \<or> (\<exists>n. k_path k = Some n \<and> r = RIno n))"
  by (cases r) auto

lemma allowed_unlink: "allowed k t CUnlink r k' \<longleftrightarrow> (r = Failed \<or> r = NotFound \<and> k_path k = None) \<and> k' = k
  \<or> r = Done \<and> k_path k \<noteq> None \<and> k' = k\<lparr> k_path := None \<rparr>"
  by (cases r) auto

lemma allowed_set_len: "allowed k t CSetLen0 r k' \<longleftrightarrow> (r = Interrupted \<or> r = Failed) \<and> k' = k
  \<or> r = Done \<and> (\<exists>f. k_ofd k t = Some f \<and> k' = k\<lparr> k_data := (k_data k)(f_ino f := []) \<rparr>)"
  by (cases r) auto

lemma allowed_pwrite: "allowed k t (CPwrite off bs) r k' \<longleftrightarrow> (r = Interrupted \<or> r = Failed) \<and> k' = k
  \<or> (\<exists>n f. r = Wrote n \<and> k_ofd k t = Some f \<and> n \<le> length bs
     \<and> k' = k\<lparr> k_data := (k_data k)(f_ino f := overwrite off (take n bs) (k_data k (f_ino f))) \<rparr>)"
  by (cases r) auto

lemmas allowed_iff = allowed_open allowed_open_existing allowed_flock allowed_unlock allowed_close
  allowed_fstat allowed_stat allowed_unlink allowed_set_len allowed_pwrite

declare allowed.simps [simp del]

lemma locks_ok_set:
  assumes "locks_ok k" "\<And>g. f = Some g \<Longrightarrow> f_lock g = None \<or> (\<exists>m. f_lock g = Some m \<and> unlocked_for k t (f_ino g) m)"
  shows "locks_ok (set_ofd k t f)"
  unfolding locks_ok_def
proof (intro allI impI, elim conjE)
  fix a b x y
  assume h: "a \<noteq> b" "k_ofd (set_ofd k t f) a = Some x" "k_ofd (set_ofd k t f) b = Some y" "f_ino x = f_ino y"
  consider "a = t" | "b = t" | "a \<noteq> t" "b \<noteq> t" by blast
  then show "compatible (f_lock x) (f_lock y)"
  proof cases
    case 1
    then have "f = Some x" "k_ofd k b = Some y" using h by auto
    with assms(2) h 1 show ?thesis unfolding unlocked_for_def by (cases "f_lock x") (auto simp: compatible_sym)
  next
    case 2
    then have "f = Some y" "k_ofd k a = Some x" using h by auto
    with assms(2) h 2 show ?thesis unfolding unlocked_for_def by (cases "f_lock y") (auto simp: compatible_sym)
  next
    case 3
    then show ?thesis using h assms(1) unfolding locks_ok_def by (auto split: if_splits)
  qed
qed

lemma locks_ok_other [simp]: "locks_ok (k\<lparr> k_path := x \<rparr>) = locks_ok k" "locks_ok (k\<lparr> k_data := d \<rparr>) = locks_ok k"
  "locks_ok (k\<lparr> k_next := n \<rparr>) = locks_ok k"
  by (simp_all add: locks_ok_def)

lemma data_ok_other [simp]: "data_ok P (k\<lparr> k_path := x \<rparr>) = data_ok P k" "data_ok P (k\<lparr> k_ofd := d \<rparr>) = data_ok P k"
  "data_ok P (k\<lparr> k_next := n \<rparr>) = data_ok P k"
  by (simp_all add: data_ok_def)

lemma data_ok_write:
  "data_ok P k \<Longrightarrow> d = [] \<or> (\<exists>p\<in>P. prefix d p) \<Longrightarrow> data_ok P (k\<lparr> k_data := (k_data k)(n := d) \<rparr>)"
  by (auto simp: data_ok_def)

lemma rely_set_ofd: "t' \<noteq> t \<Longrightarrow> rely t' k (set_ofd k t f)"
  by (simp add: rely_def)

text \<open>Every call but the three that write to the file or its name.\<close>

definition quiet :: "call \<Rightarrow> bool" where
  "quiet c \<longleftrightarrow> c \<in> {COpen, COpenExisting, CUnlock, CClose, CFstat, CStat} \<or> (\<exists>m. c = CFlock m)"

lemma allowed_quiet:
  assumes "kernel_ok P k" "allowed k t c r k'" "quiet c"
  shows "kernel_ok P k' \<and> (\<forall>t'. t' \<noteq> t \<longrightarrow> rely t' k k')"
proof -
  have l: "locks_ok k" and d: "data_ok P k" using assms(1) by (auto simp: kernel_ok_def)
  have set_ok: "kernel_ok P (set_ofd k t f) \<and> (\<forall>t'. t' \<noteq> t \<longrightarrow> rely t' k (set_ofd k t f))"
    if "\<And>g. f = Some g \<Longrightarrow> f_lock g = None \<or> (\<exists>m. f_lock g = Some m \<and> unlocked_for k t (f_ino g) m)" for f
    using locks_ok_set [OF l that] d rely_set_ofd by (simp add: kernel_ok_def)
  have free: "kernel_ok P (set_ofd k t (Some f)) \<and> (\<forall>t'. t' \<noteq> t \<longrightarrow> rely t' k (set_ofd k t (Some f)))"
    if "f_lock f = None" for f by (rule set_ok) (use that in simp)
  have locked: "kernel_ok P (set_ofd k t (Some f)) \<and> (\<forall>t'. t' \<noteq> t \<longrightarrow> rely t' k (set_ofd k t (Some f)))"
    if "f_lock f = Some m" "unlocked_for k t (f_ino f) m" for f m by (rule set_ok) (use that in auto)
  have created: "kernel_ok P k' \<and> (\<forall>t'. t' \<noteq> t \<longrightarrow> rely t' k k')"
    if "k_path k = None" "k' = (set_ofd k t (Some \<lparr> f_ino = n, f_lock = None \<rparr>))
       \<lparr> k_path := Some n, k_data := (k_data k)(n := []), k_next := next \<rparr>" for n "next"
  proof
    have "locks_ok (set_ofd k t (Some \<lparr> f_ino = n, f_lock = None \<rparr>))" by (rule locks_ok_set [OF l]) auto
    moreover have "data_ok P k'" using d that(2) by (auto simp: data_ok_def)
    ultimately show "kernel_ok P k'" using that(2) unfolding kernel_ok_def locks_ok_def by simp
    show "\<forall>t'. t' \<noteq> t \<longrightarrow> rely t' k k'" using that by (auto simp: rely_def backed_def)
  qed
  show ?thesis
  proof (cases c)
    case COpen
    then consider "k' = k" | n where "k_path k = Some n" "k' = set_ofd k t (Some \<lparr> f_ino = n, f_lock = None \<rparr>)"
      | n "next" where "k_path k = None" "k' = (set_ofd k t (Some \<lparr> f_ino = n, f_lock = None \<rparr>))
          \<lparr> k_path := Some n, k_data := (k_data k)(n := []), k_next := next \<rparr>"
      using assms(2) by (auto simp: allowed_iff split: option.splits)
    then show ?thesis
    proof cases
      case 1
      then show ?thesis using assms(1) by simp
    next
      case 2
      then show ?thesis using free by simp
    next
      case 3
      then show ?thesis by (rule created)
    qed
  next
    case COpenExisting
    then show ?thesis using assms(1,2) free by (auto simp: allowed_iff)
  next
    case (CFlock m)
    then show ?thesis using assms(1,2) free locked [of _ m] by (auto simp: allowed_iff)
  next
    case CUnlock
    then show ?thesis using assms(1,2) free by (auto simp: allowed_iff)
  next
    case CClose
    then show ?thesis using assms(1,2) set_ok [of None] by (simp add: allowed_iff)
  qed (use assms in \<open>auto simp: allowed_iff quiet_def\<close>)
qed

lemma other_not_backed:
  assumes "kernel_ok P k" "backed k t LOCK_EX" "t' \<noteq> t"
  shows "\<not> backed k t' m"
  using backed_exclusive [OF assms(1,2)] assms(3) by blast

lemma rely_by_owner:
  assumes "kernel_ok P k" "backed k t LOCK_EX" "k_ofd k' = k_ofd k"
  shows "\<forall>t'. t' \<noteq> t \<longrightarrow> rely t' k k'"
  using other_not_backed [OF assms(1,2)] assms(3) by (simp add: rely_def)

lemma allowed_unlink_owner:
  assumes "kernel_ok P k" "backed k t LOCK_EX" "allowed k t CUnlink r k'"
  shows "kernel_ok P k' \<and> (\<forall>t'. t' \<noteq> t \<longrightarrow> rely t' k k')"
  using rely_by_owner [OF assms(1,2), of k'] assms(1,3) by (auto simp: allowed_iff kernel_ok_def)

lemma allowed_set_len_owner:
  assumes "kernel_ok P k" "backed k t LOCK_EX" "allowed k t CSetLen0 r k'"
  shows "kernel_ok P k' \<and> (\<forall>t'. t' \<noteq> t \<longrightarrow> rely t' k k')"
  using rely_by_owner [OF assms(1,2), of k'] assms(1,3) by (auto simp: allowed_iff kernel_ok_def intro: data_ok_write)

definition owned_data :: "Kernel \<Rightarrow> nat \<Rightarrow> rstr \<Rightarrow> bool" where
  "owned_data k t d \<longleftrightarrow> (\<exists>f. k_ofd k t = Some f \<and> k_data k (f_ino f) = d)"

lemma owned_data_rely: "owned_data k t d \<Longrightarrow> backed k t LOCK_EX \<Longrightarrow> rely t k k' \<Longrightarrow> owned_data k' t d"
  unfolding owned_data_def rely_def backed_def by fastforce

lemma overwrite_end [simp]: "overwrite (length d) bs d = d @ bs"
  by (simp add: overwrite_def)

lemma allowed_pwrite_owner:
  assumes "kernel_ok P k" "backed k t LOCK_EX" "allowed k t (CPwrite (length d) bs) (Wrote n) k'"
    and "owned_data k t d" "d @ bs \<in> P"
  shows "kernel_ok P k' \<and> (\<forall>t'. t' \<noteq> t \<longrightarrow> rely t' k k') \<and> backed k' t LOCK_EX
    \<and> owned_data k' t (d @ take n bs) \<and> n \<le> length bs"
proof -
  obtain f where f: "k_ofd k t = Some f" "n \<le> length bs"
    "k' = k\<lparr> k_data := (k_data k)(f_ino f := d @ take n bs) \<rparr>"
    using assms(3,4) by (auto simp: allowed_iff owned_data_def)
  have "prefix (d @ take n bs) (d @ bs)" by (simp add: take_is_prefix)
  then have "\<exists>p\<in>P. prefix (d @ take n bs) p" using assms(5) by blast
  then have "data_ok P k'" unfolding f(3) using assms(1) by (intro data_ok_write disjI2) (auto simp: kernel_ok_def)
  then have "kernel_ok P k'" using assms(1) f(3) by (auto simp: kernel_ok_def)
  moreover have "backed k' t LOCK_EX" using assms(2) f(3) by (simp add: backed_def)
  ultimately show ?thesis using rely_by_owner [OF assms(1,2), of k'] f by (auto simp: owned_data_def)
qed

section \<open>The operations keep the protocol\<close>

lemma good_quiet:
  assumes "quiet c" "A k"
    and "\<And>k1 r k2. rely t k k1 \<Longrightarrow> kernel_ok P k1 \<Longrightarrow> allowed k1 t c r k2 \<Longrightarrow> good P t A Q (f r) k2"
  shows "good P t A Q (Sys c f) k"
proof (rule good_SysI)
  show "kernel_ok P k2 \<and> (\<forall>t'. t' \<noteq> t \<longrightarrow> rely t' k1 k2) \<and> good P t A Q (f r) k2"
    if "rely t k k1" "kernel_ok P k1" "allowed k1 t c r k2" for k1 r k2
    using allowed_quiet [OF that(2,3) assms(1)] assms(3) [OF that] by blast
qed (rule assms(2))

lemma quiet_calls [simp]: "quiet COpen" "quiet COpenExisting" "quiet (CFlock m)" "quiet CUnlock" "quiet CClose"
  "quiet CFstat" "quiet CStat"
  by (auto simp: quiet_def)

text \<open>The description of the instance exists exactly when the state says so.\<close>

abbreviation fd_ok :: "nat \<Rightarrow> FdState \<Rightarrow> Kernel \<Rightarrow> bool" where
  "fd_ok t st k \<equiv> fd_file st = (k_ofd k t \<noteq> None)"

abbreviation anytime :: "Kernel \<Rightarrow> bool" where "anytime \<equiv> \<lambda>_. True"

definition locked_as :: "Kernel \<Rightarrow> nat \<Rightarrow> lock_mode \<Rightarrow> bool" where
  "locked_as k t m \<longleftrightarrow> (\<exists>f. k_ofd k t = Some f \<and> f_lock f = Some m)"

lemma rely_ofd: "rely t k k' \<Longrightarrow> k_ofd k' t = k_ofd k t"
  by (simp add: rely_def)

lemma ensure_open_good:
  assumes "fd_ok t st k"
  shows "good P t anytime (\<lambda>(st', r) k. fd_ok t st' k \<and> st' = st\<lparr> fd_file := fd_file st' \<rparr> \<and> (r = Ok () \<longrightarrow> fd_file st'))
    (ensure_open st) k"
proof (cases "fd_file st")
  case True
  then show ?thesis using assms by (simp add: ensure_open_def)
next
  case False
  have "good P t anytime (\<lambda>(st', r) k. fd_ok t st' k \<and> st' = st\<lparr> fd_file := fd_file st' \<rparr> \<and> (r = Ok () \<longrightarrow> fd_file st'))
    (Sys COpen (\<lambda>r. if r = Done then Return (st\<lparr> fd_file := True \<rparr>, Ok ()) else Return (st, Err OpenFailed))) k"
  proof (rule good_quiet)
    fix k1 r k2
    assume h: "rely t k k1" "allowed k1 t COpen r k2"
    then have "k_ofd k1 t = None" using False assms rely_ofd by fastforce
    then have "k_ofd k2 t = None \<longleftrightarrow> r \<noteq> Done" using h(2) by (auto simp: allowed_iff split: option.splits)
    then show "good P t anytime (\<lambda>(st', r) k. fd_ok t st' k \<and> st' = st\<lparr> fd_file := fd_file st' \<rparr> \<and> (r = Ok () \<longrightarrow> fd_file st'))
      (if r = Done then Return (st\<lparr> fd_file := True \<rparr>, Ok ()) else Return (st, Err OpenFailed)) k2"
      using False by (cases "r = Done") auto
  qed simp_all
  then show ?thesis using False by (simp add: ensure_open_def)
qed

lemma flock_nb_good:
  assumes "k_ofd k t \<noteq> None"
  shows "good P t anytime (\<lambda>r k. k_ofd k t \<noteq> None \<and> (r = Ok True \<longrightarrow> locked_as k t op)) (flock_nb op) k"
  unfolding flock_nb_def
proof (rule good_quiet)
  fix k1 r k2
  assume h: "rely t k k1" "allowed k1 t (CFlock op) r k2"
  have "k_ofd k1 t \<noteq> None" using h(1) assms by (simp add: rely_ofd)
  then have "k_ofd k2 t \<noteq> None \<and> (r = Done \<longrightarrow> locked_as k2 t op)"
    using h(2) by (auto simp: allowed_iff locked_as_def)
  then show "good P t anytime (\<lambda>r k. k_ofd k t \<noteq> None \<and> (r = Ok True \<longrightarrow> locked_as k t op))
    (case r of Done \<Rightarrow> Return (Ok True) | WouldBlock \<Rightarrow> Return (Ok False) | _ \<Rightarrow> Return (Err FlockFailed)) k2"
    by (cases r) auto
qed simp_all

lemma fd_matches_path_good:
  assumes "locked_as k t op" "fd_file st"
  shows "good P t anytime (\<lambda>r k. locked_as k t op \<and> (r = Ok True \<longrightarrow> backed k t op)) (fd_matches_path st) k"
proof -
  have stat: "good P t anytime (\<lambda>r k. locked_as k t op \<and> (r = Ok True \<longrightarrow> backed k t op))
    (Sys CStat (\<lambda>r. case r of RIno path_ino \<Rightarrow> Return (Ok (path_ino = f_ino f)) | NotFound \<Rightarrow> Return (Ok False)
      | _ \<Rightarrow> Return (Err StatFailed))) k1"
    if "k_ofd k1 t = Some f" "f_lock f = Some op" for k1 f
  proof (rule good_quiet)
    fix k2 r k3
    assume h: "rely t k1 k2" "allowed k2 t CStat r k3"
    then have "k_ofd k3 t = Some f" "k3 = k2" using that by (auto simp: rely_ofd allowed_iff)
    then show "good P t anytime (\<lambda>r k. locked_as k t op \<and> (r = Ok True \<longrightarrow> backed k t op))
      (case r of RIno path_ino \<Rightarrow> Return (Ok (path_ino = f_ino f)) | NotFound \<Rightarrow> Return (Ok False)
        | _ \<Rightarrow> Return (Err StatFailed)) k3"
      using that h(2) by (cases r) (auto simp: locked_as_def backed_def allowed_iff)
  qed simp_all
  obtain f where f: "k_ofd k t = Some f" "f_lock f = Some op" using assms(1) by (auto simp: locked_as_def)
  show ?thesis unfolding fd_matches_path_def
  proof (simp only: assms(2) not_True_eq_False if_False, rule good_quiet)
    fix k1 r k2
    assume h: "rely t k k1" "allowed k1 t CFstat r k2"
    then have k2: "k_ofd k2 t = Some f" and r: "r = Failed \<or> r = RIno (f_ino f)"
      using f by (auto simp: rely_ofd allowed_iff)
    show "good P t anytime (\<lambda>r k. locked_as k t op \<and> (r = Ok True \<longrightarrow> backed k t op))
      (case r of RIno fd_ino \<Rightarrow> Sys CStat (\<lambda>r. case r of RIno path_ino \<Rightarrow> Return (Ok (path_ino = fd_ino))
          | NotFound \<Rightarrow> Return (Ok False) | _ \<Rightarrow> Return (Err StatFailed)) | _ \<Rightarrow> Return (Err FstatFailed)) k2"
      using r
    proof
      assume "r = Failed"
      then show ?thesis using k2 f(2) by (simp add: locked_as_def)
    next
      assume "r = RIno (f_ino f)"
      then show ?thesis using stat [OF k2 f(2)] by (simp only: ret.case)
    qed
  qed simp_all
qed

lemma close_good:
  assumes "\<And>k. k_ofd k t = None \<Longrightarrow> good P t anytime Q p k"
  shows "good P t anytime Q (Sys CClose (\<lambda>_. p)) k"
  by (rule good_quiet) (use assms in \<open>auto simp: allowed_iff\<close>)

lemma unlock_good:
  assumes "\<And>k. good P t anytime Q p k"
  shows "good P t anytime Q (Sys CUnlock (\<lambda>_. p)) k"
  by (rule good_quiet) (use assms in simp_all)

lemma discard_fd_good:
  assumes "fd_ok t st k"
  shows "good P t anytime (\<lambda>st' k. st' = st\<lparr> fd_file := False \<rparr> \<and> k_ofd k t = None) (discard_fd st) k"
proof (cases "fd_file st")
  case True
  show ?thesis unfolding discard_fd_def if_P [OF True] by (rule unlock_good, rule close_good) simp
next
  case False
  then show ?thesis using assms by (simp add: discard_fd_def)
qed

text \<open>What an attempt leaves: guards are counted by the caller, so it changes none of the counts.\<close>

definition attempted :: "nat \<Rightarrow> lock_mode \<Rightarrow> FdState \<Rightarrow> FdState \<times> (io_error + bool) \<Rightarrow> Kernel \<Rightarrow> bool" where
  "attempted t op st = (\<lambda>(st', r) k. fd_ok t st' k \<and> fd_readers st' = fd_readers st \<and> fd_writer st' = fd_writer st
     \<and> (r = Ok True \<longrightarrow> backed k t op))"

lemma fresh_loop_good: "fd_ok t st k \<Longrightarrow> good P t anytime (attempted t op st) (fresh_loop op n st) k"
proof (induction n arbitrary: st k)
  case 0
  then show ?case by (simp add: attempted_def)
next
  case (Suc n)
  have matched: "good P t anytime (attempted t op st) (case m of Err e \<Rightarrow> Return (st1, Err e)
      | Ok m \<Rightarrow> if m then Return (st1\<lparr> fd_stale_warned := False \<rparr>, Ok True) else bind_prog (discard_fd st1) (fresh_loop op n)) k"
    if "locked_as k t op \<and> (m = Ok True \<longrightarrow> backed k t op)" "fd_file st1" "st1 = st\<lparr> fd_file := True \<rparr>" for m and k :: Kernel and st1
  proof -
    have ok: "fd_ok t st1 k" using that by (auto simp: locked_as_def)
    have "good P t anytime (attempted t op st) (bind_prog (discard_fd st1) (fresh_loop op n)) k"
    proof (rule good_bind [OF discard_fd_good [OF ok]])
      fix st2 and k :: Kernel
      assume h: "st2 = st1\<lparr> fd_file := False \<rparr> \<and> k_ofd k t = None"
      have "attempted t op st2 = attempted t op st" using h that(3) by (simp add: attempted_def)
      then show "good P t anytime (attempted t op st) (fresh_loop op n st2) k" using Suc.IH [of st2 k] h by simp
    qed
    then show ?thesis using that ok by (cases m) (auto simp: attempted_def locked_as_def)
  qed
  have locked: "good P t anytime (attempted t op st) (case l of Err e \<Rightarrow> Return (st1, Err e)
      | Ok l \<Rightarrow> if \<not> l then Sys CClose (\<lambda>_. Return (st1\<lparr> fd_file := False \<rparr>, Ok False))
          else bind_prog (fd_matches_path st1) (\<lambda>matches. case matches of
               Err e \<Rightarrow> Return (st1, Err e)
             | Ok m \<Rightarrow> if m then Return (st1\<lparr> fd_stale_warned := False \<rparr>, Ok True)
                 else bind_prog (discard_fd st1) (fresh_loop op n))) k"
    if "k_ofd k t \<noteq> None \<and> (l = Ok True \<longrightarrow> locked_as k t op)" "fd_file st1" "st1 = st\<lparr> fd_file := True \<rparr>" for l and k :: Kernel and st1
  proof -
    consider e where "l = Err e" | "l = Ok False" | "l = Ok True" by (cases l) auto
    then show ?thesis
    proof cases
      case 1
      then show ?thesis using that by (auto simp: attempted_def)
    next
      case 2
      have "good P t anytime (attempted t op st) (Sys CClose (\<lambda>_. Return (st1\<lparr> fd_file := False \<rparr>, Ok False))) k"
        by (rule close_good) (simp add: attempted_def that(3))
      then show ?thesis using 2 by simp
    next
      case 3
      then have la: "locked_as k t op" using that(1) by blast
      have "good P t anytime (attempted t op st) (bind_prog (fd_matches_path st1) (\<lambda>matches. case matches of
               Err e \<Rightarrow> Return (st1, Err e)
             | Ok m \<Rightarrow> if m then Return (st1\<lparr> fd_stale_warned := False \<rparr>, Ok True)
                 else bind_prog (discard_fd st1) (fresh_loop op n))) k"
        by (rule good_bind [OF fd_matches_path_good [OF la that(2)]]) (rule matched [OF _ that(2,3)])
      then show ?thesis using 3 by simp
    qed
  qed
  show ?case unfolding fresh_loop.simps
  proof (rule good_bind [OF ensure_open_good [OF Suc.prems]])
    fix x :: "FdState \<times> (io_error + unit)" and k :: Kernel
    assume h: "(case x of (st', r) \<Rightarrow> \<lambda>k. fd_ok t st' k \<and> st' = st\<lparr> fd_file := fd_file st' \<rparr> \<and> (r = Ok () \<longrightarrow> fd_file st')) k"
    obtain st1 r where x: "x = (st1, r)" by (cases x)
    have st1: "fd_ok t st1 k" "st1 = st\<lparr> fd_file := fd_file st1 \<rparr>" "r = Ok () \<Longrightarrow> fd_file st1" using h x by auto
    show "good P t anytime (attempted t op st) (case x of (st, opened) \<Rightarrow> (case opened of
     Err e \<Rightarrow> Return (st, Err e)
   | Ok _ \<Rightarrow> bind_prog (flock_nb op) (\<lambda>locked. case locked of
         Err e \<Rightarrow> Return (st, Err e)
       | Ok l \<Rightarrow> if \<not> l then Sys CClose (\<lambda>_. Return (st\<lparr> fd_file := False \<rparr>, Ok False))
           else bind_prog (fd_matches_path st) (\<lambda>matches. case matches of
               Err e \<Rightarrow> Return (st, Err e)
             | Ok m \<Rightarrow> if m then Return (st\<lparr> fd_stale_warned := False \<rparr>, Ok True)
                 else bind_prog (discard_fd st) (fresh_loop op n))))) k"
    proof (cases r)
      case (Inl e)
      have "fd_readers st1 = fd_readers (st\<lparr> fd_file := fd_file st1 \<rparr>)" by (rule arg_cong [OF st1(2)])
      moreover have "fd_writer st1 = fd_writer (st\<lparr> fd_file := fd_file st1 \<rparr>)" by (rule arg_cong [OF st1(2)])
      ultimately have "attempted t op st (st1, Err e) k" using st1(1) by (simp add: attempted_def)
      then show ?thesis using Inl x by simp
    next
      case (Inr y)
      then have f: "fd_file st1" using st1(3) by simp
      have f2: "st1 = st\<lparr> fd_file := True \<rparr>" by (subst st1(2)) (simp add: f)
      have f3: "k_ofd k t \<noteq> None" using st1(1) f by simp
      show ?thesis unfolding x Inr prod.case sum.case
        by (rule good_bind [OF flock_nb_good [OF f3]]) (rule locked [OF _ f f2])
    qed
  qed
qed

text \<open>The counts of an instance agree with the guards that exist, and a guard is backed by a lock
  on the inode the path names.\<close>

definition guarded :: "nat \<Rightarrow> nat \<Rightarrow> nat \<Rightarrow> Kernel \<Rightarrow> bool" where
  "guarded t r w k \<longleftrightarrow> (r > 0 \<longrightarrow> backed k t LOCK_SH) \<and> (w > 0 \<longrightarrow> backed k t LOCK_EX)"

definition inst_ok :: "nat \<Rightarrow> nat \<Rightarrow> nat \<Rightarrow> FdState \<Rightarrow> Kernel \<Rightarrow> bool" where
  "inst_ok t r w st k \<longleftrightarrow> fd_ok t st k \<and> fd_readers st = r \<and> fd_writer st = (w > 0) \<and> w \<le> 1 \<and> (w > 0 \<longrightarrow> r = 0) \<and> guarded t r w k"

definition op_post :: "nat \<Rightarrow> lock_op \<Rightarrow> nat \<Rightarrow> nat \<Rightarrow> FdState \<times> (io_error + bool) \<Rightarrow> Kernel \<Rightarrow> bool" where
  "op_post t op r w = (\<lambda>(st, res). inst_ok t (end_reads op res r) (end_writes op res w) st)"

lemma rely_stable_guarded: "rely_stable t (guarded t r w)"
  unfolding rely_stable_def guarded_def using backed_rely by blast

lemma rely_stable_inst: "rely_stable t (inst_ok t r w st)"
  using rely_stable_guarded [of t r w] unfolding rely_stable_def inst_ok_def using rely_ofd by metis

lemma rely_stable_post: "rely_stable t (op_post t op r w x)"
  using rely_stable_inst by (cases x) (simp add: op_post_def)

lemma guarded_none [simp]: "guarded t 0 0 = anytime"
  by (simp add: guarded_def fun_eq_iff)

lemma good_acquire:
  assumes "inst_ok t 0 0 st k"
    and "\<And>st' k. attempted t m st (st', Ok True) k \<Longrightarrow> Q (upd st', Ok True) k"
    and "\<And>st' k e. attempted t m st (st', Err e) k \<Longrightarrow> Q (st', Err e) k"
    and "\<And>st' k. attempted t m st (st', Ok False) k \<Longrightarrow> Q (st', Ok False) k"
  shows "good P t anytime Q (bind_prog (try_lock_fresh st m) (\<lambda>(st, locked). case locked of
         Err e \<Rightarrow> Return (st, Err e)
       | Ok l \<Rightarrow> if l then Return (upd st, Ok True) else Return (st, Ok False))) k"
  unfolding try_lock_fresh_def
proof (rule good_bind [OF fresh_loop_good])
  show "fd_ok t st k" using assms(1) by (simp add: inst_ok_def)
  fix x and k :: Kernel
  assume h: "attempted t m st x k"
  obtain st' r where x: "x = (st', r)" by (cases x)
  show "good P t anytime Q (case x of (st, locked) \<Rightarrow> (case locked of Err e \<Rightarrow> Return (st, Err e)
       | Ok l \<Rightarrow> if l then Return (upd st, Ok True) else Return (st, Ok False))) k"
    using h assms(2-4) unfolding x by (cases r) auto
qed

lemma try_acquire_read_good:
  assumes "inst_ok t r w st k"
  shows "good P t (guarded t r w) (op_post t AcquireRead r w) (try_acquire_read st) k"
proof -
  consider "fd_writer st" | "\<not> fd_writer st" "r > 0" | "\<not> fd_writer st" "r = 0" by blast
  then show ?thesis
  proof cases
    case 1
    then show ?thesis using assms by (auto simp: try_acquire_read_def op_post_def inst_ok_def)
  next
    case 2
    then show ?thesis using assms by (simp add: try_acquire_read_def op_post_def inst_ok_def guarded_def)
  next
    case 3
    then have z: "inst_ok t 0 0 st k" "fd_readers st = 0" "w = 0" using assms by (auto simp: inst_ok_def)
    have "good P t anytime (op_post t AcquireRead 0 0) (bind_prog (try_lock_fresh st LOCK_SH) (\<lambda>(st, locked). case locked of
         Err e \<Rightarrow> Return (st, Err e)
       | Ok l \<Rightarrow> if l then Return (st\<lparr> fd_readers := 1 \<rparr>, Ok True) else Return (st, Ok False))) k"
      using z(1) by (rule good_acquire) (use z 3 in \<open>auto simp: attempted_def op_post_def inst_ok_def guarded_def\<close>)
    then show ?thesis using z 3 by (simp add: try_acquire_read_def)
  qed
qed

lemma try_acquire_write_good:
  assumes "inst_ok t r w st k"
  shows "good P t (guarded t r w) (op_post t AcquireWrite r w) (try_acquire_write st) k"
proof (cases "fd_writer st \<or> r > 0")
  case True
  then show ?thesis using assms by (auto simp: try_acquire_write_def op_post_def inst_ok_def)
next
  case False
  then have z: "inst_ok t 0 0 st k" "fd_readers st = 0" "r = 0" "w = 0" "\<not> fd_writer st" using assms by (auto simp: inst_ok_def)
  have "good P t anytime (op_post t AcquireWrite 0 0) (bind_prog (try_lock_fresh st LOCK_EX) (\<lambda>(st, locked). case locked of
         Err e \<Rightarrow> Return (st, Err e)
       | Ok l \<Rightarrow> if l then Return (st\<lparr> fd_writer := True \<rparr>, Ok True) else Return (st, Ok False))) k"
    using z(1) by (rule good_acquire) (use z in \<open>auto simp: attempted_def op_post_def inst_ok_def guarded_def\<close>)
  then show ?thesis using z by (simp add: try_acquire_write_def)
qed

lemma maybe_close_good:
  assumes "fd_ok t st k" "fd_readers st = 0" "\<not> fd_writer st"
  shows "good P t anytime (\<lambda>st k. inst_ok t 0 0 st k) (maybe_close st) k"
  unfolding maybe_close_def using assms
  by (auto intro!: good_mono [OF discard_fd_good [OF assms(1)]] simp: inst_ok_def)

lemma release_read_good:
  assumes "inst_ok t r w st k" "r > 0"
  shows "good P t (guarded t (r - 1) w) (op_post t ReleaseRead (r - 1) w) (op_prog ReleaseRead st) k"
proof (cases "r = 1")
  case True
  have nw: "\<not> fd_writer st" using assms by (cases "fd_writer st") (auto simp: inst_ok_def)
  have "good P t anytime (op_post t ReleaseRead 0 0) (op_prog ReleaseRead st) k"
    unfolding op_prog.simps release_read_def
    by (rule good_bind [OF maybe_close_good]) (use assms True nw in \<open>auto simp: inst_ok_def op_post_def\<close>)
  moreover have "w = 0" using assms True nw by (simp add: inst_ok_def)
  ultimately show ?thesis using True by simp
next
  case False
  then show ?thesis using assms by (simp add: release_read_def maybe_close_def op_post_def inst_ok_def guarded_def)
qed

lemma release_write_good:
  assumes "inst_ok t r w st k" "w > 0"
  shows "good P t (guarded t r (w - 1)) (op_post t ReleaseWrite r (w - 1)) (op_prog ReleaseWrite st) k"
proof -
  have z: "r = 0" "w = 1" "fd_writer st" "fd_readers st = 0" "fd_file st" "backed k t LOCK_EX" "fd_ok t st k"
    using assms by (auto simp: inst_ok_def guarded_def backed_def)
  have "good P t anytime (inst_ok t 0 0) (release_write st) k"
    unfolding release_write_def Let_def
  proof (simp add: z(5), rule good_SysI)
    fix k1 ret k2
    assume h: "rely t k k1" "kernel_ok P k1" "allowed k1 t CUnlink ret k2"
    have "backed k1 t LOCK_EX" using z(6) h(1) by (rule backed_rely)
    note u = allowed_unlink_owner [OF h(2) this h(3)]
    have "k_ofd k2 t = k_ofd k t" using h(1,3) by (auto simp: rely_ofd allowed_iff)
    then have "good P t anytime (inst_ok t 0 0) (maybe_close (st\<lparr> fd_writer := False \<rparr>)) k2"
      using z by (intro maybe_close_good) auto
    then show "kernel_ok P k2 \<and> (\<forall>t'. t' \<noteq> t \<longrightarrow> rely t' k1 k2)
      \<and> good P t anytime (inst_ok t 0 0) (maybe_close (st\<lparr> fd_writer := False \<rparr>)) k2" using u by blast
  qed simp
  then have "good P t anytime (op_post t ReleaseWrite 0 0) (op_prog ReleaseWrite st) k"
    unfolding op_prog.simps by (rule good_bind) (simp add: op_post_def)
  then show ?thesis using z by simp
qed

lemma write_all_at_good:
  assumes "off = length d" "backed k t LOCK_EX" "owned_data k t d" "bs = [] \<or> d @ bs \<in> P"
  shows "good P t (\<lambda>k. backed k t LOCK_EX) (\<lambda>_ k. backed k t LOCK_EX) (write_all_at off bs) k"
  using assms
proof (induction off bs arbitrary: d k rule: write_all_at.induct)
  case (1 off bs)
  show ?case
  proof (cases "bs = []")
    case True
    then show ?thesis using 1 by (simp add: write_all_at.simps)
  next
    case False
    have "good P t (\<lambda>k. backed k t LOCK_EX) (\<lambda>_ k. backed k t LOCK_EX) (Sys (CPwrite off bs) (\<lambda>r. case r of
        Wrote n \<Rightarrow> if n = 0 then Return (Err WriteFailed) else write_all_at (off + n) (drop n bs)
      | _ \<Rightarrow> Return (Err WriteFailed))) k"
    proof (rule good_SysI)
      fix k1 r k2
      assume h: "rely t k k1" "kernel_ok P k1" "allowed k1 t (CPwrite off bs) r k2"
      have b: "backed k1 t LOCK_EX" and o: "owned_data k1 t d"
        using backed_rely owned_data_rely 1(3,4) h(1) by blast+
      consider "r = Interrupted \<or> r = Failed" "k2 = k1" | n where "r = Wrote n"
        using h(3) by (auto simp: allowed_iff)
      then show "kernel_ok P k2 \<and> (\<forall>t'. t' \<noteq> t \<longrightarrow> rely t' k1 k2) \<and> good P t (\<lambda>k. backed k t LOCK_EX) (\<lambda>_ k. backed k t LOCK_EX)
        (case r of Wrote n \<Rightarrow> if n = 0 then Return (Err WriteFailed) else write_all_at (off + n) (drop n bs)
          | _ \<Rightarrow> Return (Err WriteFailed)) k2"
      proof cases
        case 1
        then show ?thesis using h(2) b by auto
      next
        case (2 n)
        have w: "kernel_ok P k2" "\<forall>t'. t' \<noteq> t \<longrightarrow> rely t' k1 k2" "backed k2 t LOCK_EX" "owned_data k2 t (d @ take n bs)" "n \<le> length bs"
          using allowed_pwrite_owner [OF h(2) b _ o] h(3) False 1(2,5) 2 by auto
        have "good P t (\<lambda>k. backed k t LOCK_EX) (\<lambda>_ k. backed k t LOCK_EX) (write_all_at (off + n) (drop n bs)) k2" if "n \<noteq> 0"
          by (rule 1(1) [OF False that _ w(3,4)]) (use 1(2,5) w(5) False in auto)
        then show ?thesis using w 2 by (cases "n = 0") auto
      qed
    qed (rule 1(3))
    then show ?thesis using False by (subst write_all_at.simps) simp
  qed
qed

lemma write_contents_good:
  assumes "inst_ok t r w st k" "w > 0" "bs = [] \<or> bs \<in> P"
  shows "good P t (guarded t r w) (op_post t (WriteContents bs) r w) (op_prog (WriteContents bs) st) k"
proof -
  have z: "r = 0" "w = 1" "fd_writer st" "fd_readers st = 0" "fd_file st" "backed k t LOCK_EX"
    using assms by (auto simp: inst_ok_def guarded_def backed_def)
  have g: "guarded t r w = (\<lambda>k. backed k t LOCK_EX)" using z by (simp add: guarded_def fun_eq_iff)
  have "good P t (\<lambda>k. backed k t LOCK_EX) (\<lambda>_ k. backed k t LOCK_EX) (write_contents st bs) k"
    unfolding write_contents_def
  proof (simp add: z(5), rule good_SysI)
    fix k1 ret k2
    assume h: "rely t k k1" "kernel_ok P k1" "allowed k1 t CSetLen0 ret k2"
    have b: "backed k1 t LOCK_EX" using z(6) h(1) by (rule backed_rely)
    have b2: "backed k2 t LOCK_EX" using b h(3) by (auto simp: allowed_iff backed_def)
    have "owned_data k2 t []" if "ret = Done" using h(3) that by (auto simp: allowed_iff owned_data_def)
    then have "good P t (\<lambda>k. backed k t LOCK_EX) (\<lambda>_ k. backed k t LOCK_EX)
        (if ret = Done then write_all_at 0 bs else Return (Err SetLenFailed)) k2"
      using write_all_at_good [of 0 "[]" k2 t bs P] b2 assms(3) by auto
    then show "kernel_ok P k2 \<and> (\<forall>t'. t' \<noteq> t \<longrightarrow> rely t' k1 k2) \<and> good P t (\<lambda>k. backed k t LOCK_EX) (\<lambda>_ k. backed k t LOCK_EX)
        (if ret = Done then write_all_at 0 bs else Return (Err SetLenFailed)) k2"
      using allowed_set_len_owner [OF h(2) b h(3)] by blast
  qed (rule z(6))
  then show ?thesis unfolding op_prog.simps g
    by (rule good_bind) (use z in \<open>auto simp: op_post_def inst_ok_def guarded_def backed_def\<close>)
qed

lemma probe_good:
  assumes "k_ofd k t = None"
  shows "good P t anytime (\<lambda>_ k. k_ofd k t = None) (probe m) k"
  unfolding probe_def
proof (rule good_quiet)
  fix k1 r k2
  assume h: "rely t k k1" "allowed k1 t COpenExisting r k2"
  have closed: "good P t anytime (\<lambda>_ k. k_ofd k t = None) (case l of Err e \<Rightarrow> Sys CClose (\<lambda>_. Return (Err e))
       | Ok l \<Rightarrow> if l then Sys CUnlock (\<lambda>_. Sys CClose (\<lambda>_. Return (Ok False))) else Sys CClose (\<lambda>_. Return (Ok True))) k" for l k
  proof (cases l)
    case (Inl e)
    then show ?thesis by (simp add: close_good)
  next
    case (Inr b)
    then show ?thesis by (cases b) (simp_all add: close_good unlock_good)
  qed
  have "k_ofd k2 t = None \<longleftrightarrow> r \<noteq> Done" using h assms by (auto simp: allowed_iff rely_ofd)
  then show "good P t anytime (\<lambda>_ k. k_ofd k t = None) (case r of
     Done \<Rightarrow> bind_prog (flock_nb m) (\<lambda>locked. case locked of
         Err e \<Rightarrow> Sys CClose (\<lambda>_. Return (Err e))
       | Ok l \<Rightarrow> if l then Sys CUnlock (\<lambda>_. Sys CClose (\<lambda>_. Return (Ok False)))
           else Sys CClose (\<lambda>_. Return (Ok True)))
   | NotFound \<Rightarrow> Return (Ok False)
   | _ \<Rightarrow> Return (Err ProbeOpenFailed)) k2"
    by (cases r) (auto intro!: good_bind [OF flock_nb_good closed])
qed simp_all

lemma probe_op_good:
  assumes "inst_ok t r w st k" "\<not> fd_file st" "\<And>res r w. end_reads op res r = r \<and> end_writes op res w = w"
  shows "good P t (guarded t r w) (op_post t op r w) (bind_prog (probe m) (\<lambda>res. Return (st, res))) k"
proof -
  have z: "k_ofd k t = None" "r = 0" "w = 0" using assms(1,2) by (auto simp: inst_ok_def guarded_def backed_def)
  show ?thesis unfolding z guarded_none
    by (rule good_bind [OF probe_good [OF z(1)]]) (use assms z in \<open>auto simp: op_post_def inst_ok_def\<close>)
qed

lemma op_good:
  assumes "inst_ok t (i_reads i) (i_writes i) (i_st i) k" "can_begin P op i"
  shows "good P t (guarded t (begin_reads op (i_reads i)) (begin_writes op (i_writes i)))
    (op_post t op (begin_reads op (i_reads i)) (begin_writes op (i_writes i))) (op_prog op (i_st i)) k"
proof (cases op)
  case AcquireRead
  then show ?thesis using try_acquire_read_good [OF assms(1)] by simp
next
  case AcquireWrite
  then show ?thesis using try_acquire_write_good [OF assms(1)] by simp
next
  case ReleaseRead
  then show ?thesis using release_read_good [OF assms(1)] assms(2) by simp
next
  case ReleaseWrite
  then show ?thesis using release_write_good [OF assms(1)] assms(2) by simp
next
  case (WriteContents bs)
  then show ?thesis using write_contents_good [OF assms(1)] assms(2) by simp
next
  case ProbeHeld
  then show ?thesis using probe_op_good [OF assms(1), of ProbeHeld] assms(2) by (simp add: is_path_held_def)
next
  case ProbeLocked
  then show ?thesis using probe_op_good [OF assms(1), of ProbeLocked] assms(2) by (simp add: is_path_locked_def)
qed

section \<open>The invariant of the system\<close>

definition run_ok :: "rstr set \<Rightarrow> Kernel \<Rightarrow> nat \<Rightarrow> Inst \<Rightarrow> bool" where
  "run_ok P k t i \<longleftrightarrow> i_writes i \<le> 1 \<and> (case i_run i of
     None \<Rightarrow> inst_ok t (i_reads i) (i_writes i) (i_st i) k
   | Some (op, p) \<Rightarrow> good P t (guarded t (i_reads i) (i_writes i)) (op_post t op (i_reads i) (i_writes i)) p k)"

definition system_ok :: "rstr set \<Rightarrow> lock_system \<Rightarrow> bool" where
  "system_ok P = (\<lambda>(k, I). kernel_ok P k \<and> (\<forall>t. run_ok P k t (I t)))"

lemma run_ok_rely: "run_ok P k t i \<Longrightarrow> rely t k k' \<Longrightarrow> run_ok P k' t i"
  unfolding run_ok_def
  using rely_stable_inst good_rely [OF rely_stable_guarded rely_stable_post]
  by (auto simp: rely_stable_def split: option.splits)

lemma system_ok_upd:
  assumes "system_ok P (k, I)" "kernel_ok P k'" "\<forall>t'. t' \<noteq> t \<longrightarrow> rely t' k k'" "run_ok P k' t i"
  shows "system_ok P (k', I(t := i))"
proof -
  have "run_ok P k' t' (I t')" if "t' \<noteq> t" for t'
    by (rule run_ok_rely [of P k]) (use assms that in \<open>auto simp: system_ok_def\<close>)
  then show ?thesis using assms(2,4) by (simp add: system_ok_def)
qed

lemma system_okD: "system_ok P (k, I) \<Longrightarrow> kernel_ok P k" "system_ok P (k, I) \<Longrightarrow> run_ok P k t (I t)"
  by (simp_all add: system_ok_def)

lemma run_ok_idle: "run_ok P k t i \<Longrightarrow> i_run i = None \<Longrightarrow> inst_ok t (i_reads i) (i_writes i) (i_st i) k"
  "run_ok P k t i \<Longrightarrow> i_writes i \<le> 1"
  by (auto simp: run_ok_def)

lemma run_ok_running: "run_ok P k t i \<Longrightarrow> i_run i = Some (op, p) \<Longrightarrow>
    good P t (guarded t (i_reads i) (i_writes i)) (op_post t op (i_reads i) (i_writes i)) p k"
  by (simp add: run_ok_def)

lemma run_ok_new: "k_ofd k t = None \<Longrightarrow> run_ok P k t Inst_new"
  by (simp add: run_ok_def Inst_new_def FdState_new_def inst_ok_def)

lemma run_ok_guarded: "run_ok P k t i \<Longrightarrow> guarded t (i_reads i) (i_writes i) k"
  unfolding run_ok_def by (auto simp: inst_ok_def split: option.splits dest: good_now)

lemma system_ok_init: "lock_init P s \<Longrightarrow> system_ok P s"
  by (auto simp: lock_init_def system_ok_def kernel_ok_def locks_ok_def run_ok_new split: prod.splits)

lemma op_post_writes: "op_post t op r w (st, res) k \<Longrightarrow> end_writes op res w \<le> 1"
  by (simp add: op_post_def inst_ok_def)

lemma system_ok_step:
  assumes "os_laws os" "lock_step os P s s'" "system_ok P s"
  shows "system_ok P s'"
  using assms(2,3)
proof cases
  case (begins I t op k)
  have i: "inst_ok t (i_reads (I t)) (i_writes (I t)) (i_st (I t)) k" "i_writes (I t) \<le> 1"
    using run_ok_idle [OF system_okD(2)] assms(3) begins(1,3) by blast+
  have "begin_writes op (i_writes (I t)) \<le> 1" using i(2) by (cases op) auto
  then have "run_ok P k t ((I t)\<lparr> i_run := Some (op, op_prog op (i_st (I t))),
      i_reads := begin_reads op (i_reads (I t)), i_writes := begin_writes op (i_writes (I t)) \<rparr>)"
    using op_good [OF i(1) begins(4)] by (simp add: run_ok_def)
  then show ?thesis using assms(3) unfolding begins(1,2) by (intro system_ok_upd) (auto simp: system_ok_def)
next
  case (calls I t op c f k r k')
  have a: "allowed k t c r k'" using assms(1) calls(4) by (auto simp: os_laws_def)
  have k: "kernel_ok P k" using assms(3) calls(1) by (simp add: system_ok_def)
  have g: "good P t (guarded t (i_reads (I t)) (i_writes (I t))) (op_post t op (i_reads (I t)) (i_writes (I t))) (Sys c f) k" "i_writes (I t) \<le> 1"
    using run_ok_running [OF system_okD(2)] run_ok_idle(2) [OF system_okD(2)] assms(3) calls(1,3) by blast+
  note d = good_SysD [OF g(1) rely_refl k a]
  have "good P t (guarded t (i_reads (I t)) (i_writes (I t))) (op_post t op (i_reads (I t)) (i_writes (I t))) (resume c f r) k'"
  proof (cases "r = Interrupted")
    case True
    then have "k' = k" using a by (cases c) (auto simp: allowed.simps)
    then show ?thesis using True g(1) by (simp add: resume_def)
  next
    case False
    then show ?thesis using d(3) by (simp add: resume_def)
  qed
  then have "run_ok P k' t ((I t)\<lparr> i_run := Some (op, resume c f r) \<rparr>)" using g(2) by (simp add: run_ok_def)
  then show ?thesis using assms(3) d(1,2) unfolding calls(1,2) by (intro system_ok_upd) auto
next
  case (finishes I t op st res k)
  have "op_post t op (i_reads (I t)) (i_writes (I t)) (st, res) k"
    using run_ok_running [OF system_okD(2)] assms(3) finishes(1,3) by fastforce
  then have "run_ok P k t \<lparr> i_st = st, i_run = None, i_reads = end_reads op res (i_reads (I t)),
      i_writes = end_writes op res (i_writes (I t)) \<rparr>" by (simp add: run_ok_def op_post_def inst_ok_def)
  then show ?thesis using assms(3) unfolding finishes(1,2) by (intro system_ok_upd) (auto simp: system_ok_def)
next
  case (killed k I t)
  have "kernel_ok P (set_ofd k t None)"
    using assms(3) locks_ok_set [of k None t] unfolding killed(1) by (simp add: system_ok_def kernel_ok_def)
  then show ?thesis using assms(3) unfolding killed
    by (intro system_ok_upd) (auto simp: rely_set_ofd intro: run_ok_new)
qed

lemma reachable_system_ok: "os_laws os \<Longrightarrow> lock_reachable os P s \<Longrightarrow> system_ok P s"
proof -
  assume os: "os_laws os" and "lock_reachable os P s"
  then obtain s0 where s0: "lock_init P s0" "(lock_step os P)\<^sup>*\<^sup>* s0 s" by (auto simp: lock_reachable_def)
  from s0(2) show "system_ok P s"
    by (induction rule: rtranclp_induct) (use system_ok_init [OF s0(1)] system_ok_step [OF os] in auto)
qed

section \<open>Undisturbed runs\<close>

text \<open>A system on which no call fails, and the runs of a program on it that no other instance
  interleaves with.\<close>

definition free_for :: "Kernel \<Rightarrow> nat \<Rightarrow> lock_mode \<Rightarrow> bool" where
  "free_for k t m \<longleftrightarrow> (\<forall>n. k_path k = Some n \<longrightarrow> unlocked_for k t n m)"

fun sys_std :: "Kernel \<Rightarrow> nat \<Rightarrow> call \<Rightarrow> ret \<times> Kernel" where
  "sys_std k t COpen = (if k_ofd k t \<noteq> None then (Failed, k) else case k_path k of
     Some n \<Rightarrow> (Done, set_ofd k t (Some \<lparr> f_ino = n, f_lock = None \<rparr>))
   | None \<Rightarrow> if fresh_ino k (k_next k)
       then (Done, (set_ofd k t (Some \<lparr> f_ino = k_next k, f_lock = None \<rparr>))
         \<lparr> k_path := Some (k_next k), k_data := (k_data k)(k_next k := []), k_next := k_next k + 1 \<rparr>)
       else (Failed, k))"
| "sys_std k t COpenExisting = (if k_ofd k t \<noteq> None then (Failed, k) else case k_path k of
     Some n \<Rightarrow> (Done, set_ofd k t (Some \<lparr> f_ino = n, f_lock = None \<rparr>))
   | None \<Rightarrow> (NotFound, k))"
| "sys_std k t (CFlock m) = (case k_ofd k t of
     None \<Rightarrow> (Failed, k)
   | Some f \<Rightarrow> if unlocked_for k t (f_ino f) m then (Done, set_ofd k t (Some (f\<lparr> f_lock := Some m \<rparr>))) else (WouldBlock, k))"
| "sys_std k t CUnlock = (case k_ofd k t of
     None \<Rightarrow> (Failed, k)
   | Some f \<Rightarrow> (Done, set_ofd k t (Some (f\<lparr> f_lock := None \<rparr>))))"
| "sys_std k t CClose = (Done, set_ofd k t None)"
| "sys_std k t CFstat = (case k_ofd k t of None \<Rightarrow> (Failed, k) | Some f \<Rightarrow> (RIno (f_ino f), k))"
| "sys_std k t CStat = (case k_path k of None \<Rightarrow> (NotFound, k) | Some n \<Rightarrow> (RIno n, k))"
| "sys_std k t CUnlink = (case k_path k of None \<Rightarrow> (NotFound, k) | Some n \<Rightarrow> (Done, k\<lparr> k_path := None \<rparr>))"
| "sys_std k t CSetLen0 = (case k_ofd k t of
     None \<Rightarrow> (Failed, k)
   | Some f \<Rightarrow> (Done, k\<lparr> k_data := (k_data k)(f_ino f := []) \<rparr>))"
| "sys_std k t (CPwrite off bs) = (case k_ofd k t of
     None \<Rightarrow> (Failed, k)
   | Some f \<Rightarrow> (Wrote (length bs), k\<lparr> k_data := (k_data k)(f_ino f := overwrite off bs (k_data k (f_ino f))) \<rparr>))"

definition os_std :: os where
  "os_std k t c r k' \<longleftrightarrow> sys_std k t c = (r, k')"

lemma os_std_laws: "os_laws os_std"
proof -
  have "allowed k t c (fst (sys_std k t c)) (snd (sys_std k t c))" for k t c
    by (cases c) (auto simp: allowed_iff split: option.splits)
  then show ?thesis by (auto simp: os_laws_def os_std_def) (metis fst_conv snd_conv)
qed

lemma sys_std_not_interrupted: "sys_std k t c = (r, k') \<Longrightarrow> r \<noteq> Interrupted"
  by (cases c) (auto split: option.splits if_splits)

primrec run :: "(Kernel \<Rightarrow> nat \<Rightarrow> call \<Rightarrow> ret \<times> Kernel) \<Rightarrow> nat \<Rightarrow> 'a prog \<Rightarrow> Kernel \<Rightarrow> 'a \<times> Kernel" where
  "run sys t (Return x) k = (x, k)"
| "run sys t (Sys c f) k = (case sys k t c of (r, k') \<Rightarrow> run sys t (f r) k')"

lemma run_bind: "run sys t (bind_prog p g) k = (case run sys t p k of (x, k') \<Rightarrow> run sys t (g x) k')"
  by (induction p arbitrary: k) (auto split: prod.splits)

definition runs_on :: "(Kernel \<Rightarrow> nat \<Rightarrow> call \<Rightarrow> ret \<times> Kernel) \<Rightarrow> os \<Rightarrow> bool" where
  "runs_on sys os \<longleftrightarrow> (\<forall>k t c r k'. sys k t c = (r, k') \<longrightarrow> os k t c r k' \<and> r \<noteq> Interrupted)"

lemma runs_on_std: "runs_on sys_std os_std"
  using sys_std_not_interrupted by (auto simp: runs_on_def os_std_def)

lemma run_steps:
  assumes sys: "runs_on sys os"
    and p: "i_run (I t) = Some (op, p)" "run sys t p k = (x, k')"
  shows "(lock_step os P)\<^sup>*\<^sup>* (k, I) (k', I(t := (I t)\<lparr> i_run := Some (op, Return x) \<rparr>))"
  using p
proof (induction p arbitrary: k I)
  case (Return y)
  then have "I(t := (I t)\<lparr> i_run := Some (op, Return x) \<rparr>) = I" by (auto simp: fun_eq_iff)
  then show ?case using Return by simp
next
  case (Sys c f)
  obtain r k1 where s: "sys k t c = (r, k1)" by (cases "sys k t c")
  then have r: "os k t c r k1" "r \<noteq> Interrupted" using sys by (auto simp: runs_on_def)
  let ?I = "I(t := (I t)\<lparr> i_run := Some (op, f r) \<rparr>)"
  have step: "lock_step os P (k, I) (k1, ?I)"
    using lock_step.calls [of I t op c f os k r k1 P] Sys.prems(1) r by (simp add: resume_def)
  have rest: "(lock_step os P)\<^sup>*\<^sup>* (k1, ?I) (k', ?I(t := (?I t)\<lparr> i_run := Some (op, Return x) \<rparr>))"
    by (rule Sys.IH [OF rangeI]) (use Sys.prems(2) s in auto)
  have eq: "?I(t := (?I t)\<lparr> i_run := Some (op, Return x) \<rparr>) = I(t := (I t)\<lparr> i_run := Some (op, Return x) \<rparr>)"
    by (simp add: fun_eq_iff)
  show ?case using converse_rtranclp_into_rtranclp [of "lock_step os P", OF step rest] unfolding eq .
qed

text \<open>A whole operation of one instance.\<close>

definition do_op :: "(Kernel \<Rightarrow> nat \<Rightarrow> call \<Rightarrow> ret \<times> Kernel) \<Rightarrow> nat \<Rightarrow> lock_op \<Rightarrow> lock_system \<Rightarrow> lock_system" where
  "do_op sys t op = (\<lambda>(k, I). case run sys t (op_prog op (i_st (I t))) k of ((st, res), k') \<Rightarrow>
     (k', I(t := \<lparr> i_st = st, i_run = None,
        i_reads = end_reads op res (begin_reads op (i_reads (I t))),
        i_writes = end_writes op res (begin_writes op (i_writes (I t))) \<rparr>)))"

lemma do_op_steps:
  assumes sys: "runs_on sys os" and i: "i_run (I t) = None" "can_begin P op (I t)"
  shows "(lock_step os P)\<^sup>*\<^sup>* (k, I) (do_op sys t op (k, I))"
proof -
  obtain st res k' where r: "run sys t (op_prog op (i_st (I t))) k = ((st, res), k')"
    by (cases "run sys t (op_prog op (i_st (I t))) k") auto
  define b where "b = (I t)\<lparr> i_run := Some (op, op_prog op (i_st (I t))), i_reads := begin_reads op (i_reads (I t)),
    i_writes := begin_writes op (i_writes (I t)) \<rparr>"
  define d where "d = b\<lparr> i_run := Some (op, Return (st, res)) \<rparr>"
  define e where "e = \<lparr> i_st = st, i_run = None, i_reads = end_reads op res (i_reads d), i_writes = end_writes op res (i_writes d) \<rparr>"
  have s1: "lock_step os P (k, I) (k, I(t := b))" unfolding b_def using i by (rule lock_step.begins)
  have "(lock_step os P)\<^sup>*\<^sup>* (k, I(t := b)) (k', (I(t := b))(t := ((I(t := b)) t)\<lparr> i_run := Some (op, Return (st, res)) \<rparr>))"
    by (rule run_steps [OF sys]) (use r in \<open>auto simp: b_def\<close>)
  then have s2: "(lock_step os P)\<^sup>*\<^sup>* (k, I(t := b)) (k', I(t := d))" by (simp add: d_def)
  have "lock_step os P (k', I(t := d)) (k', (I(t := d))(t := \<lparr> i_st = st, i_run = None,
      i_reads = end_reads op res (i_reads ((I(t := d)) t)), i_writes = end_writes op res (i_writes ((I(t := d)) t)) \<rparr>))"
    by (rule lock_step.finishes) (simp add: d_def)
  then have s3: "lock_step os P (k', I(t := d)) (k', I(t := e))" by (simp add: e_def)
  have "do_op sys t op (k, I) = (k', I(t := e))" by (simp add: do_op_def r e_def d_def b_def)
  then show ?thesis
    using rtranclp.rtrancl_into_rtrancl [OF converse_rtranclp_into_rtranclp [of "lock_step os P", OF s1 s2] s3] by simp
qed

lemma do_op_reachable:
  assumes "runs_on sys os"
    and "lock_reachable os P (k, I)" "i_run (I t) = None" "can_begin P op (I t)"
  shows "lock_reachable os P (do_op sys t op (k, I))"
  using assms(2) rtranclp_trans [OF _ do_op_steps [of sys os I t P op k, OF assms(1,3,4)]] unfolding lock_reachable_def by blast

lemma unlocked_for_set [simp]: "unlocked_for (set_ofd k t f) t n m = unlocked_for k t n m"
  by (auto simp: unlocked_for_def)

text \<open>An attempt that starts with the file closed.\<close>

lemma fresh_loop_run:
  assumes "k_ofd k t = None" "\<not> fd_file st" "k_path k = None \<Longrightarrow> fresh_ino k (k_next k)" "n > 0"
  shows "\<exists>k'. run sys_std t (fresh_loop op n st) k =
    (if free_for k t op then (st\<lparr> fd_file := True, fd_stale_warned := False \<rparr>, Ok True) else (st, Ok False), k')
    \<and> (k_ofd k' t \<noteq> None) = free_for k t op"
proof -
  obtain m where n: "n = Suc m" using assms(4) by (cases n) auto
  show ?thesis
  proof (cases "k_path k")
    case None
    have "unlocked_for k t (k_next k) op" using assms(3) [OF None] unfolding fresh_ino_def unlocked_for_def by blast
    then have "unlocked_for ((set_ofd k t (Some \<lparr> f_ino = k_next k, f_lock = None \<rparr>))
         \<lparr> k_path := Some (k_next k), k_data := (k_data k)(k_next k := []), k_next := k_next k + 1 \<rparr>) t (k_next k) op"
      by (auto simp: unlocked_for_def)
    then show ?thesis using None assms n
      by (simp add: run_bind ensure_open_def flock_nb_def fd_matches_path_def free_for_def)
  next
    case (Some p)
    show ?thesis
    proof (cases "unlocked_for k t p op")
      case True
      then show ?thesis using Some assms n
        by (simp add: run_bind ensure_open_def flock_nb_def fd_matches_path_def free_for_def)
    next
      case False
      then show ?thesis using Some assms n
        by (simp add: run_bind ensure_open_def flock_nb_def fd_matches_path_def free_for_def)
    qed
  qed
qed

lemma try_acquire_write_run:
  assumes "k_ofd k t = None" "\<not> fd_file st" "k_path k = None \<Longrightarrow> fresh_ino k (k_next k)" "fd_readers st = 0" "\<not> fd_writer st"
  shows "\<exists>k'. run sys_std t (try_acquire_write st) k =
    ((if free_for k t LOCK_EX then st\<lparr> fd_file := True, fd_stale_warned := False, fd_writer := True \<rparr> else st,
      Ok (free_for k t LOCK_EX)), k')"
  using fresh_loop_run [OF assms(1-3), of STALE_RETRIES LOCK_EX] assms(4,5)
  by (auto simp: try_acquire_write_def try_lock_fresh_def run_bind STALE_RETRIES_def)



section \<open>Exclusion, and what an attempt returns\<close>

definition demo_kernel :: Kernel where
  "demo_kernel = \<lparr> k_path = None, k_ofd = (\<lambda>_. None), k_data = (\<lambda>_. []), k_next = 0 \<rparr>"

lemma demo_reachable: "lock_reachable os {} (demo_kernel, \<lambda>_. Inst_new)"
  unfolding lock_reachable_def
  by (rule exI [of _ "(demo_kernel, \<lambda>_. Inst_new)"]) (simp add: lock_init_def demo_kernel_def data_ok_def)

text \<open>C3: A write guard of a file lock excludes every other guard on the same lock file, in any
  process, whatever the interleaving of the system calls, whichever calls fail or are interrupted,
  and whichever processes are killed: although a releasing writer deletes the file that others may
  be about to lock.  The file a guard has locked is the one the path names.\<close>
theorem flock_exclusive:
  assumes "os_laws os" "lock_reachable os P (k, I)" "i_writes (I t) > 0"
  shows "i_writes (I t) = 1 \<and> i_reads (I t) = 0 \<and> backed k t LOCK_EX
    \<and> (\<forall>t'. t' \<noteq> t \<longrightarrow> i_reads (I t') = 0 \<and> i_writes (I t') = 0)"
proof -
  note ok = reachable_system_ok [OF assms(1,2)]
  have g: "guarded t' (i_reads (I t')) (i_writes (I t')) k" for t' by (rule run_ok_guarded [OF system_okD(2) [OF ok]])
  have b: "backed k t LOCK_EX" using g [of t] assms(3) by (simp add: guarded_def)
  have "\<not> backed k t LOCK_SH" using b by (auto simp: backed_def)
  then have "i_reads (I t) = 0" using g [of t] by (auto simp: guarded_def)
  moreover have "i_reads (I t') = 0 \<and> i_writes (I t') = 0" if "t' \<noteq> t" for t'
    using other_not_backed [OF system_okD(1) [OF ok] b that] g [of t'] by (auto simp: guarded_def)
  moreover have "i_writes (I t) = 1" using run_ok_idle(2) [OF system_okD(2) [OF ok], of t] assms(3) by simp
  ultimately show ?thesis using b by blast
qed

lemma demo_acquired:
  "\<exists>k I. lock_reachable os_std {} (k, I) \<and> i_writes (I 0) = 1 \<and> i_run (I 1) = None \<and> i_st (I 1) = FdState_new"
proof -
  obtain k' where r: "run sys_std 0 (try_acquire_write FdState_new) demo_kernel =
      ((FdState_new\<lparr> fd_file := True, fd_stale_warned := False, fd_writer := True \<rparr>, Ok True), k')"
    using try_acquire_write_run [of demo_kernel 0 FdState_new]
    by (auto simp: demo_kernel_def FdState_new_def fresh_ino_def free_for_def)
  let ?s = "do_op sys_std 0 AcquireWrite (demo_kernel, \<lambda>_. Inst_new)"
  have "lock_reachable os_std {} ?s"
    by (rule do_op_reachable [OF runs_on_std demo_reachable]) (simp_all add: Inst_new_def)
  moreover have "i_writes (snd ?s 0) = 1" "i_run (snd ?s 1) = None" "i_st (snd ?s 1) = FdState_new"
    using r by (simp_all add: do_op_def Inst_new_def)
  ultimately show ?thesis by (metis prod.collapse)
qed

theorem flock_exclusive_witness:
  "os_laws os_std \<and> (\<exists>k I. lock_reachable os_std {} (k, I) \<and> i_writes (I 0) = 1 \<and> i_reads (I 0) = 0 \<and> backed k 0 LOCK_EX
    \<and> i_reads (I 1) = 0 \<and> i_writes (I 1) = 0)"
proof -
  obtain k I where s: "lock_reachable os_std {} (k, I)" "i_writes (I 0) = 1" using demo_acquired by blast
  have "i_writes (I 0) = 1 \<and> i_reads (I 0) = 0 \<and> backed k 0 LOCK_EX
    \<and> (\<forall>t'. t' \<noteq> 0 \<longrightarrow> i_reads (I t') = 0 \<and> i_writes (I t') = 0)"
    by (rule flock_exclusive [OF os_std_laws s(1)]) (simp add: s(2))
  then show ?thesis using os_std_laws s by auto
qed




section \<open>Waiting\<close>

text \<open>\<^verbatim>\<open>poll_acquire\<close>.  A round is what the loop observes: whether the token is cancelled at its start,
  the result of the attempt, and whether the token fires during the sleep.  The value is the
  outcome with the sleeps made, in milliseconds; \<open>None\<close> is a caller still waiting when the rounds
  end.\<close>

definition MAX_BACKOFF :: nat where "MAX_BACKOFF = 100"

datatype poll_outcome = Acquired | PollCancelled | PollFailed io_error

fun poll_acquire :: "nat \<Rightarrow> (bool \<times> (io_error + bool) \<times> bool) list \<Rightarrow> (poll_outcome \<times> nat list) option" where
  "poll_acquire backoff [] = None"
| "poll_acquire backoff ((cancelled, attempt, fired) # rounds) =
     (if cancelled then Some (PollCancelled, [])
      else case attempt of
          Err e \<Rightarrow> Some (PollFailed e, [])
        | Ok acquired \<Rightarrow> if acquired then Some (Acquired, [])
            else if fired then Some (PollCancelled, [])
            else map_option (\<lambda>(r, sleeps). (r, backoff # sleeps)) (poll_acquire (min (backoff * 2) MAX_BACKOFF) rounds))"

definition busy_round :: "bool \<times> (io_error + bool) \<times> bool \<Rightarrow> bool" where
  "busy_round = (\<lambda>(cancelled, attempt, fired). \<not> cancelled \<and> attempt = Ok False \<and> \<not> fired)"

lemma poll_acquire_sleeps:
  "poll_acquire b rs = Some (out, sleeps) \<Longrightarrow> i < length sleeps \<Longrightarrow>
    busy_round (rs ! i) \<and> sleeps ! i = ((\<lambda>b. min (b * 2) MAX_BACKOFF) ^^ i) b"
proof (induction rs arbitrary: b sleeps i)
  case Nil
  then show ?case by simp
next
  case (Cons x rs)
  obtain c a f where x: "x = (c, a, f)" by (cases x)
  obtain sl where "busy_round x" "poll_acquire (min (b * 2) MAX_BACKOFF) rs = Some (out, sl)" "sleeps = b # sl"
    using Cons.prems x by (auto simp: busy_round_def split: if_splits sum.splits)
  then show ?case using Cons.IH [of "min (b * 2) MAX_BACKOFF" sl "i - 1"] Cons.prems(2)
    by (cases i) (auto simp: funpow_Suc_right simp del: funpow.simps(2))
qed

lemma poll_acquire_acquired:
  "poll_acquire b rs = Some (Acquired, sleeps) \<Longrightarrow> length sleeps < length rs \<and> fst (snd (rs ! length sleeps)) = Ok True"
proof (induction rs arbitrary: b sleeps)
  case Nil
  then show ?case by simp
next
  case (Cons x rs)
  obtain c a f where x: "x = (c, a, f)" by (cases x)
  show ?case using Cons x by (cases a) (auto split: if_splits)
qed

lemma backoff_value: "((\<lambda>b. min (b * 2) MAX_BACKOFF) ^^ i) 1 = min (2 ^ i) MAX_BACKOFF"
  by (induction i) (auto simp: MAX_BACKOFF_def)

section \<open>A failing status call leaves the lock held\<close>

definition sys_stat_fails :: "Kernel \<Rightarrow> nat \<Rightarrow> call \<Rightarrow> ret \<times> Kernel" where
  "sys_stat_fails k t c = (if c = CStat then (Failed, k) else sys_std k t c)"

definition os_stat_fails :: os where
  "os_stat_fails k t c r k' \<longleftrightarrow> sys_stat_fails k t c = (r, k')"

lemma os_stat_fails_laws: "os_laws os_stat_fails"
  using os_std_laws unfolding os_laws_def os_std_def os_stat_fails_def sys_stat_fails_def
  by (auto simp: allowed_stat split: if_splits)

lemma runs_on_stat_fails: "runs_on sys_stat_fails os_stat_fails"
  by (auto simp: runs_on_def os_stat_fails_def sys_stat_fails_def split: if_splits dest: sys_std_not_interrupted)

text \<open>When the status call after \<^verbatim>\<open>flock\<close> fails, the attempt returns the error with the file open and
  locked.  No guard exists and nothing is running, and still another instance finds the lock
  busy, until this instance attempts again or is dropped.\<close>
theorem stat_error_keeps_lock:
  "\<exists>k I. lock_reachable os_stat_fails {} (k, I)
    \<and> (\<forall>t. i_run (I t) = None \<and> i_reads (I t) = 0 \<and> i_writes (I t) = 0)
    \<and> fst (run sys_std 1 (try_acquire_write (i_st (I 1))) k) = (FdState_new, Ok False)"
proof -
  let ?s = "do_op sys_stat_fails 0 AcquireWrite (demo_kernel, \<lambda>_. Inst_new)"
  have s: "lock_reachable os_stat_fails {} ?s"
    by (rule do_op_reachable [OF runs_on_stat_fails demo_reachable]) (simp_all add: Inst_new_def)
  have n: "STALE_RETRIES = Suc 15" by (simp add: STALE_RETRIES_def)
  note first = fresh_loop.simps(2) [of LOCK_EX 15, folded n]
  have v: "?s = (\<lparr> k_path = Some 0, k_ofd = (\<lambda>_. None)(0 := Some \<lparr> f_ino = 0, f_lock = Some LOCK_EX \<rparr>), k_data = (\<lambda>_. [])(0 := []), k_next = 1 \<rparr>,
      (\<lambda>_. Inst_new)(0 := \<lparr> i_st = FdState_new\<lparr> fd_file := True \<rparr>, i_run = None, i_reads = 0, i_writes = 0 \<rparr>))"
    by (simp add: do_op_def Inst_new_def try_acquire_write_def try_lock_fresh_def first run_bind ensure_open_def
        flock_nb_def fd_matches_path_def sys_stat_fails_def demo_kernel_def FdState_new_def fresh_ino_def unlocked_for_def fun_eq_iff)
  let ?k = "fst ?s"
  have "\<not> free_for ?k 1 LOCK_EX" unfolding v by (auto simp: free_for_def unlocked_for_def)
  moreover have "k_ofd ?k 1 = None" "k_path ?k \<noteq> None" unfolding v by simp_all
  ultimately have "fst (run sys_std 1 (try_acquire_write FdState_new) ?k) = (FdState_new, Ok False)"
    using try_acquire_write_run [of ?k 1 FdState_new] by (auto simp: FdState_new_def)
  moreover have "i_st (snd ?s 1) = FdState_new"
    "\<forall>t. i_run (snd ?s t) = None \<and> i_reads (snd ?s t) = 0 \<and> i_writes (snd ?s t) = 0" unfolding v by (auto simp: Inst_new_def)
  ultimately show ?thesis using s by (intro exI [of _ "fst ?s"] exI [of _ "snd ?s"]) simp
qed

end
