(* ===== verification/Lock_Bridge.thy ===== *)
theory Lock_Bridge
  imports Addr Flock
begin

text \<open>
  The transformable lock (lock/hlock/bridge.rs) as the engine composes it (engine/result_lock.rs): a
  gateway per target and a reader/writer lock per revision of the target.  Plain reads take the
  revision lock only; upgradable reads and writes take the gateway first, and keep it across every
  upgrade and downgrade.

  An operation is a task: a tree of lock calls, branching on their replies.  A blocking call can
  also end with an error, because its token is cancelled or its backend fails, and a \<^verbatim>\<open>try_\<close> call
  can find the lock busy.  Tasks interleave at every call; \<open>disciplined\<close> says that a task takes
  and releases its locks in an allowed order, and the invariant of the system follows from it.
\<close>

section \<open>The locks\<close>

text \<open>What both backends promise of a reader/writer lock: the guards of an owner, and that a write
  guard is alone.\<close>

locale rw_lock =
  fixes inv :: "'s \<Rightarrow> bool"
    and reads :: "'s \<Rightarrow> nat \<Rightarrow> nat"
    and writes :: "'s \<Rightarrow> nat \<Rightarrow> nat"
  assumes write_alone: "inv s \<Longrightarrow> writes s t > 0 \<Longrightarrow> writes s t = 1 \<and> reads s t = 0"
    and write_excludes: "inv s \<Longrightarrow> writes s t > 0 \<Longrightarrow> t' \<noteq> t \<Longrightarrow> reads s t' = 0 \<and> writes s t' = 0"
begin

lemma read_excludes_write:
  assumes "inv s" "reads s t > 0"
  shows "writes s t' = 0"
proof (rule ccontr)
  assume "writes s t' \<noteq> 0"
  then have w: "writes s t' > 0" by simp
  show False
  proof (cases "t' = t")
    case True
    then show ?thesis using write_alone [OF assms(1) w] assms(2) by simp
  next
    case False
    then show ?thesis using write_excludes [OF assms(1) w, of t] assms(2) by simp
  qed
qed

lemma one_writer:
  assumes "inv s" "writes s t > 0" "writes s t' > 0"
  shows "t' = t"
  using write_excludes [OF assms(1,2), of t'] assms(3) by fastforce

end

interpretation flock_rw: rw_lock "\<lambda>s. system_ok P s" "\<lambda>(k, I) t. i_reads (I t)" "\<lambda>(k, I) t. i_writes (I t)" for P
proof unfold_locales
  fix s t t'
  assume ok: "system_ok P s" and w: "(case s of (k, I) \<Rightarrow> \<lambda>t. i_writes (I t)) t > 0"
  obtain k I where s: "s = (k, I)" by (cases s)
  have g: "guarded t (i_reads (I t)) (i_writes (I t)) k" for t using run_ok_guarded system_okD(2) ok s by blast
  have b: "backed k t LOCK_EX" using g [of t] w s by (simp add: guarded_def)
  then have "\<not> backed k t LOCK_SH" by (auto simp: backed_def)
  then show "(case s of (k, I) \<Rightarrow> \<lambda>t. i_writes (I t)) t = 1 \<and> (case s of (k, I) \<Rightarrow> \<lambda>t. i_reads (I t)) t = 0"
    using g [of t] run_ok_idle(2) [OF system_okD(2), of P k I t] ok w s by (auto simp: guarded_def)
  show "(case s of (k, I) \<Rightarrow> \<lambda>t. i_reads (I t)) t' = 0 \<and> (case s of (k, I) \<Rightarrow> \<lambda>t. i_writes (I t)) t' = 0" if "t' \<noteq> t"
    using other_not_backed [OF system_okD(1) b that, of P I] g [of t'] ok s by (auto simp: guarded_def)
qed

text \<open>The in-memory locks (lock/hlock/mem.rs), with the owners of their guards.\<close>

type_synonym MemLock = "nat option"

record MemRWLock =
  rw_readers :: "nat set"
  rw_writer :: "nat option"

definition MemRWLock_new :: MemRWLock where
  "MemRWLock_new = \<lparr> rw_readers = {}, rw_writer = None \<rparr>"

definition mem_try_lock :: "nat \<Rightarrow> MemLock \<Rightarrow> MemLock option" where
  "mem_try_lock t l = (if l = None then Some (Some t) else None)"

definition mem_try_read :: "nat \<Rightarrow> MemRWLock \<Rightarrow> MemRWLock option" where
  "mem_try_read t l = (if rw_writer l = None then Some (l\<lparr> rw_readers := insert t (rw_readers l) \<rparr>) else None)"

definition mem_try_write :: "nat \<Rightarrow> MemRWLock \<Rightarrow> MemRWLock option" where
  "mem_try_write t l = (if rw_writer l = None \<and> rw_readers l = {} then Some (l\<lparr> rw_writer := Some t \<rparr>) else None)"

definition rw_ok :: "MemRWLock \<Rightarrow> bool" where
  "rw_ok l \<longleftrightarrow> (rw_writer l \<noteq> None \<longrightarrow> rw_readers l = {})"

interpretation mem_rw: rw_lock rw_ok "\<lambda>l t. of_bool (t \<in> rw_readers l)" "\<lambda>l t. of_bool (rw_writer l = Some t)"
  by unfold_locales (auto simp: rw_ok_def)

lemma mem_rw_ok:
  "rw_ok MemRWLock_new"
  "rw_ok l \<Longrightarrow> mem_try_read t l = Some l' \<Longrightarrow> rw_ok l'"
  "rw_ok l \<Longrightarrow> mem_try_write t l = Some l' \<Longrightarrow> rw_ok l'"
  by (auto simp: rw_ok_def MemRWLock_new_def mem_try_read_def mem_try_write_def split: if_splits)

section \<open>Tasks\<close>

record RevisionKey =
  rk_addr :: AddrInner
  rk_hashin :: rstr

datatype lock_call = LockOuter | TryLockOuter | ReadInner | TryReadInner | WriteInner | TryWriteInner
  | DropOuter | DropRead | DropWrite

datatype reply = Got | Busy | Errored

datatype guard = ReadGuard | UpgradableGuard | WriteGuard | TargetGuard | TargetRevisionGuard

type_synonym acquired = "unit + guard option"

datatype task = Returns acquired | Awaits lock_call "reply \<Rightarrow> task"

definition bridge_read :: task where
  "bridge_read = Awaits ReadInner (\<lambda>r. if r = Got then Returns (Ok (Some ReadGuard)) else Returns (Err ()))"

definition bridge_upgradable_read :: task where
  "bridge_upgradable_read = Awaits LockOuter (\<lambda>r. if r \<noteq> Got then Returns (Err ())
     else Awaits ReadInner (\<lambda>r. if r = Got then Returns (Ok (Some UpgradableGuard))
       else Awaits DropOuter (\<lambda>_. Returns (Err ()))))"

definition bridge_write :: task where
  "bridge_write = Awaits LockOuter (\<lambda>r. if r \<noteq> Got then Returns (Err ())
     else Awaits WriteInner (\<lambda>r. if r = Got then Returns (Ok (Some WriteGuard))
       else Awaits DropOuter (\<lambda>_. Returns (Err ()))))"

definition bridge_try_read :: task where
  "bridge_try_read = Awaits TryReadInner (\<lambda>r. case r of
     Got \<Rightarrow> Returns (Ok (Some ReadGuard)) | Busy \<Rightarrow> Returns (Ok None) | Errored \<Rightarrow> Returns (Err ()))"

definition bridge_try_upgradable_read :: task where
  "bridge_try_upgradable_read = Awaits TryLockOuter (\<lambda>r. case r of
     Busy \<Rightarrow> Returns (Ok None) | Errored \<Rightarrow> Returns (Err ())
   | Got \<Rightarrow> Awaits TryReadInner (\<lambda>r. case r of
       Got \<Rightarrow> Returns (Ok (Some UpgradableGuard))
     | Busy \<Rightarrow> Awaits DropOuter (\<lambda>_. Returns (Ok None))
     | Errored \<Rightarrow> Awaits DropOuter (\<lambda>_. Returns (Err ()))))"

definition bridge_try_write :: task where
  "bridge_try_write = Awaits TryLockOuter (\<lambda>r. case r of
     Busy \<Rightarrow> Returns (Ok None) | Errored \<Rightarrow> Returns (Err ())
   | Got \<Rightarrow> Awaits TryWriteInner (\<lambda>r. case r of
       Got \<Rightarrow> Returns (Ok (Some WriteGuard))
     | Busy \<Rightarrow> Awaits DropOuter (\<lambda>_. Returns (Ok None))
     | Errored \<Rightarrow> Awaits DropOuter (\<lambda>_. Returns (Err ()))))"

definition bridge_upgrade :: task where
  "bridge_upgrade = Awaits DropRead (\<lambda>_. Awaits WriteInner (\<lambda>r. if r = Got then Returns (Ok (Some WriteGuard))
     else Awaits DropOuter (\<lambda>_. Returns (Err ()))))"

definition bridge_downgrade :: task where
  "bridge_downgrade = Awaits DropWrite (\<lambda>_. Awaits ReadInner (\<lambda>r. if r = Got then Returns (Ok (Some UpgradableGuard))
     else Awaits DropOuter (\<lambda>_. Returns (Err ()))))"

text \<open>The operations of \<^verbatim>\<open>ResultLock\<close> on a target's gateway alone, and on one revision under it.\<close>

definition lock_target :: task where
  "lock_target = Awaits LockOuter (\<lambda>r. if r = Got then Returns (Ok (Some TargetGuard)) else Returns (Err ()))"

definition try_lock_target :: task where
  "try_lock_target = Awaits TryLockOuter (\<lambda>r. case r of
     Got \<Rightarrow> Returns (Ok (Some TargetGuard)) | Busy \<Rightarrow> Returns (Ok None) | Errored \<Rightarrow> Returns (Err ()))"

definition write_revision :: task where
  "write_revision = Awaits WriteInner (\<lambda>r. if r = Got then Returns (Ok (Some TargetRevisionGuard)) else Returns (Err ()))"

definition try_write_revision :: task where
  "try_write_revision = Awaits TryWriteInner (\<lambda>r. case r of
     Got \<Rightarrow> Returns (Ok (Some TargetRevisionGuard)) | Busy \<Rightarrow> Returns (Ok None) | Errored \<Rightarrow> Returns (Err ()))"

text \<open>Dropping a guard; a revision guard is dropped before the target guard it was taken under.\<close>

fun drop_guard :: "guard \<Rightarrow> task" where
  "drop_guard ReadGuard = Awaits DropRead (\<lambda>_. Returns (Ok None))"
| "drop_guard UpgradableGuard = Awaits DropRead (\<lambda>_. Awaits DropOuter (\<lambda>_. Returns (Ok None)))"
| "drop_guard WriteGuard = Awaits DropWrite (\<lambda>_. Awaits DropOuter (\<lambda>_. Returns (Ok None)))"
| "drop_guard TargetGuard = Awaits DropOuter (\<lambda>_. Returns (Ok None))"
| "drop_guard TargetRevisionGuard = Awaits DropWrite (\<lambda>_. Returns (Ok (Some TargetGuard)))"

datatype bridge_op = BRead | BUpgradableRead | BWrite | BTryRead | BTryUpgradableRead | BTryWrite
  | BUpgrade | BDowngrade | BLockTarget | BTryLockTarget | BWriteRevision | BTryWriteRevision | BDrop guard

fun bridge_task :: "bridge_op \<Rightarrow> task" where
  "bridge_task BRead = bridge_read"
| "bridge_task BUpgradableRead = bridge_upgradable_read"
| "bridge_task BWrite = bridge_write"
| "bridge_task BTryRead = bridge_try_read"
| "bridge_task BTryUpgradableRead = bridge_try_upgradable_read"
| "bridge_task BTryWrite = bridge_try_write"
| "bridge_task BUpgrade = bridge_upgrade"
| "bridge_task BDowngrade = bridge_downgrade"
| "bridge_task BLockTarget = lock_target"
| "bridge_task BTryLockTarget = try_lock_target"
| "bridge_task BWriteRevision = write_revision"
| "bridge_task BTryWriteRevision = try_write_revision"
| "bridge_task (BDrop g) = drop_guard g"

text \<open>The guard an operation consumes or borrows, and the one its caller has afterwards.\<close>

fun needs_guard :: "bridge_op \<Rightarrow> guard option" where
  "needs_guard BUpgrade = Some UpgradableGuard"
| "needs_guard BDowngrade = Some WriteGuard"
| "needs_guard BWriteRevision = Some TargetGuard"
| "needs_guard BTryWriteRevision = Some TargetGuard"
| "needs_guard (BDrop g) = Some g"
| "needs_guard _ = None"

fun guard_after :: "bridge_op \<Rightarrow> acquired \<Rightarrow> guard option" where
  "guard_after op (Inr (Some g)) = Some g"
| "guard_after BWriteRevision _ = Some TargetGuard"
| "guard_after BTryWriteRevision _ = Some TargetGuard"
| "guard_after _ _ = None"

section \<open>The system\<close>

record Locks =
  l_gateway :: "AddrInner \<Rightarrow> MemLock"
  l_revision :: "RevisionKey \<Rightarrow> MemRWLock"

fun grant :: "nat \<Rightarrow> RevisionKey \<Rightarrow> lock_call \<Rightarrow> Locks \<Rightarrow> Locks option" where
  "grant t key LockOuter L = map_option (\<lambda>l. L\<lparr> l_gateway := (l_gateway L)(rk_addr key := l) \<rparr>) (mem_try_lock t (l_gateway L (rk_addr key)))"
| "grant t key TryLockOuter L = map_option (\<lambda>l. L\<lparr> l_gateway := (l_gateway L)(rk_addr key := l) \<rparr>) (mem_try_lock t (l_gateway L (rk_addr key)))"
| "grant t key ReadInner L = map_option (\<lambda>l. L\<lparr> l_revision := (l_revision L)(key := l) \<rparr>) (mem_try_read t (l_revision L key))"
| "grant t key TryReadInner L = map_option (\<lambda>l. L\<lparr> l_revision := (l_revision L)(key := l) \<rparr>) (mem_try_read t (l_revision L key))"
| "grant t key WriteInner L = map_option (\<lambda>l. L\<lparr> l_revision := (l_revision L)(key := l) \<rparr>) (mem_try_write t (l_revision L key))"
| "grant t key TryWriteInner L = map_option (\<lambda>l. L\<lparr> l_revision := (l_revision L)(key := l) \<rparr>) (mem_try_write t (l_revision L key))"
| "grant t key DropOuter L = Some (L\<lparr> l_gateway := (l_gateway L)(rk_addr key := None) \<rparr>)"
| "grant t key DropRead L = Some (L\<lparr> l_revision := (l_revision L)(key := (l_revision L key)\<lparr> rw_readers := rw_readers (l_revision L key) - {t} \<rparr>) \<rparr>)"
| "grant t key DropWrite L = Some (L\<lparr> l_revision := (l_revision L)(key := (l_revision L key)\<lparr> rw_writer := None \<rparr>) \<rparr>)"

definition tries :: "lock_call \<Rightarrow> bool" where
  "tries c \<longleftrightarrow> c \<in> {TryLockOuter, TryReadInner, TryWriteInner}"

definition blocks :: "lock_call \<Rightarrow> bool" where
  "blocks c \<longleftrightarrow> c \<in> {LockOuter, ReadInner, WriteInner}"

record Actor =
  a_key :: RevisionKey
  a_guard :: "guard option"
  a_run :: "(bridge_op \<times> task) option"

type_synonym bridge_system = "Locks \<times> (nat \<Rightarrow> Actor)"

inductive bridge_step :: "bridge_system \<Rightarrow> bridge_system \<Rightarrow> bool" where
  starts: "a_run (A t) = None \<Longrightarrow> a_guard (A t) = needs_guard op \<Longrightarrow>
    bridge_step (L, A) (L, A(t := (A t)\<lparr> a_guard := None, a_run := Some (op, bridge_task op) \<rparr>))"
| granted: "a_run (A t) = Some (op, Awaits c f) \<Longrightarrow> grant t (a_key (A t)) c L = Some L' \<Longrightarrow>
    bridge_step (L, A) (L', A(t := (A t)\<lparr> a_run := Some (op, f Got) \<rparr>))"
| busy: "a_run (A t) = Some (op, Awaits c f) \<Longrightarrow> tries c \<Longrightarrow>
    bridge_step (L, A) (L, A(t := (A t)\<lparr> a_run := Some (op, f Busy) \<rparr>))"
| errs: "a_run (A t) = Some (op, Awaits c f) \<Longrightarrow> tries c \<or> blocks c \<Longrightarrow>
    bridge_step (L, A) (L, A(t := (A t)\<lparr> a_run := Some (op, f Errored) \<rparr>))"
| returns: "a_run (A t) = Some (op, Returns r) \<Longrightarrow>
    bridge_step (L, A) (L, A(t := (A t)\<lparr> a_guard := guard_after op r, a_run := None \<rparr>))"
| rekeyed: "a_run (A t) = None \<Longrightarrow> a_guard (A t) = None \<or> a_guard (A t) = Some TargetGuard \<and> rk_addr key = rk_addr (a_key (A t)) \<Longrightarrow>
    bridge_step (L, A) (L, A(t := (A t)\<lparr> a_key := key \<rparr>))"

definition bridge_init :: "bridge_system \<Rightarrow> bool" where
  "bridge_init = (\<lambda>(L, A). L = \<lparr> l_gateway = (\<lambda>_. None), l_revision = (\<lambda>_. MemRWLock_new) \<rparr>
     \<and> (\<forall>t. a_guard (A t) = None \<and> a_run (A t) = None))"

definition bridge_reachable :: "bridge_system \<Rightarrow> bool" where
  "bridge_reachable s \<longleftrightarrow> (\<exists>s0. bridge_init s0 \<and> bridge_step\<^sup>*\<^sup>* s0 s)"

section \<open>The lock discipline\<close>

text \<open>What a task holds: the gateway, and the revision lock in a mode.\<close>

type_synonym held = "bool \<times> lock_mode option"

fun held_of :: "guard option \<Rightarrow> held" where
  "held_of None = (False, None)"
| "held_of (Some ReadGuard) = (False, Some LOCK_SH)"
| "held_of (Some UpgradableGuard) = (True, Some LOCK_SH)"
| "held_of (Some WriteGuard) = (True, Some LOCK_EX)"
| "held_of (Some TargetGuard) = (True, None)"
| "held_of (Some TargetRevisionGuard) = (True, Some LOCK_EX)"

text \<open>The gateway is taken with nothing held, the revision lock is taken once, for writing only
  under the gateway, and released before it.\<close>

inductive takes :: "lock_call \<Rightarrow> held \<Rightarrow> held \<Rightarrow> bool" where
  "c \<in> {LockOuter, TryLockOuter} \<Longrightarrow> takes c (False, None) (True, None)"
| "c \<in> {ReadInner, TryReadInner} \<Longrightarrow> takes c (b, None) (b, Some LOCK_SH)"
| "c \<in> {WriteInner, TryWriteInner} \<Longrightarrow> takes c (True, None) (True, Some LOCK_EX)"
| "takes DropOuter (True, None) (False, None)"
| "takes DropRead (b, Some LOCK_SH) (b, None)"
| "takes DropWrite (True, Some LOCK_EX) (True, None)"

inductive_simps takes_simps:
  "takes LockOuter h h'" "takes TryLockOuter h h'" "takes ReadInner h h'" "takes TryReadInner h h'"
  "takes WriteInner h h'" "takes TryWriteInner h h'" "takes DropOuter h h'" "takes DropRead h h'" "takes DropWrite h h'"

primrec disciplined :: "bridge_op \<Rightarrow> task \<Rightarrow> held \<Rightarrow> bool" where
  "disciplined op (Returns r) h \<longleftrightarrow> h = held_of (guard_after op r)"
| "disciplined op (Awaits c f) h \<longleftrightarrow> (op \<in> {BUpgrade, BDowngrade} \<longrightarrow> fst h) \<and> (op = BDowngrade \<longrightarrow> c \<noteq> WriteInner)
     \<and> (\<exists>h'. takes c h h' \<and> disciplined op (f Got) h')
     \<and> (tries c \<longrightarrow> disciplined op (f Busy) h)
     \<and> (tries c \<or> blocks c \<longrightarrow> disciplined op (f Errored) h)"

lemmas bridge_defs = bridge_read_def bridge_upgradable_read_def bridge_write_def bridge_try_read_def
  bridge_try_upgradable_read_def bridge_try_write_def bridge_upgrade_def bridge_downgrade_def lock_target_def
  try_lock_target_def write_revision_def try_write_revision_def

lemma task_disciplined: "disciplined op (bridge_task op) (held_of (needs_guard op))"
proof (cases op)
  case (BDrop g)
  then show ?thesis by (cases g) (auto simp: takes_simps tries_def blocks_def)
qed (auto simp: bridge_defs takes_simps tries_def blocks_def)

section \<open>The invariant\<close>

definition held_by :: "Locks \<Rightarrow> nat \<Rightarrow> RevisionKey \<Rightarrow> held" where
  "held_by L t key = (l_gateway L (rk_addr key) = Some t,
     if t \<in> rw_readers (l_revision L key) then Some LOCK_SH
     else if rw_writer (l_revision L key) = Some t then Some LOCK_EX else None)"

text \<open>Every lock is well formed, and an actor owns only the locks of its key.\<close>

definition locks_owned :: "Locks \<Rightarrow> (nat \<Rightarrow> RevisionKey) \<Rightarrow> bool" where
  "locks_owned L K \<longleftrightarrow> (\<forall>key. rw_ok (l_revision L key))
     \<and> (\<forall>a t. l_gateway L a = Some t \<longrightarrow> rk_addr (K t) = a)
     \<and> (\<forall>key t. t \<in> rw_readers (l_revision L key) \<or> rw_writer (l_revision L key) = Some t \<longrightarrow> K t = key)"

definition actor_ok :: "Locks \<Rightarrow> nat \<Rightarrow> Actor \<Rightarrow> bool" where
  "actor_ok L t a \<longleftrightarrow> (case a_run a of
     None \<Rightarrow> held_by L t (a_key a) = held_of (a_guard a)
   | Some (op, p) \<Rightarrow> a_guard a = None \<and> disciplined op p (held_by L t (a_key a)))"

definition bridge_ok :: "bridge_system \<Rightarrow> bool" where
  "bridge_ok = (\<lambda>(L, A). locks_owned L (\<lambda>t. a_key (A t)) \<and> (\<forall>t. actor_ok L t (A t)))"

lemma held_by_iff:
  "fst (held_by L t key) \<longleftrightarrow> l_gateway L (rk_addr key) = Some t"
  "rw_ok (l_revision L key) \<Longrightarrow> snd (held_by L t key) = Some LOCK_SH \<longleftrightarrow> t \<in> rw_readers (l_revision L key)"
  "rw_ok (l_revision L key) \<Longrightarrow> snd (held_by L t key) = Some LOCK_EX \<longleftrightarrow> rw_writer (l_revision L key) = Some t"
  "snd (held_by L t key) = None \<longleftrightarrow> t \<notin> rw_readers (l_revision L key) \<and> rw_writer (l_revision L key) \<noteq> Some t"
  by (auto simp: held_by_def rw_ok_def)

lemma grant_cases [consumes 1, case_names outer read_inner write_inner drop_outer drop_read drop_write]:
  assumes "grant t key c L = Some L'"
  obtains "c \<in> {LockOuter, TryLockOuter}" "l_gateway L (rk_addr key) = None" "L' = L\<lparr> l_gateway := (l_gateway L)(rk_addr key := Some t) \<rparr>"
  | "c \<in> {ReadInner, TryReadInner}" "rw_writer (l_revision L key) = None"
    "L' = L\<lparr> l_revision := (l_revision L)(key := (l_revision L key)\<lparr> rw_readers := insert t (rw_readers (l_revision L key)) \<rparr>) \<rparr>"
  | "c \<in> {WriteInner, TryWriteInner}" "rw_writer (l_revision L key) = None" "rw_readers (l_revision L key) = {}"
    "L' = L\<lparr> l_revision := (l_revision L)(key := (l_revision L key)\<lparr> rw_writer := Some t \<rparr>) \<rparr>"
  | "c = DropOuter" "L' = L\<lparr> l_gateway := (l_gateway L)(rk_addr key := None) \<rparr>"
  | "c = DropRead" "L' = L\<lparr> l_revision := (l_revision L)(key := (l_revision L key)\<lparr> rw_readers := rw_readers (l_revision L key) - {t} \<rparr>) \<rparr>"
  | "c = DropWrite" "L' = L\<lparr> l_revision := (l_revision L)(key := (l_revision L key)\<lparr> rw_writer := None \<rparr>) \<rparr>"
  using assms by (cases c) (auto simp: mem_try_lock_def mem_try_read_def mem_try_write_def split: if_splits)

lemma grant_owner:
  assumes "rw_ok (l_revision L key)" "grant t key c L = Some L'" "takes c (held_by L t key) h'"
  shows "held_by L' t key = h' \<and> rw_ok (l_revision L' key)"
  using assms(2,1,3)
  by (cases rule: grant_cases) (auto simp: takes_simps held_by_def rw_ok_def split: if_splits)

lemma takes_drops:
  "takes DropOuter (held_by L t key) h' \<Longrightarrow> l_gateway L (rk_addr key) = Some t"
  "takes DropWrite (held_by L t key) h' \<Longrightarrow> rw_writer (l_revision L key) = Some t"
  by (auto simp: takes_simps held_by_def split: if_splits)

text \<open>A call changes nothing of what another actor holds.\<close>

lemma grant_other:
  assumes "grant t key c L = Some L'" "takes c (held_by L t key) h'" "t' \<noteq> t"
  shows "held_by L' t' key' = held_by L t' key'"
  using assms(1)
proof (cases rule: grant_cases)
  case drop_outer
  have "l_gateway L (rk_addr key) = Some t" using takes_drops(1) assms(2) unfolding drop_outer(1) .
  then show ?thesis using drop_outer(2) assms(3) by (simp add: held_by_def)
next
  case drop_write
  have "rw_writer (l_revision L key) = Some t" using takes_drops(2) assms(2) unfolding drop_write(1) .
  then show ?thesis using drop_write(2) assms(3) by (simp add: held_by_def)
qed (use assms(3) in \<open>simp_all add: held_by_def\<close>)

lemma grant_owned:
  assumes "locks_owned L K" "grant t (K t) c L = Some L'" "takes c (held_by L t (K t)) h'"
  shows "locks_owned L' K"
proof -
  have ok: "rw_ok (l_revision L key)" for key using assms(1) by (simp add: locks_owned_def)
  have own: "l_gateway L a = Some t' \<Longrightarrow> rk_addr (K t') = a"
    "t' \<in> rw_readers (l_revision L key) \<Longrightarrow> K t' = key" "rw_writer (l_revision L key) = Some t' \<Longrightarrow> K t' = key" for a key t'
    using assms(1) by (auto simp: locks_owned_def)
  have ok': "rw_ok (l_revision L' (K t))" using grant_owner [OF ok assms(2,3)] by blast
  show ?thesis using assms(2)
  proof (cases rule: grant_cases)
    case outer
    then show ?thesis using ok own by (auto simp: locks_owned_def)
  next
    case read_inner
    then show ?thesis using ok ok' own by (auto simp: locks_owned_def)
  next
    case write_inner
    then show ?thesis using ok ok' own by (auto simp: locks_owned_def)
  next
    case drop_outer
    then show ?thesis using ok own by (auto simp: locks_owned_def)
  next
    case drop_read
    then show ?thesis using ok ok' own by (auto simp: locks_owned_def)
  next
    case drop_write
    then show ?thesis using ok ok' own by (auto simp: locks_owned_def)
  qed
qed

lemma bridge_okD:
  assumes "bridge_ok (L, A)"
  shows "locks_owned L (\<lambda>t. a_key (A t))" "actor_ok L t (A t)" "rw_ok (l_revision L key)"
  using assms by (auto simp: bridge_ok_def locks_owned_def)

lemma bridge_ok_upd:
  assumes "bridge_ok (L, A)" "locks_owned L' (\<lambda>t. a_key (A t))" "\<And>t' key. t' \<noteq> t \<Longrightarrow> held_by L' t' key = held_by L t' key"
    and "a_key a = a_key (A t)" "actor_ok L' t a"
  shows "bridge_ok (L', A(t := a))"
proof -
  have "(\<lambda>t'. a_key ((A(t := a)) t')) = (\<lambda>t'. a_key (A t'))" using assms(4) by auto
  moreover have "actor_ok L' t' (A t')" if "t' \<noteq> t" for t'
    using bridge_okD(2) [OF assms(1), of t'] unfolding actor_ok_def assms(3) [OF that] .
  ultimately show ?thesis using assms(2,5) by (simp add: bridge_ok_def)
qed

lemma actor_ok_run: "actor_ok L t a \<Longrightarrow> a_run a = Some (op, p) \<Longrightarrow> a_guard a = None \<and> disciplined op p (held_by L t (a_key a))"
  by (simp add: actor_ok_def)

lemma actor_ok_idle: "actor_ok L t a \<Longrightarrow> a_run a = None \<Longrightarrow> held_by L t (a_key a) = held_of (a_guard a)"
  by (simp add: actor_ok_def)

lemma bridge_ok_step: "bridge_step s s' \<Longrightarrow> bridge_ok s \<Longrightarrow> bridge_ok s'"
proof (induction rule: bridge_step.induct)
  case (starts A t op L)
  have "held_by L t (a_key (A t)) = held_of (needs_guard op)"
    using actor_ok_idle [OF bridge_okD(2) [OF starts(3)] starts(1)] starts(2) by simp
  then show ?case
    by (intro bridge_ok_upd [OF starts(3) bridge_okD(1) [OF starts(3)]]) (simp_all add: actor_ok_def task_disciplined)
next
  case (granted A t op c f L L')
  note run = actor_ok_run [OF bridge_okD(2) [OF granted(3)] granted(1)]
  obtain h' where h: "takes c (held_by L t (a_key (A t))) h'" "disciplined op (f Got) h'" using run by auto
  have "held_by L' t (a_key (A t)) = h'" using grant_owner [OF bridge_okD(3) [OF granted(3)] granted(2) h(1)] by blast
  then have "actor_ok L' t ((A t)\<lparr> a_run := Some (op, f Got) \<rparr>)" using run h(2) by (simp add: actor_ok_def)
  then show ?case
    using grant_owned [of L "\<lambda>t. a_key (A t)", OF bridge_okD(1) [OF granted(3)] granted(2) h(1)] grant_other [OF granted(2) h(1)]
    by (intro bridge_ok_upd [OF granted(3)]) simp_all
next
  case (busy A t op c f L)
  then show ?case using actor_ok_run [OF bridge_okD(2) [OF busy(3)] busy(1)]
    by (intro bridge_ok_upd [OF busy(3) bridge_okD(1) [OF busy(3)]]) (simp_all add: actor_ok_def)
next
  case (errs A t op c f L)
  then show ?case using actor_ok_run [OF bridge_okD(2) [OF errs(3)] errs(1)]
    by (intro bridge_ok_upd [OF errs(3) bridge_okD(1) [OF errs(3)]]) (auto simp: actor_ok_def)
next
  case (returns A t op r L)
  then show ?case using actor_ok_run [OF bridge_okD(2) [OF returns(2)] returns(1)]
    by (intro bridge_ok_upd [OF returns(2) bridge_okD(1) [OF returns(2)]]) (simp_all add: actor_ok_def)
next
  case (rekeyed A t key L)
  note own = bridge_okD(1) [OF rekeyed(3)]
  have h: "held_by L t (a_key (A t)) = held_of (a_guard (A t))" by (rule actor_ok_idle [OF bridge_okD(2) [OF rekeyed(3)] rekeyed(1)])
  then have r: "snd (held_by L t (a_key (A t))) = None" using rekeyed(2) by auto
  have rev: "t \<notin> rw_readers (l_revision L k) \<and> rw_writer (l_revision L k) \<noteq> Some t" for k
    using r own unfolding held_by_iff(4) locks_owned_def by metis
  have gw: "l_gateway L a = Some t \<longleftrightarrow> a_guard (A t) = Some TargetGuard \<and> a = rk_addr (a_key (A t))" for a
  proof -
    have "fst (held_by L t (a_key (A t))) \<longleftrightarrow> a_guard (A t) = Some TargetGuard" using h rekeyed(2) by auto
    then show ?thesis using own unfolding held_by_iff(1) locks_owned_def by metis
  qed
  let ?a = "(A t)\<lparr> a_key := key \<rparr>"
  have "rk_addr (a_key ((A(t := ?a)) t')) = a" if "l_gateway L a = Some t'" for a t'
  proof (cases "t' = t")
    case True
    then show ?thesis using that gw [of a] rekeyed(2) by simp
  next
    case False
    have "rk_addr (a_key (A t')) = a" using own that unfolding locks_owned_def by blast
    then show ?thesis using False by simp
  qed
  moreover have "a_key ((A(t := ?a)) t') = k" if "t' \<in> rw_readers (l_revision L k) \<or> rw_writer (l_revision L k) = Some t'" for k t'
  proof (cases "t' = t")
    case True
    then show ?thesis using that rev [of k] by simp
  next
    case False
    have "a_key (A t') = k" using own that unfolding locks_owned_def by blast
    then show ?thesis using False by simp
  qed
  ultimately have "locks_owned L (\<lambda>t'. a_key ((A(t := ?a)) t'))" using own unfolding locks_owned_def by blast
  moreover have "actor_ok L t ?a" using rekeyed(1,2) rev [of key] gw [of "rk_addr key"] by (auto simp: actor_ok_def held_by_def)
  ultimately show ?case using bridge_okD(2) [OF rekeyed(3)] by (simp add: bridge_ok_def)
qed

lemma bridge_reachable_ok: "bridge_reachable s \<Longrightarrow> bridge_ok s"
proof -
  assume "bridge_reachable s"
  then obtain s0 where s0: "bridge_init s0" "bridge_step\<^sup>*\<^sup>* s0 s" by (auto simp: bridge_reachable_def)
  have "bridge_ok s0" using s0(1)
    by (auto simp: bridge_init_def bridge_ok_def locks_owned_def actor_ok_def held_by_def rw_ok_def MemRWLock_new_def)
  with s0(2) show ?thesis by (induction rule: rtranclp_induct) (auto intro: bridge_ok_step)
qed

section \<open>Exclusion\<close>

definition exclusive :: "guard \<Rightarrow> bool" where
  "exclusive g \<longleftrightarrow> g \<in> {WriteGuard, TargetRevisionGuard}"

definition has_gateway :: "guard \<Rightarrow> bool" where
  "has_gateway g \<longleftrightarrow> g \<noteq> ReadGuard"

lemma guard_held:
  assumes "bridge_ok (L, A)" "a_guard (A t) = Some g"
  shows "held_by L t (a_key (A t)) = held_of (Some g)"
proof -
  have "a_run (A t) = None" using bridge_okD(2) [OF assms(1), of t] assms(2) by (auto simp: actor_ok_def split: option.splits)
  then show ?thesis using actor_ok_idle [OF bridge_okD(2) [OF assms(1)]] assms(2) by metis
qed


lemma idle_holds_nothing:
  assumes "bridge_ok (L, A)" "a_run (A t) = None" "a_guard (A t) = None"
  shows "l_gateway L a \<noteq> Some t \<and> t \<notin> rw_readers (l_revision L key) \<and> rw_writer (l_revision L key) \<noteq> Some t"
proof -
  have h: "held_by L t (a_key (A t)) = (False, None)"
    using actor_ok_idle [OF bridge_okD(2) [OF assms(1)] assms(2)] assms(3) by simp
  have "l_gateway L (rk_addr (a_key (A t))) \<noteq> Some t" using h held_by_iff(1) [of L t "a_key (A t)"] by simp
  moreover have "t \<notin> rw_readers (l_revision L (a_key (A t))) \<and> rw_writer (l_revision L (a_key (A t))) \<noteq> Some t"
    using h held_by_iff(4) [of L t "a_key (A t)"] by simp
  ultimately show ?thesis using bridge_okD(1) [OF assms(1)] unfolding locks_owned_def by metis
qed

text \<open>C5: In every reachable state two different holders never have the gateway of one target, and
  a write guard on a revision, whether acquired by \<^verbatim>\<open>write\<close>, by \<^verbatim>\<open>upgrade\<close> or under a target
  guard, excludes every other read, upgradable or write guard on that revision; an upgrade or a
  downgrade keeps the gateway until it returns or fails; and whoever has no guard and runs
  nothing, for instance after an error or a cancellation, holds no lock.\<close>
theorem bridge_exclusive:
  assumes "bridge_reachable (L, A)"
  shows "(\<forall>t t' g g'. t \<noteq> t' \<and> a_guard (A t) = Some g \<and> a_guard (A t') = Some g' \<and> has_gateway g \<and> has_gateway g'
      \<longrightarrow> rk_addr (a_key (A t)) \<noteq> rk_addr (a_key (A t')))
    \<and> (\<forall>t t' g g'. t \<noteq> t' \<and> a_guard (A t) = Some g \<and> a_guard (A t') = Some g' \<and> exclusive g \<and> g' \<noteq> TargetGuard
      \<longrightarrow> a_key (A t) \<noteq> a_key (A t'))
    \<and> (\<forall>t op c f. a_run (A t) = Some (op, Awaits c f) \<and> op \<in> {BUpgrade, BDowngrade}
      \<longrightarrow> l_gateway L (rk_addr (a_key (A t))) = Some t)
    \<and> (\<forall>t a key. a_run (A t) = None \<and> a_guard (A t) = None
      \<longrightarrow> l_gateway L a \<noteq> Some t \<and> t \<notin> rw_readers (l_revision L key) \<and> rw_writer (l_revision L key) \<noteq> Some t)"
proof -
  have ok: "bridge_ok (L, A)" using assms by (rule bridge_reachable_ok)
  have gw: "l_gateway L (rk_addr (a_key (A t))) = Some t" if "a_guard (A t) = Some g" "has_gateway g" for t g
    using guard_held [OF ok that(1)] that(2) by (cases g) (auto simp: held_by_def has_gateway_def)
  have ex: "rw_writer (l_revision L (a_key (A t))) = Some t" if "a_guard (A t) = Some g" "exclusive g" for t g
    using guard_held [OF ok that(1)] that(2) by (auto simp: exclusive_def held_by_def split: if_splits)
  have inner: "t \<in> rw_readers (l_revision L (a_key (A t))) \<or> rw_writer (l_revision L (a_key (A t))) = Some t"
    if "a_guard (A t) = Some g" "g \<noteq> TargetGuard" for t g
    using guard_held [OF ok that(1)] that(2) by (cases g) (auto simp: held_by_def split: if_splits)
  have "a_key (A t) \<noteq> a_key (A t')"
    if "t \<noteq> t'" "a_guard (A t) = Some g" "a_guard (A t') = Some g'" "exclusive g" "g' \<noteq> TargetGuard" for t t' g g'
    using ex [OF that(2,4)] inner [OF that(3,5)] bridge_okD(3) [OF ok, of "a_key (A t)"] that(1) by (auto simp: rw_ok_def)
  moreover have "l_gateway L (rk_addr (a_key (A t))) = Some t" if "a_run (A t) = Some (op, Awaits c f)" "op \<in> {BUpgrade, BDowngrade}" for t op c f
    using actor_ok_run [OF bridge_okD(2) [OF ok] that(1)] that(2) unfolding held_by_iff(1) [symmetric] disciplined.simps by blast
  moreover have "l_gateway L a \<noteq> Some t \<and> t \<notin> rw_readers (l_revision L key) \<and> rw_writer (l_revision L key) \<noteq> Some t"
    if "a_run (A t) = None" "a_guard (A t) = None" for t a key
    using idle_holds_nothing [OF ok that] by blast
  moreover have "rk_addr (a_key (A t)) \<noteq> rk_addr (a_key (A t'))"
    if "t \<noteq> t'" "a_guard (A t) = Some g" "a_guard (A t') = Some g'" "has_gateway g" "has_gateway g'" for t t' g g'
    using gw [OF that(2,4)] gw [OF that(3,5)] that(1) by auto
  ultimately show ?thesis by blast
qed

section \<open>Waiting\<close>









section \<open>Undisturbed operations\<close>

primrec run_task :: "nat \<Rightarrow> RevisionKey \<Rightarrow> task \<Rightarrow> Locks \<Rightarrow> (acquired \<times> Locks) option" where
  "run_task t key (Returns r) L = Some (r, L)"
| "run_task t key (Awaits c f) L = (case grant t key c L of None \<Rightarrow> None | Some L' \<Rightarrow> run_task t key (f Got) L')"

definition do_bridge_op :: "nat \<Rightarrow> bridge_op \<Rightarrow> bridge_system \<Rightarrow> bridge_system option" where
  "do_bridge_op t op = (\<lambda>(L, A). map_option (\<lambda>(r, L'). (L', A(t := (A t)\<lparr> a_guard := guard_after op r, a_run := None \<rparr>)))
     (run_task t (a_key (A t)) (bridge_task op) L))"

lemma run_task_steps:
  "a_run (A t) = Some (op, p) \<Longrightarrow> run_task t (a_key (A t)) p L = Some (r, L') \<Longrightarrow>
    bridge_step\<^sup>*\<^sup>* (L, A) (L', A(t := (A t)\<lparr> a_run := Some (op, Returns r) \<rparr>))"
proof (induction p arbitrary: L A)
  case (Returns x)
  then have "A(t := (A t)\<lparr> a_run := Some (op, Returns r) \<rparr>) = A" by (auto simp: fun_eq_iff)
  then show ?case using Returns by simp
next
  case (Awaits c f)
  obtain L1 where g: "grant t (a_key (A t)) c L = Some L1" "run_task t (a_key (A t)) (f Got) L1 = Some (r, L')"
    using Awaits.prems(2) by (auto split: option.splits)
  define A1 where "A1 = A(t := (A t)\<lparr> a_run := Some (op, f Got) \<rparr>)"
  have step: "bridge_step (L, A) (L1, A1)" unfolding A1_def using Awaits.prems(1) g(1) by (rule bridge_step.granted)
  have "bridge_step\<^sup>*\<^sup>* (L1, A1) (L', A1(t := (A1 t)\<lparr> a_run := Some (op, Returns r) \<rparr>))"
    by (rule Awaits.IH [OF rangeI]) (use g(2) in \<open>simp_all add: A1_def\<close>)
  moreover have "A1(t := (A1 t)\<lparr> a_run := Some (op, Returns r) \<rparr>) = A(t := (A t)\<lparr> a_run := Some (op, Returns r) \<rparr>)"
    by (simp add: A1_def)
  ultimately show ?case using converse_rtranclp_into_rtranclp [of bridge_step, OF step] by metis
qed

lemma do_bridge_op_reachable:
  assumes "bridge_reachable (L, A)" "a_run (A t) = None" "a_guard (A t) = needs_guard op" "do_bridge_op t op (L, A) = Some s"
  shows "bridge_reachable s"
proof -
  obtain r L' where r: "run_task t (a_key (A t)) (bridge_task op) L = Some (r, L')"
    "s = (L', A(t := (A t)\<lparr> a_guard := guard_after op r, a_run := None \<rparr>))"
    using assms(4) by (auto simp: do_bridge_op_def)
  define A1 where "A1 = A(t := (A t)\<lparr> a_guard := None, a_run := Some (op, bridge_task op) \<rparr>)"
  define A2 where "A2 = A1(t := (A1 t)\<lparr> a_run := Some (op, Returns r) \<rparr>)"
  have s1: "bridge_step (L, A) (L, A1)" unfolding A1_def using assms(2,3) by (rule bridge_step.starts)
  have s2: "bridge_step\<^sup>*\<^sup>* (L, A1) (L', A2)" unfolding A2_def by (rule run_task_steps) (use r(1) in \<open>simp_all add: A1_def\<close>)
  have "bridge_step (L', A2) (L', A2(t := (A2 t)\<lparr> a_guard := guard_after op r, a_run := None \<rparr>))"
    by (rule bridge_step.returns) (simp add: A2_def)
  moreover have "A2(t := (A2 t)\<lparr> a_guard := guard_after op r, a_run := None \<rparr>) = A(t := (A t)\<lparr> a_guard := guard_after op r, a_run := None \<rparr>)"
    by (simp add: A2_def A1_def)
  ultimately have s3: "bridge_step (L', A2) s" using r(2) by simp
  have "bridge_step\<^sup>*\<^sup>* (L, A) s"
    by (rule rtranclp.rtrancl_into_rtrancl [OF converse_rtranclp_into_rtranclp [of bridge_step, OF s1 s2] s3])
  then show ?thesis using assms(1) unfolding bridge_reachable_def by (meson rtranclp_trans)
qed

definition demo_rev :: "rstr \<Rightarrow> RevisionKey" where
  "demo_rev h = \<lparr> rk_addr = \<lparr> addr_package = u ''p'', addr_name = u ''t'', addr_args = [] \<rparr>, rk_hashin = h \<rparr>"

definition demo_locks :: Locks where
  "demo_locks = \<lparr> l_gateway = (\<lambda>_. None), l_revision = (\<lambda>_. MemRWLock_new) \<rparr>"

definition demo_actors :: "nat \<Rightarrow> Actor" where
  "demo_actors = (\<lambda>_. \<lparr> a_key = demo_rev (u ''h''), a_guard = None, a_run = None \<rparr>)"

text \<open>Actor 0 writes, actor 1 then asks for a read of the same revision.\<close>

definition demo_written :: Locks where
  "demo_written = demo_locks\<lparr> l_gateway := (\<lambda>_. None)(rk_addr (demo_rev (u ''h'')) := Some 0),
     l_revision := (\<lambda>_. MemRWLock_new)(demo_rev (u ''h'') := \<lparr> rw_readers = {}, rw_writer = Some 0 \<rparr>) \<rparr>"

definition demo_holder :: "nat \<Rightarrow> Actor" where
  "demo_holder = demo_actors(0 := (demo_actors 0)\<lparr> a_guard := Some WriteGuard \<rparr>)"


lemma demo_written_reachable: "bridge_reachable (demo_written, demo_holder)"
proof (rule do_bridge_op_reachable)
  show "bridge_reachable (demo_locks, demo_actors)"
    unfolding bridge_reachable_def
    by (rule exI [of _ "(demo_locks, demo_actors)"]) (simp add: bridge_init_def demo_locks_def demo_actors_def)
  show "do_bridge_op 0 BWrite (demo_locks, demo_actors) = Some (demo_written, demo_holder)"
    by (simp add: do_bridge_op_def bridge_write_def demo_locks_def demo_actors_def demo_written_def demo_holder_def
        mem_try_lock_def mem_try_write_def MemRWLock_new_def)
qed (simp_all add: demo_actors_def)


theorem bridge_exclusive_witness:
  "bridge_reachable (demo_written, demo_holder) \<and> a_guard (demo_holder 0) = Some WriteGuard \<and> exclusive WriteGuard
    \<and> l_gateway demo_written (rk_addr (demo_rev (u ''h''))) \<noteq> Some 1"
proof -
  have g: "a_guard (demo_holder 0) = Some WriteGuard" "a_run (demo_holder 1) = None" "a_guard (demo_holder 1) = None"
    by (simp_all add: demo_holder_def demo_actors_def)
  then show ?thesis using bridge_exclusive [OF demo_written_reachable] demo_written_reachable by (simp add: exclusive_def)
qed


end
