(* ===== verification/Keyed.thy ===== *)
theory Keyed
  imports Prelude
begin

text \<open>
  The registry of keyed locks (lock/hlock/keyed.rs).  A key maps to a weak pointer to its cell; the
  handles and guards in flight are the strong references.  A cell whose last reference is gone
  removes its entry itself, at some later moment, because dropping the last reference and the
  clean-up under the mutex are not one step.

  The operations that hold the mutex are functions; their interleaving with the dropping of
  references is a step relation.
\<close>

record 'k Registry =
  r_cells :: "'k \<Rightarrow> nat option"
  r_key :: "nat \<Rightarrow> 'k"
  r_strong :: "nat \<Rightarrow> nat"
  r_dropping :: "nat set"
  r_next :: nat

definition Registry_new :: "'k \<Rightarrow> 'k Registry" where
  "Registry_new dflt = \<lparr> r_cells = (\<lambda>_. None), r_key = (\<lambda>_. dflt), r_strong = (\<lambda>_. 0), r_dropping = {}, r_next = 0 \<rparr>"

definition cell_new :: "'k \<Rightarrow> 'k Registry \<Rightarrow> nat \<times> 'k Registry" where
  "cell_new key r = (let c = r_next r
     in (c, r\<lparr> r_cells := (r_cells r)(key := Some c), r_key := (r_key r)(c := key), r_strong := (r_strong r)(c := 1), r_next := c + 1 \<rparr>))"

definition cell :: "'k \<Rightarrow> 'k Registry \<Rightarrow> nat \<times> 'k Registry" where
  "cell key r = (case r_cells r key of
     Some c \<Rightarrow> if r_strong r c > 0 then (c, r\<lparr> r_strong := (r_strong r)(c := r_strong r c + 1) \<rparr>) else cell_new key r
   | None \<Rightarrow> cell_new key r)"

text \<open>Cloning and dropping a reference.\<close>

definition clone_ref :: "nat \<Rightarrow> 'k Registry \<Rightarrow> 'k Registry" where
  "clone_ref c r = r\<lparr> r_strong := (r_strong r)(c := r_strong r c + 1) \<rparr>"

definition drop_ref :: "nat \<Rightarrow> 'k Registry \<Rightarrow> 'k Registry" where
  "drop_ref c r = r\<lparr> r_strong := (r_strong r)(c := r_strong r c - 1),
     r_dropping := (if r_strong r c = 1 then insert c (r_dropping r) else r_dropping r) \<rparr>"

text \<open>\<^verbatim>\<open>LockCell::drop\<close>.\<close>

definition cell_drop :: "nat \<Rightarrow> 'k Registry \<Rightarrow> 'k Registry" where
  "cell_drop c r = (let r = r\<lparr> r_dropping := r_dropping r - {c} \<rparr>
     in if (case r_cells r (r_key r c) of Some w \<Rightarrow> r_strong r w = 0 | None \<Rightarrow> False)
        then r\<lparr> r_cells := (r_cells r)(r_key r c := None) \<rparr> else r)"

inductive registry_step :: "'k Registry \<Rightarrow> 'k Registry \<Rightarrow> bool" where
  "registry_step r (snd (cell key r))"
| "r_strong r c > 0 \<Longrightarrow> registry_step r (clone_ref c r)"
| "r_strong r c > 0 \<Longrightarrow> registry_step r (drop_ref c r)"
| "c \<in> r_dropping r \<Longrightarrow> registry_step r (cell_drop c r)"

definition registry_reachable :: "'k Registry \<Rightarrow> bool" where
  "registry_reachable r \<longleftrightarrow> (\<exists>dflt. registry_step\<^sup>*\<^sup>* (Registry_new dflt) r)"

definition registry_ok :: "'k Registry \<Rightarrow> bool" where
  "registry_ok r \<longleftrightarrow> (\<forall>c. r_strong r c > 0 \<longrightarrow> r_cells r (r_key r c) = Some c)
     \<and> (\<forall>key c. r_cells r key = Some c \<longrightarrow> r_key r c = key \<and> c < r_next r \<and> (r_strong r c = 0 \<longrightarrow> c \<in> r_dropping r))
     \<and> (\<forall>c\<in>r_dropping r. r_strong r c = 0 \<and> c < r_next r)
     \<and> (\<forall>c. c \<ge> r_next r \<longrightarrow> r_strong r c = 0)"

lemma registry_okD:
  assumes "registry_ok r"
  shows "r_strong r c > 0 \<Longrightarrow> r_cells r (r_key r c) = Some c"
    and "r_cells r key = Some c \<Longrightarrow> r_key r c = key"
    and "r_cells r key = Some c \<Longrightarrow> c < r_next r"
    and "r_cells r key = Some c \<Longrightarrow> r_strong r c = 0 \<Longrightarrow> c \<in> r_dropping r"
    and "c \<in> r_dropping r \<Longrightarrow> r_strong r c = 0"
    and "c \<in> r_dropping r \<Longrightarrow> c < r_next r"
    and "c \<ge> r_next r \<Longrightarrow> r_strong r c = 0"
  using assms unfolding registry_ok_def by blast+

lemma registry_ok_next:
  assumes "registry_ok r"
  shows "r_strong r c > 0 \<Longrightarrow> c < r_next r" "r_cells r key \<noteq> Some (r_next r)" "r_next r \<notin> r_dropping r"
proof -
  show "c < r_next r" if "r_strong r c > 0" using registry_okD(7) [OF assms, of c] that by (cases "c < r_next r") auto
  show "r_cells r key \<noteq> Some (r_next r)" using registry_okD(3) [OF assms, of key "r_next r"] by blast
  show "r_next r \<notin> r_dropping r" using registry_okD(6) [OF assms, of "r_next r"] by blast
qed

lemma cell_new_ok:
  assumes "registry_ok r" "\<And>c. r_cells r key = Some c \<Longrightarrow> r_strong r c = 0"
  shows "registry_ok (snd (cell_new key r))"
proof -
  have "r_key r c \<noteq> key" if "r_strong r c > 0" for c using registry_okD(1) [OF assms(1) that] assms(2) that by auto
  then show ?thesis using registry_okD [OF assms(1)] registry_ok_next [OF assms(1)]
    by (auto simp: registry_ok_def cell_new_def Let_def less_SucI)
qed

lemma clone_ref_ok: "registry_ok r \<Longrightarrow> r_strong r c > 0 \<Longrightarrow> registry_ok (clone_ref c r)"
  unfolding registry_ok_def clone_ref_def by simp (metis less_irrefl)

lemma cell_ok:
  assumes "registry_ok r"
  shows "registry_ok (snd (cell key r))"
proof (cases "\<exists>c. r_cells r key = Some c \<and> r_strong r c > 0")
  case True
  then obtain c where c: "r_cells r key = Some c" "r_strong r c > 0" by blast
  then have "snd (cell key r) = clone_ref c r" by (simp add: cell_def clone_ref_def)
  then show ?thesis using clone_ref_ok [OF assms c(2)] by simp
next
  case False
  then have "cell key r = cell_new key r" by (auto simp: cell_def split: option.splits)
  then show ?thesis using cell_new_ok [OF assms, of key] False by auto
qed

lemma registry_step_ok: "registry_step r r' \<Longrightarrow> registry_ok r \<Longrightarrow> registry_ok r'"
proof (induction rule: registry_step.induct)
  case (1 r key)
  then show ?case by (rule cell_ok)
next
  case (2 r c)
  then show ?case by (simp add: clone_ref_ok)
next
  case (3 r c)
  then show ?case using registry_okD [OF 3(2)] registry_ok_next(1) [OF 3(2)] by (auto simp: registry_ok_def drop_ref_def)
next
  case (4 c r)
  have s: "r_strong r c = 0" using registry_okD(5) [OF 4(2,1)] .
  show ?case
  proof (cases "\<exists>w. r_cells r (r_key r c) = Some w \<and> r_strong r w = 0")
    case True
    then have "cell_drop c r = r\<lparr> r_dropping := r_dropping r - {c}, r_cells := (r_cells r)(r_key r c := None) \<rparr>"
      by (auto simp: cell_drop_def Let_def)
    moreover have "r_key r c' \<noteq> r_key r c" if "r_strong r c' > 0" for c'
      using registry_okD(1) [OF 4(2) that] True that by auto
    moreover have "c' \<noteq> c" if "r_cells r key = Some c'" "key \<noteq> r_key r c" for c' key
      using registry_okD(2) [OF 4(2) that(1)] that(2) by auto
    ultimately show ?thesis using registry_okD [OF 4(2)] s by (auto simp: registry_ok_def)
  next
    case False
    then have e: "cell_drop c r = r\<lparr> r_dropping := r_dropping r - {c} \<rparr>"
      by (auto simp: cell_drop_def Let_def split: option.splits)
    have "c' \<noteq> c" if "r_cells r key = Some c'" for c' key
      using registry_okD(2) [OF 4(2) that] that False s by auto
    then show ?thesis using registry_okD [OF 4(2)] unfolding e by (auto simp: registry_ok_def)
  qed
qed

lemma registry_reachable_ok: "registry_reachable r \<Longrightarrow> registry_ok r"
proof -
  assume "registry_reachable r"
  then obtain dflt where "registry_step\<^sup>*\<^sup>* (Registry_new dflt) r" by (auto simp: registry_reachable_def)
  then show ?thesis
  proof (induction rule: rtranclp_induct)
    case base
    then show ?case by (simp add: registry_ok_def Registry_new_def)
  next
    case (step y z)
    show ?case using step(2,3) by (rule registry_step_ok)
  qed
qed

text \<open>C29: All the handles and guards of a key that exist at one time share one lock instance,
  however acquiring, dropping and the clean-up of dead cells interleave; and the registry cleans
  itself up: once nothing refers to a cell and no clean-up is pending, it has no entry.\<close>
theorem keyed_one_instance:
  assumes "registry_reachable r"
  shows "(\<forall>c c'. r_strong r c > 0 \<and> r_strong r c' > 0 \<and> r_key r c = r_key r c' \<longrightarrow> c = c')
    \<and> (\<forall>key. r_strong r (fst (cell key r)) > 0 \<longrightarrow> snd (cell key r) = clone_ref (fst (cell key r)) r)
    \<and> ((\<forall>c. r_strong r c = 0) \<and> r_dropping r = {} \<longrightarrow> r_cells r = (\<lambda>_. None))"
proof -
  have ok: "registry_ok r" using assms by (rule registry_reachable_ok)
  have "c = c'" if "r_strong r c > 0" "r_strong r c' > 0" "r_key r c = r_key r c'" for c c'
    using trans [OF sym [OF registry_okD(1) [OF ok that(1)]], of "Some c'"] registry_okD(1) [OF ok that(2)] that(3) by simp
  moreover have "snd (cell key r) = clone_ref (fst (cell key r)) r" if "r_strong r (fst (cell key r)) > 0" for key
    using that registry_okD(7) [OF ok, of "r_next r"]
    by (cases "r_cells r key") (auto simp: cell_def cell_new_def Let_def clone_ref_def split: if_splits)
  moreover have "r_cells r = (\<lambda>_. None)" if "\<forall>c. r_strong r c = 0" "r_dropping r = {}"
  proof
    fix key
    show "r_cells r key = None" using registry_okD(4) [OF ok, of key] that by (cases "r_cells r key") auto
  qed
  ultimately show ?thesis by blast
qed

text \<open>A cell dies, its key is taken again before the clean-up, and the clean-up leaves the new entry.\<close>

definition demo_registry :: "nat Registry" where
  "demo_registry = snd (cell 7 (drop_ref 0 (snd (cell 7 (Registry_new 0)))))"

lemma demo_registry_reachable: "registry_reachable (cell_drop 0 demo_registry)"
proof -
  let ?r1 = "snd (cell 7 (Registry_new 0)) :: nat Registry"
  have "registry_step (Registry_new 0) ?r1" by (rule registry_step.intros)
  moreover have "registry_step ?r1 (drop_ref 0 ?r1)"
    by (rule registry_step.intros) (simp add: cell_def cell_new_def Registry_new_def)
  moreover have "registry_step (drop_ref 0 ?r1) demo_registry" unfolding demo_registry_def by (rule registry_step.intros)
  moreover have "registry_step demo_registry (cell_drop 0 demo_registry)"
    by (rule registry_step.intros) (simp add: demo_registry_def cell_def cell_new_def Registry_new_def drop_ref_def)
  ultimately have "registry_step\<^sup>*\<^sup>* (Registry_new 0) (cell_drop 0 demo_registry)"
    by (meson converse_rtranclp_into_rtranclp rtranclp.rtrancl_refl)
  then show ?thesis by (auto simp: registry_reachable_def)
qed

theorem keyed_one_instance_witness:
  "registry_reachable (cell_drop 0 demo_registry) \<and> r_cells (cell_drop 0 demo_registry) 7 = Some 1
    \<and> fst (cell 7 (cell_drop 0 demo_registry)) = 1
    \<and> snd (cell 7 (cell_drop 0 demo_registry)) = clone_ref 1 (cell_drop 0 demo_registry)"
proof -
  have v: "r_cells (cell_drop 0 demo_registry) 7 = Some 1" "fst (cell 7 (cell_drop 0 demo_registry)) = 1"
    "r_strong (cell_drop 0 demo_registry) 1 > 0"
    by (simp_all add: demo_registry_def cell_def cell_new_def Registry_new_def drop_ref_def cell_drop_def)
  show ?thesis using keyed_one_instance [OF demo_registry_reachable] demo_registry_reachable v by auto
qed

end
