(* ===== verification/Result_Lock.thy ===== *)
theory Result_Lock
  imports Utf8 Lock_Bridge Keyed Capacity
begin

text \<open>
  The engine's lock on a target's cache entry (engine/result_lock.rs), outside the bridge it
  composes: the names of the lock files, the pid a holder stamps into the gateway file, and what a
  waiter reports of whom it waits for.

  The stamp is written through the held descriptor (\<open>WriteContents\<close> of theory Flock), after the file
  was emptied on acquiring the gateway, and it is read by other processes at any moment, without a
  lock.  A digest is a parameter, as in theory Addr.
\<close>

section \<open>Lock files\<close>

definition outer_lock_path :: "(rstr \<Rightarrow> 64 word) \<Rightarrow> rstr \<Rightarrow> AddrInner \<Rightarrow> rstr" where
  "outer_lock_path xxh3 dir addr = dir @ u ''/'' @ hash_str xxh3 addr @ u ''.outer.lock''"

definition execute_lock_path :: "(rstr \<Rightarrow> 64 word) \<Rightarrow> rstr \<Rightarrow> AddrInner \<Rightarrow> rstr" where
  "execute_lock_path xxh3 dir addr = dir @ u ''/'' @ hash_str xxh3 addr @ u ''.execute.lock''"

definition inner_lock_path :: "(rstr \<Rightarrow> 64 word) \<Rightarrow> rstr \<Rightarrow> AddrInner \<Rightarrow> rstr \<Rightarrow> rstr" where
  "inner_lock_path xxh3 dir addr hashin =
     dir @ u ''/'' @ hash_str xxh3 addr @ u ''.'' @ fmt_hex (unat (xxh3 hashin)) @ u ''.inner.lock''"

section \<open>The pid stamp\<close>


definition blank_stamp :: rstr where "blank_stamp = []"

definition U32_MAX :: nat where "U32_MAX = 4294967295"

text \<open>\<^verbatim>\<open>str::parse::<u32>\<close>: digits with an optional plus sign.\<close>

definition parse_u32 :: "rstr \<Rightarrow> nat option" where
  "parse_u32 s = (let ds = (case s of c # cs \<Rightarrow> if c = 43 then cs else s | [] \<Rightarrow> [])
     in if ds \<noteq> [] \<and> list_all is_ascii_digit ds \<and> digits_val ds \<le> U32_MAX then Some (digits_val ds) else None)"

definition MAX_STAMP :: nat where "MAX_STAMP = 64"

text \<open>\<open>None\<close> is a file that cannot be opened.\<close>

definition read_pid :: "rstr option \<Rightarrow> nat option" where
  "read_pid contents = (case contents of
     None \<Rightarrow> None
   | Some bytes \<Rightarrow> (case from_utf8 (take MAX_STAMP bytes) of
       None \<Rightarrow> None
     | Some s \<Rightarrow> (case split_once c_newline s of
         None \<Rightarrow> None
       | Some (line, _) \<Rightarrow> parse_u32 (trim line))))"

datatype LockBackend = Fs | Mem

text \<open>\<open>held\<close> is the answer of \<^verbatim>\<open>is_path_held\<close> on the gateway file, \<open>contents\<close> what it holds when it is
  read afterwards.\<close>

definition holder_pid :: "LockBackend \<Rightarrow> nat \<Rightarrow> (io_error + bool) \<Rightarrow> rstr option \<Rightarrow> nat option" where
  "holder_pid backend me held contents = (case backend of
     Fs \<Rightarrow> (case held of Ok True \<Rightarrow> read_pid contents | _ \<Rightarrow> None)
   | Mem \<Rightarrow> Some me)"

text \<open>\<open>locked\<close> is the answer of \<^verbatim>\<open>is_path_locked\<close> on the revision's file, or whether
  \<^verbatim>\<open>try_write\<close> found the in-memory lock in use.\<close>

definition revision_in_use :: "(io_error + bool) \<Rightarrow> bool" where
  "revision_in_use locked = (case locked of Ok b \<Rightarrow> b | Err _ \<Rightarrow> False)"

definition wait_holder :: "LockBackend \<Rightarrow> nat \<Rightarrow> (io_error + bool) \<Rightarrow> rstr option \<Rightarrow> (io_error + bool) option \<Rightarrow> nat option \<times> bool" where
  "wait_holder backend me held contents locked =
     (let pid = (case holder_pid backend me held contents of
           Some p \<Rightarrow> if p \<noteq> me \<or> backend = Mem then Some p else None
         | None \<Rightarrow> None)
      in if pid = None \<and> (case locked of Some l \<Rightarrow> revision_in_use l | None \<Rightarrow> False) then (None, True) else (pid, False))"

section \<open>What a reader of the stamp can see\<close>














text \<open>A waiter never names itself as the holder of a file lock, and reports readers only when it has no
  pid to name.\<close>

lemma wait_holder_not_self:
  "fst (wait_holder Fs me held contents locked) \<noteq> Some me"
  "snd (wait_holder backend me held contents locked) \<Longrightarrow> fst (wait_holder backend me held contents locked) = None"
  by (auto simp: wait_holder_def Let_def split: if_splits option.splits)

end
