(* ===== verification/Log_Tail.thy ===== *)
theory Log_Tail
  imports Utf8
begin

text \<open>
  The tail of a failed run's log (plugin/error.rs): the last lines with the line number they start
  at, taken from the whole text (\<^verbatim>\<open>last_n_lines_with_start\<close>) or read backwards from the end of the
  file in chunks (\<^verbatim>\<open>read_tail_at\<close>).

  The file is read by positional reads that may be short, interrupted or fail; \<open>reader\<close> gives the
  reply to the call with a number, a buffer length and an offset, and \<open>reads_file\<close> says that the
  replies come from a file.  An interrupted read is made again, so reading is a partial function,
  \<open>None\<close> when it never ends.
\<close>

section \<open>The tail of a text\<close>

record LogTail =
  lt_text :: rstr
  lt_start_line :: nat

definition last_n_lines_with_start :: "rstr \<Rightarrow> nat \<Rightarrow> rstr \<times> nat" where
  "last_n_lines_with_start s n = (let lines = text_lines s; start = length lines - n
     in (join_with c_newline (drop start lines), start + 1))"

definition last_n_lines :: "rstr \<Rightarrow> nat \<Rightarrow> rstr" where
  "last_n_lines s n = fst (last_n_lines_with_start s n)"

section \<open>Reading it from the end of a file\<close>

definition TAIL_CHUNK :: nat where "TAIL_CHUNK = 8 * 1024"

definition COUNT_CHUNK :: nat where "COUNT_CHUNK = 64 * 1024"

datatype read_reply = RBytes "nat list" | RInterrupted | RFailed

datatype tail_error = LogShrank | ReadFailed

type_synonym reader = "nat \<Rightarrow> nat \<Rightarrow> nat \<Rightarrow> read_reply"

text \<open>The value carries the number of calls made.\<close>

partial_function (option) read_exact_at :: "reader \<Rightarrow> nat \<Rightarrow> nat \<Rightarrow> nat \<Rightarrow> nat list \<Rightarrow> ((tail_error + nat list) \<times> nat) option" where
  "read_exact_at read_at calls len off buf = (if len = 0 then Some (Ok buf, calls)
     else case read_at calls len off of
       RBytes bs \<Rightarrow> if bs = [] then Some (Err LogShrank, calls + 1)
         else read_exact_at read_at (calls + 1) (len - length bs) (off + length bs) (buf @ bs)
     | RInterrupted \<Rightarrow> read_exact_at read_at (calls + 1) len off buf
     | RFailed \<Rightarrow> Some (Err ReadFailed, calls + 1))"

text \<open>The n-th line break from the end, counting from zero.\<close>

definition nth_break :: "nat list \<Rightarrow> nat \<Rightarrow> nat option" where
  "nth_break body n = map_option fst (get_at (filter (\<lambda>(_, b). b = c_newline) (rev (enumerate 0 body))) n)"

function tail_loop :: "reader \<Rightarrow> nat \<Rightarrow> nat \<Rightarrow> nat \<Rightarrow> nat list \<Rightarrow> ((tail_error + nat \<times> nat list) \<times> nat) option" where
  "tail_loop read_at calls n start window =
     (let trailing = of_bool (window \<noteq> [] \<and> last window = c_newline);
          body = take (length window - trailing) window
      in case nth_break body (n - 1) of
           Some i \<Rightarrow> Some (Ok (start + i + 1, drop (i + 1) window), calls)
         | None \<Rightarrow> if start = 0 then Some (Ok (0, window), calls)
             else let chunk_len = min start TAIL_CHUNK; off = start - chunk_len
               in (case read_exact_at read_at calls chunk_len off [] of
                     None \<Rightarrow> None
                   | Some (Err e, calls) \<Rightarrow> Some (Err e, calls)
                   | Some (Ok chunk, calls) \<Rightarrow> tail_loop read_at calls n off (chunk @ window)))"
  by pat_completeness auto

termination
  by (relation "measure (\<lambda>(read_at, calls, n, start, window). start)") (auto simp: TAIL_CHUNK_def)

declare tail_loop.simps [simp del]

definition tail_window :: "reader \<Rightarrow> nat \<Rightarrow> nat \<Rightarrow> nat \<Rightarrow> ((tail_error + nat \<times> nat list) \<times> nat) option" where
  "tail_window read_at calls len n = (if n = 0 then Some (Ok (len, []), calls) else tail_loop read_at calls n len [])"

function count_loop :: "reader \<Rightarrow> nat \<Rightarrow> nat \<Rightarrow> nat \<Rightarrow> nat \<Rightarrow> ((tail_error + nat) \<times> nat) option" where
  "count_loop read_at calls cut_off off prefix_lines = (if off < cut_off then
     (let want = min (cut_off - off) COUNT_CHUNK
      in case read_exact_at read_at calls want off [] of
           None \<Rightarrow> None
         | Some (Err e, calls) \<Rightarrow> Some (Err e, calls)
         | Some (Ok got, calls) \<Rightarrow> count_loop read_at calls cut_off (off + want) (prefix_lines + count_list got c_newline))
     else Some (Ok prefix_lines, calls))"
  by pat_completeness auto

termination
  by (relation "measure (\<lambda>(read_at, calls, cut_off, off, lines). cut_off - off)") (auto simp: COUNT_CHUNK_def)

declare count_loop.simps [simp del]

text \<open>The two ends of \<^verbatim>\<open>read_tail_at\<close>: no lines are shown and the line number is one past the last, or
  the lines of the window are.\<close>

definition next_line :: "reader \<Rightarrow> nat \<Rightarrow> nat \<Rightarrow> nat \<Rightarrow> (tail_error + LogTail) option" where
  "next_line read_at len prefix_lines calls = (if len > 0 then (case read_exact_at read_at calls 1 (len - 1) [] of
       None \<Rightarrow> None
     | Some (Err e, _) \<Rightarrow> Some (Err e)
     | Some (Ok byte, _) \<Rightarrow> Some (Ok \<lparr> lt_text = [], lt_start_line = prefix_lines + of_bool (byte \<noteq> [c_newline]) + 1 \<rparr>))
     else Some (Ok \<lparr> lt_text = [], lt_start_line = prefix_lines + 1 \<rparr>))"

definition window_lines :: "nat \<Rightarrow> nat list \<Rightarrow> nat \<Rightarrow> LogTail" where
  "window_lines n window prefix_lines = (case last_n_lines_with_start (from_utf8_lossy window) n of
     (text, local_start) \<Rightarrow> \<lparr> lt_text = text, lt_start_line = prefix_lines + local_start \<rparr>)"

definition tail_of_window :: "reader \<Rightarrow> nat \<Rightarrow> nat \<Rightarrow> nat \<times> nat list \<Rightarrow> nat \<Rightarrow> (tail_error + LogTail) option" where
  "tail_of_window read_at len n = (\<lambda>(cut_off, window) calls. case count_loop read_at calls cut_off 0 0 of
     None \<Rightarrow> None
   | Some (Err e, _) \<Rightarrow> Some (Err e)
   | Some (Ok prefix_lines, calls) \<Rightarrow>
       if n = 0 then next_line read_at len prefix_lines calls else Some (Ok (window_lines n window prefix_lines)))"

definition read_tail_at :: "reader \<Rightarrow> nat \<Rightarrow> nat \<Rightarrow> (tail_error + LogTail) option" where
  "read_tail_at read_at len n = (case tail_window read_at 0 len n of
     None \<Rightarrow> None
   | Some (Err e, _) \<Rightarrow> Some (Err e)
   | Some (Ok v, calls) \<Rightarrow> tail_of_window read_at len n v calls)"

section \<open>A file behind the reads\<close>

definition reads_file :: "reader \<Rightarrow> nat list \<Rightarrow> bool" where
  "reads_file read_at data \<longleftrightarrow> (\<forall>i len off bs. read_at i len off = RBytes bs \<longrightarrow>
     (\<exists>k\<le>len. bs = take k (drop off data)) \<and> (len > 0 \<and> off < length data \<longrightarrow> bs \<noteq> []))"

definition reads_succeed :: "reader \<Rightarrow> bool" where
  "reads_succeed read_at \<longleftrightarrow> (\<forall>i len off. read_at i len off \<noteq> RFailed)
     \<and> (\<forall>i. \<exists>j\<ge>i. \<forall>len off. read_at j len off \<noteq> RInterrupted)"

section \<open>What the reads give\<close>

text \<open>A result of reading: right when it is a value, and not a value only for a reader that fails or
  is interrupted for ever.\<close>

definition yields :: "reader \<Rightarrow> ((tail_error + 'a) \<times> nat) option \<Rightarrow> ('a \<Rightarrow> bool) \<Rightarrow> bool" where
  "yields read_at result P \<longleftrightarrow> (case result of
     None \<Rightarrow> \<not> reads_succeed read_at
   | Some (Err e, _) \<Rightarrow> e = ReadFailed \<and> \<not> reads_succeed read_at
   | Some (Ok v, _) \<Rightarrow> P v)"

lemma read_exact_at_value:
  assumes "read_exact_at read_at calls len off buf = Some y" "reads_file read_at data" "off + len \<le> length data"
  shows "case fst y of Ok v \<Rightarrow> v = buf @ take len (drop off data) | Err e \<Rightarrow> e = ReadFailed \<and> \<not> reads_succeed read_at"
  using assms
proof (induction rule: read_exact_at.raw_induct [rotated 1, consumes 1])
  case (1 self read_at calls len off buf y)
  show ?case
  proof (cases "len = 0")
    case True

    show ?thesis using 1(2) True by auto
  next
    case pos: False
    show ?thesis
    proof (cases "read_at calls len off")
      case (RBytes bs)
      then have "(\<exists>k\<le>len. bs = take k (drop off data)) \<and> (len > 0 \<and> off < length data \<longrightarrow> bs \<noteq> [])"
        using 1(3) unfolding reads_file_def by blast
      moreover have "len > 0" "off < length data" using 1(4) pos by simp_all
      ultimately obtain k where k: "k \<le> len" "bs = take k (drop off data)" "bs \<noteq> []" by blast
      have len: "length bs = k" using k 1 by simp
      have "self read_at (Suc calls) (len - k) (off + k) (buf @ bs) = Some y"
        using 1(2) RBytes k(3) pos len by simp
      from 1(1) [OF this 1(3)] 1(4) k(1)
      have "case fst y of Ok v \<Rightarrow> v = (buf @ bs) @ take (len - k) (drop (off + k) data) | Err e \<Rightarrow> e = ReadFailed \<and> \<not> reads_succeed read_at"
        by simp
      moreover have "bs @ take (len - k) (drop (off + k) data) = take len (drop off data)"
        using k(1,2) by (metis add.commute drop_drop le_add_diff_inverse take_add)
      ultimately show ?thesis by (simp only: append_assoc)
    next
      case RInterrupted
      then show ?thesis using 1(1) [of _ "Suc calls" len off buf] 1(2-4) pos by simp
    next
      case RFailed
      then have "\<not> reads_succeed read_at" unfolding reads_succeed_def by blast
      then show ?thesis using 1(2) RFailed pos by auto
    qed
  qed
qed

lemma read_exact_at_returns:
  assumes "reads_succeed read_at"
  shows "\<exists>y. read_exact_at read_at calls len off buf = Some y"
proof (induction len arbitrary: calls off buf rule: less_induct)
  case (less len)
  obtain j where j: "calls \<le> j" "\<And>len off. read_at j len off \<noteq> RInterrupted"
    using assms unfolding reads_succeed_def by blast
  have nf: "read_at i l w \<noteq> RFailed" for i l w using assms unfolding reads_succeed_def by blast
  from j(1) show ?case
  proof (induction "j - calls" arbitrary: calls)
    case 0
    then have "read_at calls len off \<noteq> RInterrupted" using j(2) by simp
    then show ?case using nf less(1) [of "len - n" for n]
      by (subst read_exact_at.simps) (auto split: read_reply.splits)
  next
    case (Suc m)
    have "\<exists>y. read_exact_at read_at (Suc calls) len off buf = Some y" using Suc(1) [of "Suc calls"] Suc(2) by simp
    then show ?case using nf less(1) [of "len - n" for n]
      by (subst read_exact_at.simps) (auto split: read_reply.splits)
  qed
qed

section \<open>The break the tail starts after\<close>

lemma nth_break_Nil [simp]: "nth_break [] m = None"
  by (simp add: nth_break_def get_at_def)

lemma nth_break_snoc:
  "nth_break (xs @ [x]) m = (if x = c_newline then (case m of 0 \<Rightarrow> Some (length xs) | Suc k \<Rightarrow> nth_break xs k)
     else nth_break xs m)"
  by (auto simp: nth_break_def get_at_def enumerate_append_eq split: nat.splits)

lemma nth_break_Some:
  "nth_break xs m = Some i \<Longrightarrow> i < length xs \<and> xs ! i = c_newline \<and> count_list (drop (Suc i) xs) c_newline = m"
proof (induction xs arbitrary: m rule: rev_induct)
  case (snoc x xs)
  show ?case
  proof (cases "x = c_newline \<and> m = 0")
    case True
    then show ?thesis using snoc(2) by (auto simp: nth_break_snoc)
  next
    case False
    define k where "k = (if x = c_newline then m - 1 else m)"
    have "nth_break xs k = Some i" using snoc(2) False by (auto simp: nth_break_snoc k_def split: if_splits nat.splits)
    from snoc(1) [OF this] False show ?thesis by (auto simp: nth_append k_def)
  qed
qed simp

text \<open>A place the tail may start at: the start of the file, or just after a break with at least \<open>n\<close>
  lines from there on.\<close>

definition tail_start :: "nat list \<Rightarrow> nat \<Rightarrow> nat \<times> nat list \<Rightarrow> bool" where
  "tail_start data n = (\<lambda>(cut_off, window). cut_off \<le> length data \<and> window = drop cut_off data
     \<and> (cut_off = 0 \<or> (\<exists>a. take cut_off data = a @ [c_newline])
          \<and> n \<le> count_list window c_newline + of_bool (window \<noteq> [] \<and> last window \<noteq> c_newline)))"

lemma break_starts_tail:
  fixes data :: "nat list"
  assumes "start \<le> length data" "window = drop start data" "0 < n"
    and nb: "nth_break (take (length window - of_bool (window \<noteq> [] \<and> last window = c_newline)) window) (n - 1) = Some i"
      (is "nth_break ?body _ = _")
  shows "tail_start data n (Suc (start + i), drop (Suc i) window)"
proof -
  have i: "i < length ?body" "?body ! i = c_newline" "count_list (drop (Suc i) ?body) c_newline = n - 1"
    using nth_break_Some [OF nb] by auto
  have iw: "i < length window" "window ! i = c_newline" using i(1,2) by auto
  have at: "start + i < length data" "data ! (start + i) = c_newline" using iw assms(1,2) by auto
  have pre: "take (Suc (start + i)) data = take (start + i) data @ [c_newline]"
    using at by (metis take_Suc_conv_app_nth)
  let ?w = "drop (Suc i) window"
  have "n \<le> count_list ?w c_newline + of_bool (?w \<noteq> [] \<and> last ?w \<noteq> c_newline)"
  proof (cases "window \<noteq> [] \<and> last window = c_newline")
    case True
    then have w: "window = butlast window @ [c_newline]" by (metis append_butlast_last_id)
    have b: "?body = butlast window" using True by (simp add: butlast_conv_take)
    then have "i < length (butlast window)" using i(1) by simp
    then have "?w = drop (Suc i) (butlast window) @ [c_newline]" using w by (metis Suc_leI drop_append diff_is_0_eq drop0)
    then show ?thesis using i(3) b \<open>0 < n\<close> by simp
  next
    case False
    then have b: "?body = window" by auto
    have "Suc i \<noteq> length window" using False iw by (metis diff_Suc_1 last_conv_nth length_0_conv nat.distinct(1))
    then have "?w \<noteq> []" using iw by simp
    moreover have "last ?w \<noteq> c_newline" using False iw \<open>?w \<noteq> []\<close> by (metis last_drop drop_eq_Nil not_le list.size(3) not_less_zero)
    ultimately show ?thesis using i(3) b \<open>0 < n\<close> by simp
  qed
  then show ?thesis using at pre assms(2) unfolding tail_start_def by (auto simp: add.commute)
qed

lemma yields_bind:
  assumes "yields read_at x P"
    and "\<And>v calls. P v \<Longrightarrow> yields read_at (k v calls) Q"
  shows "yields read_at (case x of None \<Rightarrow> None | Some (Err e, calls) \<Rightarrow> Some (Err e, calls) | Some (Ok v, calls) \<Rightarrow> k v calls) Q"
proof (cases x)
  case None
  then show ?thesis using assms(1) by (simp add: yields_def)
next
  case (Some y)
  obtain r calls where y: "y = (r, calls)" by fastforce
  show ?thesis
  proof (cases r)
    case (Inl e)
    then show ?thesis using assms(1) Some y by (simp add: yields_def)
  next
    case (Inr v)
    then have "P v" using assms(1) Some y by (simp add: yields_def)
    from assms(2) [OF this] show ?thesis using Inr Some y by simp
  qed
qed

section \<open>The tail is that of the whole log\<close>

lemma lines_from_break:
  assumes "data = a @ c_newline # b" "n \<le> count_list b c_newline + of_bool (b \<noteq> [] \<and> last b \<noteq> c_newline)"
  shows "last_n_lines_with_start (from_utf8_lossy data) n
    = (case last_n_lines_with_start (from_utf8_lossy b) n of (t, k) \<Rightarrow> (t, Suc (count_list a c_newline) + k))"
proof -
  let ?la = "text_lines (from_utf8_lossy a @ [c_newline])" and ?lb = "text_lines (from_utf8_lossy b)"
  have "length ?la = Suc (count_list a c_newline)" by (simp add: text_lines_length lossy_count)
  moreover have "n \<le> length ?lb" using assms(2) lossy_last [of b]
    by (cases "b = []") (auto simp: text_lines_length lossy_count)
  moreover have "text_lines (from_utf8_lossy data) = ?la @ ?lb"
    unfolding assms(1) lossy_break by (rule text_lines_break)
  ultimately show ?thesis by (simp add: last_n_lines_with_start_def Let_def)
qed

definition whole_tail :: "nat list \<Rightarrow> nat \<Rightarrow> LogTail" where
  "whole_tail data n = (case last_n_lines_with_start (from_utf8_lossy data) n of (t, k) \<Rightarrow> \<lparr> lt_text = t, lt_start_line = k \<rparr>)"

lemma tail_start_lines:
  assumes "tail_start data n (cut_off, window)"
  shows "(case last_n_lines_with_start (from_utf8_lossy window) n of (t, k) \<Rightarrow>
      \<lparr> lt_text = t, lt_start_line = count_list (take cut_off data) c_newline + k \<rparr>) = whole_tail data n"
proof (cases "cut_off = 0")
  case True
  then show ?thesis using assms by (simp add: tail_start_def whole_tail_def split: prod.splits)
next
  case False
  then obtain a where a: "take cut_off data = a @ [c_newline]"
    and n: "n \<le> count_list window c_newline + of_bool (window \<noteq> [] \<and> last window \<noteq> c_newline)" and w: "window = drop cut_off data"
    using assms by (auto simp: tail_start_def)
  have "data = a @ c_newline # window" using a w append_take_drop_id [of cut_off data] by simp
  from lines_from_break [OF this n] a show ?thesis by (simp add: whole_tail_def split: prod.splits)
qed

text \<open>A result of \<open>read_tail_at\<close>, which no longer carries the number of calls.\<close>

definition tail_right :: "reader \<Rightarrow> nat list \<Rightarrow> nat \<Rightarrow> (tail_error + LogTail) option \<Rightarrow> bool" where
  "tail_right read_at data n result \<longleftrightarrow> yields read_at (map_option (\<lambda>r. (r, 0)) result) (\<lambda>t. t = whole_tail data n)"

lemma tail_right_simps:
  "tail_right read_at data n None \<longleftrightarrow> \<not> reads_succeed read_at"
  "tail_right read_at data n (Some (Err e)) \<longleftrightarrow> e = ReadFailed \<and> \<not> reads_succeed read_at"
  "tail_right read_at data n (Some (Ok t)) \<longleftrightarrow> t = whole_tail data n"
  by (simp_all add: tail_right_def yields_def)

lemma tail_right_bind:
  assumes "yields read_at x P"
    and "\<And>v calls. P v \<Longrightarrow> tail_right read_at data n (k v calls)"
  shows "tail_right read_at data n (case x of None \<Rightarrow> None | Some (Err e, _) \<Rightarrow> Some (Err e) | Some (Ok v, calls) \<Rightarrow> k v calls)"
proof (cases x)
  case None
  then show ?thesis using assms(1) by (simp add: yields_def tail_right_simps)
next
  case (Some y)
  then show ?thesis using assms
    by (cases y; cases "fst y") (auto simp: yields_def tail_right_simps)
qed

lemma whole_tail_none:
  "whole_tail data 0 = \<lparr> lt_text = [], lt_start_line = Suc (count_list data c_newline + of_bool (data \<noteq> [] \<and> last data \<noteq> c_newline)) \<rparr>"
  using lossy_last [of data]
  by (cases "data = []") (auto simp: whole_tail_def last_n_lines_with_start_def Let_def text_lines_length lossy_count)

section \<open>Reading the tail of a file\<close>

text \<open>What \<^verbatim>\<open>read_tail_at\<close> relies on: its reads come from a file.\<close>

locale file_reader =
  fixes read_at :: reader and data :: "nat list"
  assumes reads: "reads_file read_at data"
begin

lemma read_exact_at_yields:
  assumes "off + len \<le> length data"
  shows "yields read_at (read_exact_at read_at calls len off []) (\<lambda>v. v = take len (drop off data))"
  using read_exact_at_value [OF _ reads assms, of calls "[]"] read_exact_at_returns [of read_at calls len off "[]"]
  unfolding yields_def by (fastforce split: option.splits sum.splits)

lemma tail_loop_yields:
  assumes "start \<le> length data" "window = drop start data" "0 < n"
  shows "yields read_at (tail_loop read_at calls n start window) (tail_start data n)"
  using assms(1,2)
proof (induction start arbitrary: calls window rule: less_induct)
  case (less start)
  let ?body = "take (length window - of_bool (window \<noteq> [] \<and> last window = c_newline)) window"
  show ?case
  proof (cases "nth_break ?body (n - 1)")
    case (Some i)
    from break_starts_tail [OF less(2,3) \<open>0 < n\<close> this] Some show ?thesis
      by (subst tail_loop.simps) (simp add: yields_def Let_def)
  next
    case None
    show ?thesis
    proof (cases "start = 0")
      case True
      then show ?thesis using None less(3) by (subst tail_loop.simps) (simp add: yields_def Let_def tail_start_def)
    next
      case False
      let ?l = "min start TAIL_CHUNK"
      have chunk: "yields read_at (read_exact_at read_at calls ?l (start - ?l) []) (\<lambda>v. v = take ?l (drop (start - ?l) data))"
        using less(2) by (intro read_exact_at_yields) auto
      have join: "take ?l (drop (start - ?l) data) @ window = drop (start - ?l) data"
        using less(3) append_take_drop_id [of ?l "drop (start - ?l) data"] by simp
      have "yields read_at (tail_loop read_at calls' n (start - ?l) (v @ window)) (tail_start data n)"
        if "v = take ?l (drop (start - ?l) data)" for v calls'
      proof -
        have "v @ window = drop (start - ?l) data" using that join by simp
        moreover have "start - ?l < start" using False by (simp add: TAIL_CHUNK_def)
        ultimately show ?thesis using less(1) less(2) by simp
      qed
      from yields_bind [OF chunk this] show ?thesis
        using None False by (subst tail_loop.simps) (simp add: Let_def)
    qed
  qed
qed

lemma tail_window_yields:
  assumes "0 < n"
  shows "yields read_at (tail_window read_at calls (length data) n) (tail_start data n)"
  using tail_loop_yields [OF _ _ assms, of "length data" "[]"] assms by (simp add: tail_window_def)

lemma count_loop_yields:
  assumes "cut_off \<le> length data" "off \<le> cut_off"
  shows "yields read_at (count_loop read_at calls cut_off off m) (\<lambda>v. v = m + count_list (take (cut_off - off) (drop off data)) c_newline)"
  using assms(2)
proof (induction "cut_off - off" arbitrary: calls off m rule: less_induct)
  case less
  show ?case
  proof (cases "off < cut_off")
    case False
    then show ?thesis by (subst count_loop.simps) (simp add: yields_def)
  next
    case True
    let ?w = "min (cut_off - off) COUNT_CHUNK"
    have chunk: "yields read_at (read_exact_at read_at calls ?w off []) (\<lambda>v. v = take ?w (drop off data))"
      using assms(1) True by (intro read_exact_at_yields) auto
    have w: "0 < ?w" "?w \<le> cut_off - off" using True by (simp_all add: COUNT_CHUNK_def)
    have "take (cut_off - off) (drop off data) = take ?w (drop off data) @ take (cut_off - (off + ?w)) (drop (off + ?w) data)"
      using w(2) by (metis add.commute diff_diff_left drop_drop le_add_diff_inverse take_add)
    then have c: "count_list (take (cut_off - off) (drop off data)) c_newline
        = count_list (take ?w (drop off data)) c_newline + count_list (take (cut_off - (off + ?w)) (drop (off + ?w) data)) c_newline"
      by simp
    have "yields read_at (count_loop read_at calls' cut_off (off + ?w) (m + count_list v c_newline))
        (\<lambda>v. v = m + count_list (take (cut_off - off) (drop off data)) c_newline)"
      if "v = take ?w (drop off data)" for v calls'
      using less(1) [of "off + ?w" calls' "m + count_list v c_newline"] w True unfolding c that by (simp add: add.assoc)
    from yields_bind [OF chunk this] show ?thesis
      using True by (subst count_loop.simps) (simp add: Let_def)
  qed
qed

lemma next_line_right:
  assumes "m = count_list data c_newline"
  shows "tail_right read_at data 0 (next_line read_at (length data) m calls)"
proof (cases "data = []")
  case True
  then show ?thesis using assms by (simp add: next_line_def tail_right_simps whole_tail_none)
next
  case False
  have l: "take 1 (drop (length data - 1) data) = [last data]"
    using False by (cases data rule: rev_exhaust) simp_all
  have "yields read_at (read_exact_at read_at calls 1 (length data - 1) []) (\<lambda>v. v = [last data])"
    using read_exact_at_yields [of "length data - 1" 1 calls] False l by (simp add: Suc_leI)
  then have "tail_right read_at data 0 (case read_exact_at read_at calls 1 (length data - 1) [] of
       None \<Rightarrow> None
     | Some (Err e, _) \<Rightarrow> Some (Err e)
     | Some (Ok byte, _) \<Rightarrow> Some (Ok \<lparr> lt_text = [], lt_start_line = m + of_bool (byte \<noteq> [c_newline]) + 1 \<rparr>))"
    by (rule tail_right_bind) (use False assms in \<open>simp add: tail_right_simps whole_tail_none\<close>)
  then show ?thesis using False by (simp add: next_line_def)
qed

lemma tail_window_right:
  "yields read_at (tail_window read_at 0 (length data) n)
    (\<lambda>v. if n = 0 then fst v = length data else tail_start data n v)"
  using tail_window_yields [of n 0] by (cases "n = 0") (simp_all add: tail_window_def yields_def)

lemma tail_of_window_right:
  assumes "if n = 0 then fst v = length data else tail_start data n v"
  shows "tail_right read_at data n (tail_of_window read_at (length data) n v calls)"
proof -
  obtain cut_off window where v: "v = (cut_off, window)" by fastforce
  have le: "cut_off \<le> length data" using assms v by (auto simp: tail_start_def split: if_splits)
  have "tail_right read_at data n (if n = 0 then next_line read_at (length data) m calls else Some (Ok (window_lines n window m)))"
    if m: "m = 0 + count_list (take (cut_off - 0) (drop 0 data)) c_newline" for m calls
  proof (cases "n = 0")
    case True
    then show ?thesis using assms v m next_line_right by simp
  next
    case False
    then show ?thesis using assms v m tail_start_lines [of data n cut_off window]
      by (simp add: window_lines_def tail_right_simps)
  qed
  from tail_right_bind [OF count_loop_yields [OF le le0] this] show ?thesis
    by (simp add: tail_of_window_def v)
qed

lemma read_tail_at_right:
  "tail_right read_at data n (read_tail_at read_at (length data) n)"
  unfolding read_tail_at_def
  by (rule tail_right_bind [OF tail_window_right tail_of_window_right])

end

text \<open>C9: The tail read backwards from the end of a log file is the tail of the whole log: whatever
  the sizes of the reads and wherever they are cut short or interrupted, the text and the line
  number it starts at are those of the last \<open>n\<close> lines of the lossily decoded contents.  Reading fails
  only when a read fails, never by taking a short read for a log that shrank, and it returns whenever
  no read fails and the interruptions end.\<close>

theorem read_tail_at_exact:
  assumes "reads_file read_at data"
  shows "case read_tail_at read_at (length data) n of
      Some (Ok tail) \<Rightarrow> (lt_text tail, lt_start_line tail) = last_n_lines_with_start (from_utf8_lossy data) n
    | r \<Rightarrow> \<not> reads_succeed read_at \<and> r \<noteq> Some (Err LogShrank)"
  using file_reader.read_tail_at_right [OF file_reader.intro [OF assms], of n]
  by (auto simp: tail_right_simps whole_tail_def split: option.splits sum.splits prod.splits)

definition halting_reads :: "nat list \<Rightarrow> reader" where
  "halting_reads data i len off = (if even i then RInterrupted else RBytes (take (min len 3) (drop off data)))"

lemma halting_reads_file: "reads_file (halting_reads data) data"
  unfolding reads_file_def
proof (intro allI impI)
  fix i len off bs
  assume "halting_reads data i len off = RBytes bs"
  then have b: "bs = take (min len 3) (drop off data)" by (simp add: halting_reads_def split: if_splits)
  then show "(\<exists>k\<le>len. bs = take k (drop off data)) \<and> (0 < len \<and> off < length data \<longrightarrow> bs \<noteq> [])"
    by (intro conjI exI [of _ "min len 3"]) auto
qed

lemma halting_reads_succeed: "reads_succeed (halting_reads data)"
proof -
  have "i \<le> Suc (2 * i) \<and> (\<forall>len off. halting_reads data (Suc (2 * i)) len off \<noteq> RInterrupted)" for i
    by (simp add: halting_reads_def)
  then have "\<exists>j\<ge>i. \<forall>len off. halting_reads data j len off \<noteq> RInterrupted" for i by blast
  moreover have "halting_reads data i len off \<noteq> RFailed" for i len off by (simp add: halting_reads_def)
  ultimately show ?thesis unfolding reads_succeed_def by blast
qed

definition two_lines :: "nat list" where
  "two_lines = u ''one'' @ [10] @ u ''two'' @ [255, 10]"

theorem read_tail_at_exact_witness:
  "reads_file (halting_reads two_lines) two_lines
   \<and> read_tail_at (halting_reads two_lines) 9 1 = Some (Ok \<lparr> lt_text = u ''two'' @ [65533], lt_start_line = 2 \<rparr>)"
proof -
  have l: "last_n_lines_with_start (from_utf8_lossy two_lines) 1 = (u ''two'' @ [65533], 2)"
    by (simp add: last_n_lines_with_start_def two_lines_def lossy_step_def text_lines_def strip_suffix_def Let_def)
  have n: "length two_lines = 9" by (simp add: two_lines_def)
  show ?thesis
    using read_tail_at_exact [OF halting_reads_file, of two_lines 1] halting_reads_file [of two_lines]
      halting_reads_succeed [of two_lines] unfolding l n
    by (auto split: option.splits sum.splits)
qed

end
