(* ===== verification/Errors.thy ===== *)
theory Errors
  imports Addr Capacity Log_Tail
begin

text \<open>
  Errors as they travel through the engine: the typed errors of plugin/error.rs with their messages,
  the contexts put around them, the wrapper the memoizer shares an error in (core/hmemoizer), and the
  fan-out that aggregates the errors of several futures (engine/fanout.rs).

  An \<open>err\<close> is an \<^verbatim>\<open>anyhow::Error\<close>: a root error, with contexts around it.  \<^verbatim>\<open>downcast_ref\<close> looks at the
  contexts and at the root, not behind the root's \<^verbatim>\<open>source()\<close>; \<^verbatim>\<open>downcast_chain_ref\<close> also looks into
  an error the memoizer shared.  Error types the code never looks for are \<open>Message\<close>, their text.
\<close>

section \<open>Errors\<close>

datatype Exit = ExitCode int | ExitSignal int

datatype artifact_type = OaOutput | OaLog | OaSupportFile

text \<open>A view is a handle on another artifact's content, named by a number.\<close>

datatype oa_content =
    OaFile (file_source_path: rstr) (file_out_path: rstr) (file_x: bool) (file_passthrough: bool)
  | OaRaw (raw_data: "nat list") (raw_path: rstr) (raw_x: bool)
  | OaTarPath rstr bool
  | OaCpioPath rstr bool
  | OaView nat

record OutputArtifact =
  oa_group :: rstr
  oa_name :: rstr
  oa_type :: artifact_type
  oa_content :: oa_content
  oa_hashout :: rstr

text \<open>A log file held open: the length its metadata gives, if it can be read, and its positional
  reads.\<close>

record open_log =
  ol_len :: "nat option"
  ol_read :: reader

datatype FailureLogSource = LogOpen open_log | LogInMemory LogTail

record FailureLog =
  fl_path :: "rstr option"
  fl_source :: FailureLogSource
  fl_lines :: nat

datatype ShellNeedsSingleTarget =
    Selection rstr
  | Group AddrInner "AddrInner list"
  | NotInteractive AddrInner

text \<open>How the memoizer found a computation waiting for itself.\<close>

datatype CycleKind = SelfRecursion | CrossTask

datatype payload =
    TargetNotFoundError AddrInner
  | CancelledError
  | HashUnknownError AddrInner
  | RevisionChangedError AddrInner rstr
  | ShellError ShellNeedsSingleTarget
  | CycleError AddrInner AddrInner
  | MultiError "err list"
  | UpstreamFailed AddrInner
  | ProcessFailed rstr "Exit option"
  | RemoteProcessFailed rstr Exit
  | FailureArtifacts "OutputArtifact list"
  | FailureSlot "FailureLog option"
  | TargetFailureError TargetFailure
  | FrozenCheckError AddrInner rstr
  | ApprovalDeniedError AddrInner
  | EntrypointAsInput AddrInner rstr "AddrInner option"
  | EntrypointNotBuildable AddrInner "nat option"
  | MemoizerCycleError rstr rstr CycleKind "rstr list"
  | SharedAnyhow err
  | Message rstr
and TargetFailure = TargetFailure (tf_addr: AddrInner) (tf_log_tail: "LogTail option") (tf_log: "FailureLog option") (tf_source: err)
and err = Root payload | Context payload err

definition new_failure :: "AddrInner \<Rightarrow> LogTail option \<Rightarrow> err \<Rightarrow> TargetFailure" where
  "new_failure addr log_tail source = TargetFailure addr log_tail None source"

definition with_log :: "FailureLog option \<Rightarrow> TargetFailure \<Rightarrow> TargetFailure" where
  "with_log log f = TargetFailure (tf_addr f) (tf_log_tail f) log (tf_source f)"

section \<open>Looking for a type\<close>

text \<open>A type is what \<open>sel\<close> takes out of an error of it.\<close>

primrec downcast_ref :: "(payload \<Rightarrow> 'a option) \<Rightarrow> err \<Rightarrow> 'a option" where
  "downcast_ref sel (Root p) = sel p"
| "downcast_ref sel (Context p e) = (case sel p of Some x \<Rightarrow> Some x | None \<Rightarrow> downcast_ref sel e)"

definition as_shared :: "payload \<Rightarrow> err option" where
  "as_shared p = (case p of SharedAnyhow e \<Rightarrow> Some e | _ \<Rightarrow> None)"

definition as_cancelled :: "payload \<Rightarrow> unit option" where
  "as_cancelled p = (case p of CancelledError \<Rightarrow> Some () | _ \<Rightarrow> None)"

definition as_cycle :: "payload \<Rightarrow> (AddrInner \<times> AddrInner) option" where
  "as_cycle p = (case p of CycleError from to \<Rightarrow> Some (from, to) | _ \<Rightarrow> None)"

definition as_hash_unknown :: "payload \<Rightarrow> AddrInner option" where
  "as_hash_unknown p = (case p of HashUnknownError addr \<Rightarrow> Some addr | _ \<Rightarrow> None)"

definition as_shell :: "payload \<Rightarrow> ShellNeedsSingleTarget option" where
  "as_shell p = (case p of ShellError s \<Rightarrow> Some s | _ \<Rightarrow> None)"

definition as_upstream :: "payload \<Rightarrow> AddrInner option" where
  "as_upstream p = (case p of UpstreamFailed root \<Rightarrow> Some root | _ \<Rightarrow> None)"

definition as_multi :: "payload \<Rightarrow> err list option" where
  "as_multi p = (case p of MultiError es \<Rightarrow> Some es | _ \<Rightarrow> None)"

definition as_artifacts :: "payload \<Rightarrow> OutputArtifact list option" where
  "as_artifacts p = (case p of FailureArtifacts as \<Rightarrow> Some as | _ \<Rightarrow> None)"

definition as_slot :: "payload \<Rightarrow> FailureLog option option" where
  "as_slot p = (case p of FailureSlot log \<Rightarrow> Some log | _ \<Rightarrow> None)"

lemma downcast_shared_size: "downcast_ref as_shared e = Some e' \<Longrightarrow> size e' < size e"
proof (induction e rule: err.induct [where ?P1.0 = "\<lambda>_. True" and ?P2.0 = "\<lambda>_. True"])
  case (Root p)
  then show ?case by (cases p) (simp_all add: as_shared_def)
next
  case (Context p e)
  then show ?case by (cases p) (auto simp: as_shared_def)
qed simp_all

function downcast_chain_ref :: "(payload \<Rightarrow> 'a option) \<Rightarrow> err \<Rightarrow> 'a option" where
  "downcast_chain_ref sel e = (case downcast_ref sel e of
     Some x \<Rightarrow> Some x
   | None \<Rightarrow> (case downcast_ref as_shared e of Some inner \<Rightarrow> downcast_chain_ref sel inner | None \<Rightarrow> None))"
  by pat_completeness auto

termination
  by (relation "measure (\<lambda>(sel, e). size e)") (auto simp: downcast_shared_size)

declare downcast_chain_ref.simps [simp del]

text \<open>\<^verbatim>\<open>unwrap_arc_err\<close>: \<open>unique\<close> when this is the last reference to the error.\<close>

definition unwrap_arc_err :: "bool \<Rightarrow> err \<Rightarrow> err" where
  "unwrap_arc_err unique e = (if unique then e else Root (SharedAnyhow e))"

definition is_cancelled :: "err \<Rightarrow> bool" where
  "is_cancelled e \<longleftrightarrow> downcast_chain_ref as_cancelled e \<noteq> None"

section \<open>Messages\<close>

fun join_text :: "rstr \<Rightarrow> rstr list \<Rightarrow> rstr" where
  "join_text sep [] = []"
| "join_text sep [w] = w"
| "join_text sep (w # v # ws) = w @ sep @ join_text sep (v # ws)"

abbreviation c_ellipsis :: rchar where "c_ellipsis \<equiv> 8230"
abbreviation c_em_dash :: rchar where "c_em_dash \<equiv> 8212"
abbreviation c_arrow :: rchar where "c_arrow \<equiv> 8594"

definition SHELL_MEMBERS_SHOWN :: nat where "SHELL_MEMBERS_SHOWN = 5"

definition display_members :: "AddrInner list \<Rightarrow> rstr" where
  "display_members members = (case members of
     [] \<Rightarrow> [c_newline] @ u ''  the group is empty '' @ [c_em_dash] @ u '' there is nothing to shell into'' @ [c_newline]
       @ u ''  try: heph run --shell //pkg:name with a target address''
   | m # _ \<Rightarrow> [c_newline] @ u ''  members: ''
       @ join_text (u '', '') (map format_addr (take SHELL_MEMBERS_SHOWN members))
       @ (if length members - SHELL_MEMBERS_SHOWN > 0
          then u '' '' @ [c_ellipsis] @ u '' and '' @ fmt_nat (length members - SHELL_MEMBERS_SHOWN) @ u '' more'' else [])
       @ [c_newline] @ u ''  try: heph run --shell '' @ format_addr m)"

definition display_shell :: "ShellNeedsSingleTarget \<Rightarrow> rstr" where
  "display_shell s = (case s of
     Selection query \<Rightarrow> u ''--shell needs exactly one target; '' @ query @ u '' selects many'' @ [c_newline]
       @ u ''  try: heph run --shell //pkg:name with one address''
   | Group addr members \<Rightarrow> u ''--shell needs exactly one target; '' @ format_addr addr @ u '' is a group with ''
       @ fmt_nat (length members) @ u '' members'' @ display_members members
   | NotInteractive addr \<Rightarrow> u ''--shell needs a terminal to attach to; '' @ format_addr addr
       @ u '' would run in a non-interactive session (CI, a redirected stdin/stdout, or --no-tui)'' @ [c_newline]
       @ u ''  try: run `heph run --shell '' @ format_addr addr @ u ''` from an interactive terminal'')"

definition consumer_clause :: "AddrInner option \<Rightarrow> rstr \<Rightarrow> rstr" where
  "consumer_clause consumer origin_id = (case consumer of
     Some c \<Rightarrow> u '' (of '' @ format_addr c @ u '', as `'' @ origin_id @ u ''`)''
   | None \<Rightarrow> u '' (as `'' @ origin_id @ u ''`)'')"

definition selection_clause :: "nat option \<Rightarrow> rstr" where
  "selection_clause selected = (case selected of
     Some n \<Rightarrow> if n = 1 then u '', the only target the selection resolved to''
       else u '', one of the '' @ fmt_nat n @ u '' targets the selection resolved to''
   | None \<Rightarrow> [])"

text \<open>The frames of a memoizer cycle, numbered in a column of two.\<close>

definition stack_lines :: "rstr list \<Rightarrow> rstr" where
  "stack_lines stack = (if stack = [] then []
     else [c_newline] @ u ''stack (root first):'' @ [c_newline]
       @ join_text [c_newline] (map2 (\<lambda>i frame. u ''  '' @ (if i < 10 then u '' '' else []) @ fmt_nat i @ u '': '' @ frame) [0..<length stack] stack))"

definition cycle_variant :: "CycleKind \<Rightarrow> rstr" where
  "cycle_variant kind = (case kind of SelfRecursion \<Rightarrow> u ''self-recursion'' | CrossTask \<Rightarrow> u ''cross-task wait-for cycle'')"

text \<open>The causes behind an error: \<^verbatim>\<open>source()\<close>, which only a target's failure has.  The memoizer's
  wrapper has none on purpose and shows the whole chain as its own message.\<close>

definition source_of :: "payload \<Rightarrow> err option" where
  "source_of p = (case p of TargetFailureError f \<Rightarrow> Some (tf_source f) | _ \<Rightarrow> None)"

lemma source_size: "source_of p = Some e \<Longrightarrow> size e < size p"
  by (cases p; cases "case p of TargetFailureError f \<Rightarrow> f") (auto simp: source_of_def)

lemma member_size: "e \<in> set es \<Longrightarrow> size (e :: err) \<le> size_list size es"
  by (induction es) auto

text \<open>\<open>chain_frames\<close> are the messages along \<^verbatim>\<open>anyhow::Error::chain()\<close>; \<^verbatim>\<open>{:#}\<close> joins them all, \<^verbatim>\<open>write_chain\<close>
  those that are not empty.\<close>

function (sequential) display :: "payload \<Rightarrow> rstr" and chain_frames :: "err \<Rightarrow> rstr list" where
  "display (TargetNotFoundError addr) = u ''target not found: '' @ format_addr addr"
| "display CancelledError = u ''cancelled''"
| "display (HashUnknownError addr) = format_addr addr
     @ u '' is not cached at its current inputs, and this hash-only resolution may not build it''"
| "display (RevisionChangedError addr hashin) = format_addr addr @ u '': its cached output (revision '' @ hashin
     @ u '') changed or was removed by another heph process while this build was using it; re-run''"
| "display (ShellError s) = display_shell s"
| "display (CycleError from to) = u ''cyclic dependency detected: '' @ format_addr from @ u '' '' @ [c_arrow] @ u '' '' @ format_addr to"
| "display (MultiError es) = fmt_nat (length es) @ u '' errors:'' @ [c_newline]
     @ concat (map2 (\<lambda>i frames. u ''  ['' @ fmt_nat i @ u ''] '' @ join_text (u '': '') frames @ [c_newline])
         [0..<length es] (map chain_frames es))"
| "display (UpstreamFailed root) = u ''dependency failed (root: '' @ format_addr root @ u '')''"
| "display (ProcessFailed status _) = u ''process exited with status: '' @ status"
| "display (RemoteProcessFailed message _) = message"
| "display (FailureArtifacts _) = []"
| "display (FailureSlot _) = []"
| "display (TargetFailureError f) = u ''target failed: '' @ format_addr (tf_addr f)"
| "display (FrozenCheckError addr diff) = u ''frozen check failed: '' @ format_addr addr @ u '' '' @ [c_em_dash]
     @ u '' generated output differs from tree:'' @ [c_newline] @ diff"
| "display (ApprovalDeniedError addr) = u ''approval denied for '' @ format_addr addr"
| "display (EntrypointAsInput entrypoint origin_id consumer) = format_addr entrypoint
     @ u '' is an entrypoint (`entrypoint = True`) and cannot be an input'' @ consumer_clause consumer origin_id
     @ u '': an entrypoint runs in the caller's working directory and environment, so a build step depending on it could run something outside any sandbox. Depend on what it runs instead''"
| "display (EntrypointNotBuildable addr selected) = format_addr addr
     @ u '' is an entrypoint (`entrypoint = True`)'' @ selection_clause selected
     @ u '': it is invoked on its own with `heph run '' @ format_addr addr
     @ u ''`, never built, and never as part of a multi-target selection. Select it alone, or select what it runs''"
| "display (MemoizerCycleError cell key kind stack) = u ''memoizer cycle ('' @ cycle_variant kind @ u ''): tag='' @ cell
     @ u '' key='' @ key @ stack_lines stack"
| "display (SharedAnyhow e) = join_text (u '': '') (filter (\<lambda>frame. frame \<noteq> []) (chain_frames e))"
| "display (Message text) = text"
| "chain_frames (Root p) = display p # (case source_of p of Some e \<Rightarrow> chain_frames e | None \<Rightarrow> [])"
| "chain_frames (Context p e) = display p # chain_frames e"
  by pat_completeness auto

termination
  by (relation "measure (\<lambda>x. case x of Inl p \<Rightarrow> 2 * size p | Inr e \<Rightarrow> 2 * size e + 1)")
     (auto dest: source_size member_size)

definition write_chain :: "err \<Rightarrow> rstr" where
  "write_chain e = join_text (u '': '') (filter (\<lambda>frame. frame \<noteq> []) (chain_frames e))"

abbreviation chain_message :: "err \<Rightarrow> rstr" where "chain_message \<equiv> write_chain"

text \<open>\<^verbatim>\<open>downcast_mut\<close> looks where \<^verbatim>\<open>downcast_ref\<close> does.\<close>

primrec name_selection :: "nat \<Rightarrow> err \<Rightarrow> err" where
  "name_selection selected (Root p) = Root (case p of EntrypointNotBuildable addr _ \<Rightarrow> EntrypointNotBuildable addr (Some selected) | _ \<Rightarrow> p)"
| "name_selection selected (Context p e) = (case p of
     EntrypointNotBuildable addr _ \<Rightarrow> Context (EntrypointNotBuildable addr (Some selected)) e
   | _ \<Rightarrow> Context p (name_selection selected e))"

section \<open>What a failed run leaves\<close>

definition LOG_NAME :: rstr where "LOG_NAME = u ''log.txt''"

definition log_artifact :: "oa_content \<Rightarrow> OutputArtifact" where
  "log_artifact content = \<lparr> oa_group = [], oa_name = LOG_NAME, oa_type = OaLog, oa_content = content, oa_hashout = [] \<rparr>"

text \<open>The path is \<open>None\<close> when it is not UTF-8.\<close>

definition log_file_artifact :: "rstr option \<Rightarrow> OutputArtifact option" where
  "log_file_artifact path = map_option (\<lambda>p. log_artifact (OaFile p LOG_NAME False False)) path"

definition failure_artifacts :: "err \<Rightarrow> OutputArtifact list option" where
  "failure_artifacts e = downcast_chain_ref as_artifacts e"

definition with_failure_artifacts :: "err \<Rightarrow> OutputArtifact list \<Rightarrow> err" where
  "with_failure_artifacts e artifacts = (if artifacts = [] then e
     else let merged = artifacts @ (case failure_artifacts e of
            Some prev \<Rightarrow> filter (\<lambda>p. \<not> (\<exists>m\<in>set artifacts. oa_group m = oa_group p \<and> oa_name m = oa_name p)) prev
          | None \<Rightarrow> [])
       in Context (FailureArtifacts merged) e)"

definition failure_log :: "err \<Rightarrow> OutputArtifact option" where
  "failure_log e = Option.bind (failure_artifacts e) (find (\<lambda>a. oa_type a = OaLog))"

text \<open>The chain's errors that \<^verbatim>\<open>downcast_ref\<close> on a cause sees: never a context.\<close>

function chain_causes :: "err \<Rightarrow> payload list" where
  "chain_causes (Root p) = p # (case source_of p of Some e \<Rightarrow> chain_causes e | None \<Rightarrow> [])"
| "chain_causes (Context p e) = chain_causes e"
  by pat_completeness auto

termination
  by (relation "measure size") (auto dest: source_size)

definition cause_exit :: "payload \<Rightarrow> Exit option" where
  "cause_exit p = (case p of ProcessFailed _ exit \<Rightarrow> exit | RemoteProcessFailed _ exit \<Rightarrow> Some exit | _ \<Rightarrow> None)"

definition process_exit :: "err \<Rightarrow> Exit option" where
  "process_exit e = (case List.map_filter cause_exit (chain_causes e) of x # _ \<Rightarrow> Some x | [] \<Rightarrow> None)"

text \<open>\<open>code\<close> and \<open>signal\<close> of an \<^verbatim>\<open>ExitStatus\<close>, and its text.\<close>

definition exit_from_std :: "int option \<Rightarrow> int option \<Rightarrow> Exit option" where
  "exit_from_std code signal = (case (code, signal) of
     (Some code, _) \<Rightarrow> Some (ExitCode code)
   | (None, Some sig) \<Rightarrow> Some (ExitSignal sig)
   | (None, None) \<Rightarrow> None)"

definition from_status :: "rstr \<Rightarrow> int option \<Rightarrow> int option \<Rightarrow> payload" where
  "from_status status code signal = ProcessFailed status (exit_from_std code signal)"

text \<open>\<open>written\<close> tells whether both streams could be appended to the log file.\<close>

definition from_output :: "bool \<Rightarrow> rstr option \<Rightarrow> nat list \<Rightarrow> nat list \<Rightarrow> rstr \<Rightarrow> int option \<Rightarrow> int option \<Rightarrow> err" where
  "from_output written log_path stdout stderr status code signal =
     (let log = (case if written then log_file_artifact log_path else None of
          Some log \<Rightarrow> log
        | None \<Rightarrow> log_artifact (OaRaw (stdout @ stderr) LOG_NAME False))
      in with_failure_artifacts (Root (from_status status code signal)) [log])"

datatype log_error = MetadataFailed | TailFailed tail_error

definition log_open :: "rstr \<Rightarrow> open_log \<Rightarrow> nat \<Rightarrow> FailureLog" where
  "log_open path file lines = \<lparr> fl_path = Some path, fl_source = LogOpen file, fl_lines = lines \<rparr>"

definition log_in_memory :: "LogTail \<Rightarrow> FailureLog" where
  "log_in_memory tail = \<lparr> fl_path = None, fl_source = LogInMemory tail, fl_lines = 0 \<rparr>"

text \<open>\<open>None\<close> when reading the tail never ends.\<close>

definition log_tail :: "FailureLog \<Rightarrow> (log_error + LogTail) option" where
  "log_tail log = (case fl_source log of
     LogInMemory t \<Rightarrow> Some (Ok t)
   | LogOpen file \<Rightarrow> (case ol_len file of
       None \<Rightarrow> Some (Err MetadataFailed)
     | Some len \<Rightarrow> map_option (map_sum TailFailed id) (read_tail_at (ol_read file) len (fl_lines log))))"

section \<open>Joining several futures\<close>

text \<open>The futures' results with their position, in the order they completed.  A fail-fast join returns
  on the first error that completes.\<close>

definition join_all_failable :: "(nat \<times> (err + 'a)) list \<Rightarrow> bool \<Rightarrow> err + 'a list" where
  "join_all_failable completed fail_fast =
     (let results = map snd (sort_key fst completed);
          ok = List.map_filter (\<lambda>r. case r of Ok v \<Rightarrow> Some v | Err _ \<Rightarrow> None) results;
          errs = List.map_filter (\<lambda>r. case r of Err e \<Rightarrow> Some e | Ok _ \<Rightarrow> None) results
      in if fail_fast then (case find (\<lambda>(_, r). isl r) completed of Some (_, Err e) \<Rightarrow> Err e | _ \<Rightarrow> Ok ok)
         else if errs = [] then Ok ok
         else if length errs = 1 then Err (last errs)
         else Err (Root (MultiError errs)))"

section \<open>A shared error reads like the error\<close>

lemma as_shared_size: "as_shared p = Some e \<Longrightarrow> size e < size p"
  by (cases p) (auto simp: as_shared_def)

lemma as_shared_Some [simp]: "as_shared p = Some e \<longleftrightarrow> p = SharedAnyhow e"
  by (cases p) (auto simp: as_shared_def)

lemma as_shared_wrapper [simp]: "as_shared (SharedAnyhow e) = Some e"
  by simp

text \<open>The error with every wrapper of the memoizer taken off.\<close>

function unshare :: "err \<Rightarrow> err" where
  "unshare (Root p) = (case as_shared p of Some e \<Rightarrow> unshare e | None \<Rightarrow> Root p)"
| "unshare (Context p e) = Context p (unshare e)"
  by pat_completeness auto

termination
  by (relation "measure size") (auto dest: as_shared_size)

text \<open>The memoizer's wrapper is made by \<^verbatim>\<open>unwrap_arc_err\<close> alone, as a root.\<close>

function wrapper_is_root :: "err \<Rightarrow> bool" where
  "wrapper_is_root (Root p) = (case as_shared p of Some e \<Rightarrow> wrapper_is_root e | None \<Rightarrow> True)"
| "wrapper_is_root (Context p e) \<longleftrightarrow> as_shared p = None \<and> wrapper_is_root e"
  by pat_completeness auto

termination
  by (relation "measure size") (auto dest: as_shared_size)

lemma unshare_unwrap [simp]: "unshare (unwrap_arc_err unique e) = unshare e"
  by (simp add: unwrap_arc_err_def as_shared_def)

lemma downcast_chain_root:
  "as_shared p = None \<Longrightarrow> downcast_chain_ref sel (Root p) = sel p"
  by (subst downcast_chain_ref.simps) (simp split: option.splits)

lemma downcast_chain_shared:
  "sel (SharedAnyhow e) = None \<Longrightarrow> downcast_chain_ref sel (Root (SharedAnyhow e)) = downcast_chain_ref sel e"
  by (subst downcast_chain_ref.simps) (simp add: as_shared_def)

lemma downcast_chain_context:
  "as_shared p = None \<Longrightarrow> downcast_chain_ref sel (Context p e)
     = (case sel p of Some x \<Rightarrow> Some x | None \<Rightarrow> downcast_chain_ref sel e)"
  by (subst (1 2) downcast_chain_ref.simps) (simp split: option.splits)

lemma downcast_unshare:
  assumes "wrapper_is_root e" "\<And>x. sel (SharedAnyhow x) = None"
  shows "downcast_chain_ref sel e = downcast_ref sel (unshare e)"
  using assms(1)
proof (induction e rule: unshare.induct)
  case (1 p)
  then show ?case using assms(2) by (cases "as_shared p") (auto simp: downcast_chain_root downcast_chain_shared)
next
  case (2 p e)
  then show ?case by (auto simp: downcast_chain_context split: option.splits)
qed

lemma join_text_Nil: "\<forall>w\<in>set ws. w \<noteq> [] \<Longrightarrow> join_text sep ws = [] \<longleftrightarrow> ws = []"
  by (cases "(sep, ws)" rule: join_text.cases) auto

lemma write_chain_context:
  "write_chain (Context p e) = (if display p = [] then write_chain e
     else if write_chain e = [] then display p else display p @ u '': '' @ write_chain e)"
proof -
  have "write_chain e = [] \<longleftrightarrow> filter (\<lambda>frame. frame \<noteq> []) (chain_frames e) = []"
    unfolding write_chain_def by (rule join_text_Nil) simp
  then show ?thesis
    by (cases "filter (\<lambda>frame. frame \<noteq> []) (chain_frames e)") (simp_all add: write_chain_def)
qed

lemma write_chain_shared: "write_chain (Root (SharedAnyhow e)) = write_chain e"
  by (simp add: write_chain_def source_of_def)

lemma write_chain_unshare: "write_chain (unshare e) = write_chain e"
proof (induction e rule: unshare.induct)
  case (1 p)
  then show ?case by (cases "as_shared p") (auto simp: write_chain_shared)
qed (simp add: write_chain_context)

text \<open>C32: An error reads the same whether it is the only reference the memoizer held or one of many:
  through any number of shared wrappers and contexts, looking for a type finds what it finds on the
  error without them, the outermost first, and the message is the same.\<close>

theorem shared_error_reads_alike:
  assumes "wrapper_is_root e" "\<And>x. sel (SharedAnyhow x) = None"
  shows "downcast_chain_ref sel (unwrap_arc_err unique e) = downcast_ref sel (unshare e)
    \<and> chain_message (unwrap_arc_err unique e) = chain_message (unshare e)"
  using downcast_unshare [of e sel] assms
  by (auto simp: unwrap_arc_err_def downcast_chain_shared write_chain_shared write_chain_unshare)

theorem shared_error_reads_alike_witness:
  "downcast_chain_ref as_cancelled (unwrap_arc_err False (Context (Message (u ''run'')) (Root (SharedAnyhow (Root CancelledError))))) = Some ()
   \<and> chain_message (unwrap_arc_err False (Context (Message (u ''run'')) (Root (SharedAnyhow (Root CancelledError))))) = u ''run: cancelled''"
proof -
  let ?e = "Context (Message (u ''run'')) (Root (SharedAnyhow (Root CancelledError)))"
  have "wrapper_is_root ?e" by (simp add: as_shared_def)
  moreover have "unshare ?e = Context (Message (u ''run'')) (Root CancelledError)" by (simp add: as_shared_def)
  ultimately show ?thesis using shared_error_reads_alike [of ?e as_cancelled False]
    by (simp add: as_cancelled_def write_chain_def source_of_def)
qed

text \<open>The wrapper's documentation says that its \<^verbatim>\<open>source()\<close> exposes the inner error to
  \<^verbatim>\<open>anyhow::Error::chain()\<close>; it has no \<^verbatim>\<open>source()\<close>, and a walk of the chain does not see behind it.\<close>

lemma process_exit_not_through_shared:
  "process_exit (Root (SharedAnyhow (Root (ProcessFailed status (Some exit))))) = None"
  "process_exit (Root (ProcessFailed status (Some exit))) = Some exit"
  by (simp_all add: process_exit_def source_of_def cause_exit_def List.map_filter_simps)

section \<open>Attached artifacts\<close>

definition artifact_at :: "rstr \<Rightarrow> rstr \<Rightarrow> OutputArtifact list \<Rightarrow> OutputArtifact option" where
  "artifact_at grp name = find (\<lambda>a. oa_group a = grp \<and> oa_name a = name)"

lemma failure_artifacts_context:
  "failure_artifacts (Context (FailureArtifacts as) e) = Some as"
  by (simp add: failure_artifacts_def downcast_chain_context as_shared_def as_artifacts_def)

lemma find_append: "find P (xs @ ys) = (case find P xs of Some x \<Rightarrow> Some x | None \<Rightarrow> find P ys)"
  by (induction xs) auto

lemma find_filter_neutral:
  assumes "\<And>x. P x \<Longrightarrow> Q x"
  shows "find P (filter Q xs) = find P xs"
  using assms by (induction xs) auto

text \<open>Attaching artifacts to a failure replaces those of the same group and name, keeps the others
  whatever contexts and shared wrappers are around them, and leaves the failure's message unchanged.\<close>

theorem failure_artifacts_attached:
  "Option.bind (failure_artifacts (with_failure_artifacts e artifacts)) (artifact_at grp name)
     = (case artifact_at grp name artifacts of
          Some a \<Rightarrow> Some a
        | None \<Rightarrow> Option.bind (failure_artifacts e) (artifact_at grp name))
   \<and> chain_message (with_failure_artifacts e artifacts) = chain_message e"
proof (cases "artifacts = []")
  case True
  then show ?thesis by (simp add: with_failure_artifacts_def artifact_at_def)
next
  case False
  let ?kept = "\<lambda>prev. filter (\<lambda>p. \<not> (\<exists>m\<in>set artifacts. oa_group m = oa_group p \<and> oa_name m = oa_name p)) prev"
  have kept: "artifact_at grp name (?kept prev) = artifact_at grp name prev"
    if "artifact_at grp name artifacts = None" for prev
    using that unfolding artifact_at_def find_None_iff by (intro find_filter_neutral) auto
  have "artifact_at grp name (artifacts @ rest) = (case artifact_at grp name artifacts of Some a \<Rightarrow> Some a | None \<Rightarrow> artifact_at grp name rest)" for rest
    unfolding artifact_at_def by (rule find_append)
  moreover have "artifact_at grp name [] = None" by (simp add: artifact_at_def)
  ultimately show ?thesis using False kept
    by (simp add: with_failure_artifacts_def Let_def failure_artifacts_context write_chain_context split: option.split)
qed

text \<open>A frame with an empty message is data on the chain, which every renderer is documented to skip;
  an aggregation renders its members with \<^verbatim>\<open>{:#}\<close>, which does not.\<close>

lemma multi_error_shows_empty_frames:
  "display (MultiError [with_failure_artifacts (Root (Message (u ''boom''))) [log_artifact (OaRaw [] [] False)], Root CancelledError])
     = u ''2 errors:'' @ [c_newline] @ u ''  [0] : boom'' @ [c_newline] @ u ''  [1] cancelled'' @ [c_newline]"
  by (simp add: with_failure_artifacts_def source_of_def upt_rec Let_def fmt_nat.simps)

section \<open>What a join returns\<close>

definition errors_of :: "(nat \<times> (err + 'a)) list \<Rightarrow> err list" where
  "errors_of completed = List.map_filter (\<lambda>(_, r). case r of Err e \<Rightarrow> Some e | Ok _ \<Rightarrow> None) completed"

lemma errors_of_set: "e \<in> set (errors_of completed) \<longleftrightarrow> (\<exists>i. (i, Err e) \<in> set completed)"
  by (induction completed) (auto simp: errors_of_def List.map_filter_simps split: sum.splits)

lemma joined_errors_set:
  "set (List.map_filter (\<lambda>r. case r of Err e \<Rightarrow> Some e | Ok _ \<Rightarrow> None) (map snd (sort_key fst completed))) = set (errors_of completed)"
  by (auto simp: errors_of_set List.map_filter_def image_iff split: sum.splits) (force split: sum.splits)+

end
