(* ===== verification/Failure_Slot.thy ===== *)
theory Failure_Slot
  imports Errors "HOL-Library.AList" "HOL-Library.Word"
begin

text \<open>
  A target's last failure kept on disk for whoever reads the failure box (engine/failure_slot.rs):
  the name of an address's slot, the log that is worth keeping and its tail, the building of a slot
  beside its place and its renaming into place, and the slots an engine knows of.

  A slot is built by a sequence of calls to the file system.  \<open>fill_next\<close> is one call with what happens
  in it: it works, it fails, or it has only done part of its work so far.  A list of such events is a run
  of \<^verbatim>\<open>fill_slot\<close> up to some point, so that what holds after every list holds for a reader at any moment
  and after a crash.  The directories under \<^verbatim>\<open>failures/\<close> are an association list by name; encoding and
  decoding the manifest as JSON, the digest, and the answers of the file system are parameters.
\<close>

section \<open>The name of a slot\<close>

definition FAILURES_DIR :: rstr where "FAILURES_DIR = u ''failures''"

definition TEMP_PREFIX :: rstr where "TEMP_PREFIX = u ''.tmp-''"

definition MANIFEST_VERSION :: nat where "MANIFEST_VERSION = 1"

definition READABLE_MAX :: nat where "READABLE_MAX = 48"

text \<open>\<^verbatim>\<open>u64::to_le_bytes\<close>.\<close>

definition le_bytes8 :: "nat \<Rightarrow> nat list" where
  "le_bytes8 n = map (\<lambda>i. n div 256 ^ i mod 256) [0..<8]"

definition key_field :: "rstr \<Rightarrow> nat list" where
  "key_field s = le_bytes8 (length (str_bytes s)) @ str_bytes s"

definition key_bytes :: "AddrInner \<Rightarrow> nat list" where
  "key_bytes a = key_field (addr_package a) @ key_field (addr_name a)
     @ concat (map (\<lambda>(k, v). key_field k @ key_field v) (addr_args a))"

definition readable_char :: "rchar \<Rightarrow> rchar" where
  "readable_char c = (let c = (if is_ascii_uppercase c then c + 32 else c)
     in if is_ascii_lowercase c \<or> is_ascii_digit c then c else c_underscore)"

definition readable_part :: "AddrInner \<Rightarrow> rstr" where
  "readable_part a = map readable_char (take READABLE_MAX (addr_package a @ [c_colon] @ addr_name a))"

text \<open>\<^verbatim>\<open>{:032x}\<close>.\<close>

definition fmt_hex32 :: "nat \<Rightarrow> rstr" where
  "fmt_hex32 n = replicate (32 - length (fmt_hex n)) 48 @ fmt_hex n"

definition addr_key :: "(nat list \<Rightarrow> 128 word) \<Rightarrow> AddrInner \<Rightarrow> rstr" where
  "addr_key xxh3 a = readable_part a @ [c_dash] @ fmt_hex32 (unat (xxh3 (key_bytes a)))"

definition temp_name :: "rstr \<Rightarrow> rstr \<Rightarrow> rstr" where
  "temp_name key uuid = TEMP_PREFIX @ key @ [c_dash] @ uuid"

record SlotManifest =
  m_version :: nat
  m_addr :: rstr
  m_hashin :: rstr
  m_failed_at :: nat

section \<open>The log to keep\<close>

datatype LogSource = LogFile rstr | LogBytes "nat list"

definition select_log :: "err \<Rightarrow> LogSource option" where
  "select_log e = (case failure_artifacts e of
     None \<Rightarrow> None
   | Some artifacts \<Rightarrow>
       (let chosen = fold (\<lambda>a chosen. if oa_type a \<noteq> OaLog then chosen
              else if chosen \<noteq> None then chosen else Some a) artifacts None
        in case chosen of
             None \<Rightarrow> None
           | Some a \<Rightarrow> (case oa_content a of
               OaFile source_path _ _ _ \<Rightarrow> Some (LogFile source_path)
             | OaRaw data _ _ \<Rightarrow> Some (LogBytes data)
             | _ \<Rightarrow> None)))"

text \<open>The file system's answers: \<^verbatim>\<open>canonicalize\<close> as the components of the real path, whether the real
  path is a regular file, and the file opened for reading.\<close>

datatype fs_error = NotFound | OtherFailure

record fs_view =
  fv_canonicalize :: "rstr \<Rightarrow> fs_error + rstr list"
  fv_is_file :: "rstr list \<Rightarrow> fs_error + bool"
  fv_open :: "rstr list \<Rightarrow> open_log option"

text \<open>\<^verbatim>\<open>Path::starts_with\<close> compares whole components.\<close>

definition resolve_in_roots :: "fs_view \<Rightarrow> rstr \<Rightarrow> rstr list \<Rightarrow> fs_error + rstr list option" where
  "resolve_in_roots fs path roots = (case fv_canonicalize fs path of
     Err NotFound \<Rightarrow> Ok None
   | Err e \<Rightarrow> Err e
   | Ok real \<Rightarrow>
       if \<not> list_ex (\<lambda>root. case fv_canonicalize fs root of Ok r \<Rightarrow> starts_with r real | Err _ \<Rightarrow> False) roots then Ok None
       else (case fv_is_file fs real of
           Err e \<Rightarrow> Err e
         | Ok False \<Rightarrow> Ok None
         | Ok True \<Rightarrow> Ok (Some real)))"

text \<open>A source once resolved, and its tail in memory.\<close>

datatype ResolvedSource = RealFile "rstr list" | RealBytes "nat list"

definition bytes_reader :: "nat list \<Rightarrow> reader" where
  "bytes_reader bytes calls len off = (let src = drop off bytes; k = min (length src) len in RBytes (take k src))"

datatype memory_error = OpenFailed | LogFailed log_error

definition memory_tail :: "fs_view \<Rightarrow> ResolvedSource \<Rightarrow> nat \<Rightarrow> (memory_error + LogTail) option" where
  "memory_tail fs source lines = (case source of
     RealFile path \<Rightarrow> (case fv_open fs path of
       None \<Rightarrow> Some (Err OpenFailed)
     | Some file \<Rightarrow> (case ol_len file of
         None \<Rightarrow> Some (Err (LogFailed MetadataFailed))
       | Some len \<Rightarrow> map_option (map_sum (LogFailed \<circ> TailFailed) id) (read_tail_at (ol_read file) len lines)))
   | RealBytes bytes \<Rightarrow> map_option (map_sum (LogFailed \<circ> TailFailed) id) (read_tail_at (bytes_reader bytes) (length bytes) lines))"

section \<open>Building a slot\<close>

record slot_dir =
  sd_log :: "nat list option"
  sd_manifest :: "nat list option"

type_synonym slot_dirs = "(rstr \<times> slot_dir) list"

text \<open>The arguments of \<^verbatim>\<open>fill_slot\<close>: the slot's name and the two temporary names it makes, the manifest
  as JSON and the bytes of the log.\<close>

record fill_args =
  fa_key :: rstr
  fa_temp :: rstr
  fa_old :: rstr
  fa_json :: "nat list"
  fa_log :: "nat list"

datatype fill_pc = MakeRoot | MakeTemp | WriteLog | OpenLog | WriteManifest | MoveAside | Install | DropOld | DropTemp | Filled

record fill_state =
  fi_pc :: fill_pc
  fi_dirs :: slot_dirs
  fi_file :: "nat list option"
  fi_ok :: bool

datatype happening = Works | Fails | Partly "nat list"

definition put_log :: "rstr \<Rightarrow> nat list \<Rightarrow> slot_dirs \<Rightarrow> slot_dirs" where
  "put_log name bytes dirs = (case map_of dirs name of
     None \<Rightarrow> dirs
   | Some d \<Rightarrow> AList.update name (d\<lparr> sd_log := Some bytes \<rparr>) dirs)"

definition put_manifest :: "rstr \<Rightarrow> nat list \<Rightarrow> slot_dirs \<Rightarrow> slot_dirs" where
  "put_manifest name bytes dirs = (case map_of dirs name of
     None \<Rightarrow> dirs
   | Some d \<Rightarrow> AList.update name (d\<lparr> sd_manifest := Some bytes \<rparr>) dirs)"

text \<open>\<^verbatim>\<open>rename\<close> of a directory to a name that is free.\<close>

definition move_dir :: "rstr \<Rightarrow> rstr \<Rightarrow> slot_dirs \<Rightarrow> slot_dirs" where
  "move_dir from to dirs = (case map_of dirs from of
     None \<Rightarrow> dirs
   | Some d \<Rightarrow> AList.update to d (AList.delete from dirs))"

text \<open>\<^verbatim>\<open>remove_dir_all\<close> has deleted one of the two files so far.\<close>

definition unlink_one :: "rstr \<Rightarrow> nat list \<Rightarrow> slot_dirs \<Rightarrow> slot_dirs" where
  "unlink_one name which dirs = (case map_of dirs name of
     None \<Rightarrow> dirs
   | Some d \<Rightarrow> AList.update name (if which = [] then d\<lparr> sd_log := None \<rparr> else d\<lparr> sd_manifest := None \<rparr>) dirs)"

definition fill_next :: "fill_args \<Rightarrow> happening \<Rightarrow> fill_state \<Rightarrow> fill_state" where
  "fill_next a h s = (case fi_pc s of
     MakeRoot \<Rightarrow> (case h of Works \<Rightarrow> s\<lparr> fi_pc := MakeTemp \<rparr> | _ \<Rightarrow> s\<lparr> fi_pc := Filled \<rparr>)
   | MakeTemp \<Rightarrow> (case h of
       Works \<Rightarrow> s\<lparr> fi_dirs := AList.update (fa_temp a) \<lparr> sd_log = None, sd_manifest = None \<rparr> (fi_dirs s), fi_pc := WriteLog \<rparr>
     | _ \<Rightarrow> s\<lparr> fi_pc := DropTemp \<rparr>)
   | WriteLog \<Rightarrow> (case h of
       Works \<Rightarrow> s\<lparr> fi_dirs := put_log (fa_temp a) (fa_log a) (fi_dirs s), fi_pc := OpenLog \<rparr>
     | Partly bytes \<Rightarrow> s\<lparr> fi_dirs := put_log (fa_temp a) bytes (fi_dirs s) \<rparr>
     | Fails \<Rightarrow> s\<lparr> fi_pc := DropTemp \<rparr>)
   | OpenLog \<Rightarrow> (case h of
       Works \<Rightarrow> s\<lparr> fi_file := Option.bind (map_of (fi_dirs s) (fa_temp a)) sd_log, fi_pc := WriteManifest \<rparr>
     | _ \<Rightarrow> s\<lparr> fi_pc := DropTemp \<rparr>)
   | WriteManifest \<Rightarrow> (case h of
       Works \<Rightarrow> s\<lparr> fi_dirs := put_manifest (fa_temp a) (fa_json a) (fi_dirs s), fi_pc := MoveAside \<rparr>
     | Partly bytes \<Rightarrow> s\<lparr> fi_dirs := put_manifest (fa_temp a) bytes (fi_dirs s) \<rparr>
     | Fails \<Rightarrow> s\<lparr> fi_pc := DropTemp \<rparr>)
   | MoveAside \<Rightarrow> (case h of
       Works \<Rightarrow> s\<lparr> fi_dirs := move_dir (fa_key a) (fa_old a) (fi_dirs s), fi_pc := Install \<rparr>
     | _ \<Rightarrow> s\<lparr> fi_pc := DropOld \<rparr>)
   | Install \<Rightarrow> (case h of
       Works \<Rightarrow> s\<lparr> fi_dirs := move_dir (fa_temp a) (fa_key a) (fi_dirs s), fi_ok := True, fi_pc := DropOld \<rparr>
     | _ \<Rightarrow> s\<lparr> fi_pc := DropOld \<rparr>)
   | DropOld \<Rightarrow> (case h of
       Partly which \<Rightarrow> s\<lparr> fi_dirs := unlink_one (fa_old a) which (fi_dirs s) \<rparr>
     | Works \<Rightarrow> s\<lparr> fi_dirs := AList.delete (fa_old a) (fi_dirs s), fi_pc := if fi_ok s then Filled else DropTemp \<rparr>
     | Fails \<Rightarrow> s\<lparr> fi_pc := if fi_ok s then Filled else DropTemp \<rparr>)
   | DropTemp \<Rightarrow> (case h of
       Partly which \<Rightarrow> s\<lparr> fi_dirs := unlink_one (fa_temp a) which (fi_dirs s) \<rparr>
     | Works \<Rightarrow> s\<lparr> fi_dirs := AList.delete (fa_temp a) (fi_dirs s), fi_pc := Filled \<rparr>
     | Fails \<Rightarrow> s\<lparr> fi_pc := Filled \<rparr>)
   | Filled \<Rightarrow> s)"

definition fill_slot :: "fill_args \<Rightarrow> happening list \<Rightarrow> slot_dirs \<Rightarrow> fill_state" where
  "fill_slot a hs dirs = fold (fill_next a) hs \<lparr> fi_pc = MakeRoot, fi_dirs = dirs, fi_file = None, fi_ok = False \<rparr>"

section \<open>Reading a slot\<close>

text \<open>The manifest is read first; that there is a log is asked afterwards, of the directory as it is
  then.\<close>

definition read_any_manifest :: "(nat list \<Rightarrow> SlotManifest option) \<Rightarrow> slot_dir option \<Rightarrow> slot_dir option \<Rightarrow> SlotManifest option" where
  "read_any_manifest from_json dir later =
     Option.bind (Option.bind dir sd_manifest) (\<lambda>bytes.
     Option.bind (from_json bytes) (\<lambda>m.
       if m_version m = MANIFEST_VERSION \<and> Option.bind later sd_log \<noteq> None then Some m else None))"

definition read_manifest :: "(nat list \<Rightarrow> SlotManifest option) \<Rightarrow> slot_dir option \<Rightarrow> slot_dir option \<Rightarrow> AddrInner \<Rightarrow> SlotManifest option" where
  "read_manifest from_json dir later addr =
     (case read_any_manifest from_json dir later of Some m \<Rightarrow> if m_addr m = format_addr addr then Some m else None | None \<Rightarrow> None)"

section \<open>The slots an engine knows of\<close>

text \<open>The names a directory listing gives, or that it cannot be listed; a name starting with a dot is a
  temporary.\<close>

definition list_slots :: "bool \<Rightarrow> slot_dirs \<Rightarrow> rstr list" where
  "list_slots listable dirs = (if listable then filter (\<lambda>n. \<not> starts_with [c_dot] n) (map fst dirs) else [])"

record FailureSlots =
  fs_known :: "rstr list option"
  fs_dirs :: slot_dirs

definition slots_new :: "slot_dirs \<Rightarrow> FailureSlots" where
  "slots_new dirs = \<lparr> fs_known = None, fs_dirs = dirs \<rparr>"

definition slot_read :: "(nat list \<Rightarrow> 128 word) \<Rightarrow> (nat list \<Rightarrow> SlotManifest option) \<Rightarrow> slot_dirs \<Rightarrow> slot_dirs \<Rightarrow> AddrInner \<Rightarrow> SlotManifest option" where
  "slot_read xxh3 from_json dirs later addr =
     read_manifest from_json (map_of dirs (addr_key xxh3 addr)) (map_of later (addr_key xxh3 addr)) addr"

definition fs_list :: "bool \<Rightarrow> FailureSlots \<Rightarrow> rstr list \<times> FailureSlots" where
  "fs_list listable s = (case fs_known s of
     Some known \<Rightarrow> (known, s)
   | None \<Rightarrow> let known = list_slots listable (fs_dirs s) in (known, s\<lparr> fs_known := Some known \<rparr>))"

text \<open>\<open>removed\<close> tells whether \<^verbatim>\<open>remove_dir_all\<close> works; a failure is only logged.\<close>

definition clear :: "(nat list \<Rightarrow> 128 word) \<Rightarrow> bool \<Rightarrow> bool \<Rightarrow> AddrInner \<Rightarrow> FailureSlots \<Rightarrow> FailureSlots" where
  "clear xxh3 listable removed addr s = (let (known, s) = fs_list listable s
     in if known = [] then s
        else let key = addr_key xxh3 addr
          in if key \<notin> set known then s
             else s\<lparr> fs_known := Some (filter (\<lambda>n. n \<noteq> key) known),
                     fs_dirs := (if removed then AList.delete key (fs_dirs s) else fs_dirs s) \<rparr>)"

record Fill =
  f_addr :: AddrInner
  f_hashin :: rstr
  f_roots :: "rstr list"
  f_err :: err
  f_lines :: nat
  f_material :: bool

datatype FillResult = FilledNothing | FilledMemory LogTail | FilledSlot FailureLog | FilledFailed "LogTail option"

definition slot_manifest :: "Fill \<Rightarrow> nat \<Rightarrow> SlotManifest" where
  "slot_manifest fill now = \<lparr> m_version = MANIFEST_VERSION, m_addr = format_addr (f_addr fill), m_hashin = f_hashin fill, m_failed_at = now \<rparr>"

text \<open>What a fill is given besides its arguments: the view of the file system, how the JSON encoder and
  the digest answer, the time, the two temporary names, the bytes a copy of a file takes, the open file
  a slot's log gives, what happens in each call of \<^verbatim>\<open>fill_slot\<close>, and whether \<^verbatim>\<open>failures/\<close> can be listed.\<close>

record fill_env =
  fe_fs :: fs_view
  fe_to_json :: "SlotManifest \<Rightarrow> nat list"
  fe_xxh3 :: "nat list \<Rightarrow> 128 word"
  fe_now :: nat
  fe_uuids :: "rstr \<times> rstr"
  fe_copied :: "rstr list \<Rightarrow> nat list"
  fe_handle :: "nat list \<Rightarrow> open_log"
  fe_events :: "happening list"
  fe_listable :: bool
  fe_root :: rstr

definition fill_args_of :: "fill_env \<Rightarrow> Fill \<Rightarrow> ResolvedSource \<Rightarrow> fill_args" where
  "fill_args_of env fill source = (let key = addr_key (fe_xxh3 env) (f_addr fill) in
     \<lparr> fa_key = key, fa_temp = temp_name key (fst (fe_uuids env)), fa_old = temp_name key (snd (fe_uuids env)),
       fa_json = fe_to_json env (slot_manifest fill (fe_now env)),
       fa_log = (case source of RealFile path \<Rightarrow> fe_copied env path | RealBytes bytes \<Rightarrow> bytes) \<rparr>)"

text \<open>The blocking part of \<^verbatim>\<open>fill\<close> on a resolved source; \<open>None\<close> when reading a tail never ends.\<close>

definition fill_resolved :: "fill_env \<Rightarrow> Fill \<Rightarrow> ResolvedSource \<Rightarrow> slot_dirs \<Rightarrow> (FillResult \<times> slot_dirs) option" where
  "fill_resolved env fill source dirs =
     (if f_material fill then (case memory_tail (fe_fs env) source (f_lines fill) of
          None \<Rightarrow> None
        | Some (Ok t) \<Rightarrow> Some (FilledMemory t, dirs)
        | Some (Err _) \<Rightarrow> Some (FilledFailed None, dirs))
      else let a = fill_args_of env fill source; s = fill_slot a (fe_events env) dirs
        in (case (fi_ok s, fi_file s) of
              (True, Some bytes) \<Rightarrow>
                Some (FilledSlot (log_open (fe_root env @ [c_slash] @ fa_key a @ [c_slash] @ LOG_NAME) (fe_handle env bytes) (f_lines fill)), fi_dirs s)
            | _ \<Rightarrow> (case memory_tail (fe_fs env) source (f_lines fill) of
                None \<Rightarrow> None
              | Some r \<Rightarrow> Some (FilledFailed (case r of Ok t \<Rightarrow> Some t | Err _ \<Rightarrow> None), fi_dirs s))))"

definition fill_blocking :: "fill_env \<Rightarrow> Fill \<Rightarrow> LogSource \<Rightarrow> slot_dirs \<Rightarrow> (FillResult \<times> slot_dirs) option" where
  "fill_blocking env fill source dirs = (case source of
     LogFile path \<Rightarrow> (case resolve_in_roots (fe_fs env) path (f_roots fill) of
         Ok (Some p) \<Rightarrow> fill_resolved env fill (RealFile p) dirs
       | Ok None \<Rightarrow> Some (FilledNothing, dirs)
       | Err _ \<Rightarrow> Some (FilledFailed None, dirs))
   | LogBytes bytes \<Rightarrow> fill_resolved env fill (RealBytes bytes) dirs)"

definition slots_fill :: "fill_env \<Rightarrow> Fill \<Rightarrow> FailureSlots \<Rightarrow> (FailureLog option \<times> FailureSlots) option" where
  "slots_fill env f s = (case select_log (f_err f) of
     None \<Rightarrow> Some (None, s)
   | Some source \<Rightarrow> (case fill_blocking env f source (fs_dirs s) of
       None \<Rightarrow> None
     | Some (FilledNothing, dirs) \<Rightarrow> Some (None, s\<lparr> fs_dirs := dirs \<rparr>)
     | Some (FilledMemory tail, dirs) \<Rightarrow> Some (Some (log_in_memory tail), s\<lparr> fs_dirs := dirs \<rparr>)
     | Some (FilledSlot log, dirs) \<Rightarrow>
         (let (known, s) = fs_list (fe_listable env) (s\<lparr> fs_dirs := dirs \<rparr>)
          in Some (Some log, s\<lparr> fs_known := Some (List.insert (addr_key (fe_xxh3 env) (f_addr f)) known) \<rparr>))
     | Some (FilledFailed tail, dirs) \<Rightarrow> Some (map_option log_in_memory tail, s\<lparr> fs_dirs := dirs \<rparr>)))"

section \<open>A name tells the address\<close>

lemma fmt_hex_length: "0 < k \<Longrightarrow> n < 16 ^ k \<Longrightarrow> length (fmt_hex n) \<le> k"
proof (induction k arbitrary: n)
  case (Suc k)
  show ?case
  proof (cases "n < 16")
    case True
    then show ?thesis by (simp add: fmt_hex.simps)
  next
    case False
    then have "0 < k" using Suc(3) by (cases k) auto
    moreover have "n div 16 < 16 ^ k" using Suc(3) by (simp add: less_mult_imp_div_less mult.commute)
    ultimately have "length (fmt_hex (n div 16)) \<le> k" using Suc(1) by blast
    moreover have "fmt_hex n = fmt_hex (n div 16) @ [hex_digit (n mod 16)]" using False by (subst fmt_hex.simps) simp
    ultimately show ?thesis by simp
  qed
qed simp

lemma fmt_hex32_length: "length (fmt_hex32 (unat (d :: 128 word))) = 32"
proof -
  have "unat d < 2 ^ 128" using unsigned_less [of d, where 'a = nat] by simp
  then have "unat d < 16 ^ 32" by simp
  then show ?thesis using fmt_hex_length [of 32 "unat d"] by (simp add: fmt_hex32_def)
qed

lemma hex_zeros: "foldl (\<lambda>n c. 16 * n + hex_val c) 0 (replicate k 48) = 0"
  by (induction k) (simp_all add: hex_val_def is_ascii_digit_def)

lemma fmt_hex32_inj: "fmt_hex32 m = fmt_hex32 n \<Longrightarrow> m = n"
proof -
  have "foldl (\<lambda>n c. 16 * n + hex_val c) 0 (fmt_hex32 n) = n" for n
    by (simp add: fmt_hex32_def hex_zeros fmt_hex_val)
  then show "fmt_hex32 m = fmt_hex32 n \<Longrightarrow> m = n" by metis
qed

lemma le_bytes8_inj:
  assumes "le_bytes8 m = le_bytes8 n" "m < 2 ^ 64" "n < 2 ^ 64"
  shows "m = n"
proof -
  have val: "(\<Sum>i<k. (x div 256 ^ i mod 256) * 256 ^ i) = x mod 256 ^ k" for x k :: nat
  proof (induction k)
    case (Suc k)
    have "x mod 256 ^ Suc k = x mod 256 ^ k + 256 ^ k * (x div 256 ^ k mod 256)"
      using mod_mult2_eq [of x "256 ^ k" 256] by (simp add: mult.commute)
    then show ?case using Suc by simp
  qed simp
  have "\<forall>i<8. m div 256 ^ i mod 256 = n div 256 ^ i mod 256"
    using assms(1) by (auto simp: le_bytes8_def list_eq_iff_nth_eq)
  then have "m mod 256 ^ 8 = n mod 256 ^ 8"
    unfolding val [symmetric] by (intro sum.cong) auto
  then show ?thesis using assms(2,3) by simp
qed

definition str_ok :: "rstr \<Rightarrow> bool" where
  "str_ok s \<longleftrightarrow> list_all is_scalar s \<and> length (str_bytes s) < 2 ^ 64"

definition addr_ok :: "AddrInner \<Rightarrow> bool" where
  "addr_ok a \<longleftrightarrow> str_ok (addr_package a) \<and> str_ok (addr_name a) \<and> list_all (\<lambda>(k, v). str_ok k \<and> str_ok v) (addr_args a)"

lemma le_bytes8_length [simp]: "length (le_bytes8 n) = 8"
  by (simp add: le_bytes8_def)

lemma key_field_inj:
  assumes "key_field s @ x = key_field t @ y" "str_ok s" "str_ok t"
  shows "s = t \<and> x = y"
proof -
  have "le_bytes8 (length (str_bytes s)) = le_bytes8 (length (str_bytes t))"
    and rest: "str_bytes s @ x = str_bytes t @ y"
    using assms(1) by (simp_all add: key_field_def)
  then have "length (str_bytes s) = length (str_bytes t)" using le_bytes8_inj assms(2,3) by (auto simp: str_ok_def)
  then have "str_bytes s = str_bytes t" "x = y" using rest by auto
  then show ?thesis using str_bytes_inj assms(2,3) by (auto simp: str_ok_def)
qed

lemma key_args_inj:
  assumes "concat (map (\<lambda>(k, v). key_field k @ key_field v) xs) = concat (map (\<lambda>(k, v). key_field k @ key_field v) ys)"
    and "list_all (\<lambda>(k, v). str_ok k \<and> str_ok v) xs" "list_all (\<lambda>(k, v). str_ok k \<and> str_ok v) ys"
  shows "xs = ys"
  using assms
proof (induction xs arbitrary: ys)
  case Nil
  then show ?case by (cases ys) (auto simp: key_field_def le_bytes8_def split: prod.splits)
next
  case (Cons x xs)
  obtain k v where x: "x = (k, v)" by fastforce
  obtain y ys' where ys: "ys = y # ys'" using Cons(2) x by (cases ys) (auto simp: key_field_def le_bytes8_def)
  obtain k' v' where y: "y = (k', v')" by fastforce
  let ?c = "\<lambda>zs. concat (map (\<lambda>(k, v). key_field k @ key_field v) zs)"
  have eq: "key_field k @ key_field v @ ?c xs = key_field k' @ key_field v' @ ?c ys'" using Cons(2) x y ys by simp
  have k: "k = k' \<and> key_field v @ ?c xs = key_field v' @ ?c ys'"
    using key_field_inj [OF eq] Cons(3,4) x y ys by simp
  then have "v = v' \<and> ?c xs = ?c ys'"
    using key_field_inj [of v "?c xs" v' "?c ys'"] Cons(3,4) x y ys by simp
  then show ?case using Cons(1) [of ys'] Cons(3,4) k x y ys by simp
qed

lemma key_bytes_inj:
  assumes "key_bytes a = key_bytes b" "addr_ok a" "addr_ok b"
  shows "a = b"
proof -
  let ?c = "\<lambda>zs. concat (map (\<lambda>(k, v). key_field k @ key_field v) zs)"
  have eq: "key_field (addr_package a) @ key_field (addr_name a) @ ?c (addr_args a)
      = key_field (addr_package b) @ key_field (addr_name b) @ ?c (addr_args b)"
    using assms(1) by (simp add: key_bytes_def)
  have p: "addr_package a = addr_package b \<and> key_field (addr_name a) @ ?c (addr_args a) = key_field (addr_name b) @ ?c (addr_args b)"
    using key_field_inj [OF eq] assms(2,3) by (simp add: addr_ok_def)
  then have n: "addr_name a = addr_name b \<and> ?c (addr_args a) = ?c (addr_args b)"
    using key_field_inj [of "addr_name a" "?c (addr_args a)" "addr_name b" "?c (addr_args b)"] assms(2,3) by (simp add: addr_ok_def)
  then have "addr_args a = addr_args b" using key_args_inj assms(2,3) by (simp add: addr_ok_def)
  then show ?thesis using p n by simp
qed

lemma addr_key_digest:
  assumes "addr_key xxh3 a = addr_key xxh3 b"
  shows "xxh3 (key_bytes a) = xxh3 (key_bytes b)"
proof -
  let ?h = "\<lambda>a. fmt_hex32 (unat (xxh3 (key_bytes a)))"
  have "rev (take 32 (rev (addr_key xxh3 c))) = ?h c" for c
    using fmt_hex32_length [of "xxh3 (key_bytes c)"] by (simp add: addr_key_def)
  then have "?h a = ?h b" using assms by metis
  then show ?thesis using fmt_hex32_inj by (metis word_unat_eq_iff)
qed

definition key_char :: "rchar \<Rightarrow> bool" where
  "key_char c \<longleftrightarrow> is_ascii_lowercase c \<or> is_ascii_digit c \<or> c = c_underscore \<or> c = c_dash"

lemma readable_key_char: "key_char (readable_char c)"
  by (auto simp: readable_char_def key_char_def Let_def)

lemma hex32_key_char: "list_all key_char (fmt_hex32 n)"
  using fmt_hex_chars [of _ n]
  by (fastforce simp: fmt_hex32_def list_all_iff key_char_def is_ascii_digit_def is_ascii_lowercase_def)

text \<open>C25: The name of an address's failure slot is safe as a file name and never looks like a temporary:
  at most 81 characters, each a lower-case letter, a digit, an underscore or a dash.  Two addresses have
  the same name only if the digest itself collides: what is digested is different for different
  addresses, each field preceded by its length.\<close>

theorem addr_key_identifies:
  assumes "addr_ok a" "addr_ok b"
  shows "list_all key_char (addr_key xxh3 a) \<and> length (addr_key xxh3 a) \<le> 81
    \<and> (addr_key xxh3 a = addr_key xxh3 b \<and> a \<noteq> b
        \<longrightarrow> key_bytes a \<noteq> key_bytes b \<and> xxh3 (key_bytes a) = xxh3 (key_bytes b))"
proof -
  have "list_all key_char (readable_part a)"
    by (auto simp: readable_part_def list_all_iff readable_key_char)
  then have "list_all key_char (addr_key xxh3 a)"
    using hex32_key_char by (simp add: addr_key_def key_char_def)
  moreover have "length (addr_key xxh3 a) \<le> 81"
    by (simp add: addr_key_def fmt_hex32_length readable_part_def READABLE_MAX_def)
  ultimately show ?thesis using addr_key_digest key_bytes_inj assms by blast
qed

theorem addr_key_identifies_witness:
  "addr_key (\<lambda>_. 7) \<lparr> addr_package = u ''a'', addr_name = u ''b'', addr_args = [] \<rparr>
     = addr_key (\<lambda>_. 7) \<lparr> addr_package = u ''A'', addr_name = u ''b'', addr_args = [] \<rparr>
   \<and> key_bytes \<lparr> addr_package = u ''a'', addr_name = u ''b'', addr_args = [] \<rparr>
       \<noteq> key_bytes \<lparr> addr_package = u ''A'', addr_name = u ''b'', addr_args = [] \<rparr>"
proof -
  let ?a = "\<lparr> addr_package = u ''a'', addr_name = u ''b'', addr_args = [] \<rparr>"
  let ?b = "\<lparr> addr_package = u ''A'', addr_name = u ''b'', addr_args = [] \<rparr>"
  have ok: "addr_ok ?a" "addr_ok ?b"
    by (simp_all add: addr_ok_def str_ok_def is_scalar_def str_bytes_def char_bytes_def)
  have "addr_key (\<lambda>_. 7) ?a = addr_key (\<lambda>_. 7) ?b"
    by (simp add: addr_key_def readable_part_def READABLE_MAX_def readable_char_def is_ascii_uppercase_def is_ascii_lowercase_def)
  then show ?thesis using addr_key_identifies [OF ok, of "\<lambda>_. 7"] by simp
qed

section \<open>A slot is the old one, the new one or none\<close>

abbreviation new_slot :: "fill_args \<Rightarrow> slot_dir" where
  "new_slot a \<equiv> \<lparr> sd_log = Some (fa_log a), sd_manifest = Some (fa_json a) \<rparr>"

text \<open>What stands under the three names at each point of a fill.\<close>

definition fill_shape :: "fill_args \<Rightarrow> slot_dirs \<Rightarrow> fill_state \<Rightarrow> bool" where
  "fill_shape a dirs s \<longleftrightarrow> (let D = map_of (fi_dirs s); D0 = map_of dirs in
     case fi_pc s of
       MakeRoot \<Rightarrow> D = D0 \<and> \<not> fi_ok s
     | MakeTemp \<Rightarrow> D = D0 \<and> \<not> fi_ok s
     | WriteLog \<Rightarrow> D (fa_key a) = D0 (fa_key a) \<and> (\<exists>d. D (fa_temp a) = Some d \<and> sd_manifest d = None) \<and> \<not> fi_ok s
     | OpenLog \<Rightarrow> D (fa_key a) = D0 (fa_key a) \<and> (\<exists>d. D (fa_temp a) = Some d \<and> sd_log d = Some (fa_log a)) \<and> \<not> fi_ok s
     | WriteManifest \<Rightarrow> D (fa_key a) = D0 (fa_key a) \<and> (\<exists>d. D (fa_temp a) = Some d \<and> sd_log d = Some (fa_log a))
         \<and> fi_file s = Some (fa_log a) \<and> \<not> fi_ok s
     | MoveAside \<Rightarrow> D (fa_key a) = D0 (fa_key a) \<and> D (fa_temp a) = Some (new_slot a) \<and> fi_file s = Some (fa_log a) \<and> \<not> fi_ok s
     | Install \<Rightarrow> D (fa_key a) = None \<and> D (fa_temp a) = Some (new_slot a) \<and> fi_file s = Some (fa_log a) \<and> \<not> fi_ok s
     | _ \<Rightarrow> if fi_ok s then D (fa_key a) = Some (new_slot a) \<and> fi_file s = Some (fa_log a)
           else D (fa_key a) = D0 (fa_key a) \<or> D (fa_key a) = None)"

lemma map_of_put_log: "map_of (put_log name bytes dirs) n = (if n = name then map_option (\<lambda>d. d\<lparr> sd_log := Some bytes \<rparr>) (map_of dirs name) else map_of dirs n)"
  by (auto simp: put_log_def update_conv' split: option.splits)

lemma map_of_put_manifest: "map_of (put_manifest name bytes dirs) n = (if n = name then map_option (\<lambda>d. d\<lparr> sd_manifest := Some bytes \<rparr>) (map_of dirs name) else map_of dirs n)"
  by (auto simp: put_manifest_def update_conv' split: option.splits)

lemma map_of_move_dir: "from \<noteq> to \<Longrightarrow> map_of (move_dir from to dirs) n =
    (if n = from then None else if n = to \<and> map_of dirs from \<noteq> None then map_of dirs from else map_of dirs n)"
  by (auto simp: move_dir_def update_conv' delete_conv' split: option.splits)

lemma map_of_unlink_one: "n \<noteq> name \<Longrightarrow> map_of (unlink_one name which dirs) n = map_of dirs n"
  by (auto simp: unlink_one_def update_conv' split: option.splits)

lemmas slot_maps = map_of_put_log map_of_put_manifest map_of_move_dir map_of_unlink_one update_conv' delete_conv'

lemma fill_next_shape:
  assumes "distinct [fa_key a, fa_temp a, fa_old a]" "fill_shape a dirs s"
  shows "fill_shape a dirs (fill_next a h s)"
  using assms
  by (cases "fi_pc s"; cases h) (auto simp: fill_shape_def fill_next_def slot_maps Let_def split: if_splits)

lemma fill_next_others:
  assumes "n \<notin> {fa_key a, fa_temp a, fa_old a}" "distinct [fa_key a, fa_temp a, fa_old a]"
  shows "map_of (fi_dirs (fill_next a h s)) n = map_of (fi_dirs s) n"
  using assms
  by (cases "fi_pc s"; cases h) (auto simp: fill_next_def slot_maps)

lemma fill_slot_shape:
  assumes "distinct [fa_key a, fa_temp a, fa_old a]"
  shows "fill_shape a dirs (fill_slot a hs dirs)"
proof (induction hs rule: rev_induct)
  case Nil
  then show ?case by (simp add: fill_slot_def fill_shape_def)
next
  case (snoc h hs)
  then show ?case using fill_next_shape [OF assms] by (simp add: fill_slot_def)
qed

lemma fill_slot_others:
  assumes "n \<notin> {fa_key a, fa_temp a, fa_old a}" "distinct [fa_key a, fa_temp a, fa_old a]"
  shows "map_of (fi_dirs (fill_slot a hs dirs)) n = map_of dirs n"
proof (induction hs rule: rev_induct)
  case (snoc h hs)
  then show ?case using fill_next_others [OF assms] by (simp add: fill_slot_def)
qed (simp add: fill_slot_def)

lemma fill_slot_key:
  assumes "distinct [fa_key a, fa_temp a, fa_old a]"
  shows "map_of (fi_dirs (fill_slot a hs dirs)) (fa_key a) \<in> {map_of dirs (fa_key a), None, Some (new_slot a)}"
  using fill_slot_shape [OF assms, of dirs hs]
  by (cases "fi_pc (fill_slot a hs dirs)") (auto simp: fill_shape_def Let_def split: if_splits)

lemma fill_slot_ok:
  assumes "distinct [fa_key a, fa_temp a, fa_old a]" "fi_ok (fill_slot a hs dirs)"
  shows "map_of (fi_dirs (fill_slot a hs dirs)) (fa_key a) = Some (new_slot a) \<and> fi_file (fill_slot a hs dirs) = Some (fa_log a)"
  using fill_slot_shape [OF assms(1), of dirs hs] assms(2)
  by (cases "fi_pc (fill_slot a hs dirs)") (auto simp: fill_shape_def Let_def)

lemma fill_slot_works:
  assumes "distinct [fa_key a, fa_temp a, fa_old a]"
  shows "fi_pc (fill_slot a (replicate 8 Works) dirs) = Filled \<and> fi_ok (fill_slot a (replicate 8 Works) dirs)
    \<and> map_of (fi_dirs (fill_slot a (replicate 8 Works) dirs)) (fa_temp a) = None
    \<and> map_of (fi_dirs (fill_slot a (replicate 8 Works) dirs)) (fa_old a) = None"
  using assms by (auto simp: fill_slot_def fill_next_def numeral_eq_Suc slot_maps)

lemma read_any_manifest_new:
  assumes "from_json (fa_json a) = Some m" "m_version m = MANIFEST_VERSION" "Option.bind later sd_log \<noteq> None"
  shows "read_any_manifest from_json (Some (new_slot a)) later = Some m"
  using assms by (simp add: read_any_manifest_def)

text \<open>C7: Whoever reads a failure slot while it is being replaced, or after a crash at any point of the
  replacement, finds the old manifest, the new one or no slot: reading the manifest at one moment and
  asking for the log at a later one never shows a part of a slot.  The directory in the slot's place is
  always the whole old one, the whole new one or missing, a fill that reports success has put the new
  one there with its log open, and no other slot is touched.\<close>

theorem slot_old_or_new:
  assumes "distinct [fa_key a, fa_temp a, fa_old a]"
    and "from_json (fa_json a) = Some m" "m_version m = MANIFEST_VERSION"
    and "\<forall>d. map_of dirs (fa_key a) = Some d \<longrightarrow> sd_log d \<noteq> None"
  shows "read_any_manifest from_json (map_of (fi_dirs (fill_slot a hs dirs)) (fa_key a)) (map_of (fi_dirs (fill_slot a (hs @ hs') dirs)) (fa_key a))
      \<in> {None, read_any_manifest from_json (map_of dirs (fa_key a)) (map_of dirs (fa_key a)), Some m}
    \<and> map_of (fi_dirs (fill_slot a hs dirs)) (fa_key a) \<in> {map_of dirs (fa_key a), None, Some (new_slot a)}
    \<and> (fi_ok (fill_slot a hs dirs) \<longrightarrow> map_of (fi_dirs (fill_slot a hs dirs)) (fa_key a) = Some (new_slot a)
        \<and> fi_file (fill_slot a hs dirs) = Some (fa_log a))
    \<and> (n \<notin> {fa_key a, fa_temp a, fa_old a} \<longrightarrow> map_of (fi_dirs (fill_slot a hs dirs)) n = map_of dirs n)"
proof -
  let ?d0 = "map_of dirs (fa_key a)"
  let ?r = "read_any_manifest from_json"
  have "?r d later \<in> {None, ?r ?d0 ?d0, Some m}" if "d \<in> {?d0, None, Some (new_slot a)}" for d later
  proof -
    have "?r (Some (new_slot a)) later \<in> {None, Some m}" using assms(2,3) by (simp add: read_any_manifest_def)
    moreover have "?r None later = None" by (simp add: read_any_manifest_def)
    moreover have "?r ?d0 later \<in> {None, ?r ?d0 ?d0}"
      using assms(4) by (cases ?d0) (auto simp: read_any_manifest_def split: Option.bind_split)
    ultimately show ?thesis using that by auto
  qed
  then have "?r (map_of (fi_dirs (fill_slot a hs dirs)) (fa_key a)) (map_of (fi_dirs (fill_slot a (hs @ hs') dirs)) (fa_key a))
      \<in> {None, ?r ?d0 ?d0, Some m}" using fill_slot_key [OF assms(1)] by blast
  then show ?thesis
    using fill_slot_key [OF assms(1)] fill_slot_ok [OF assms(1)] fill_slot_others [OF _ assms(1)] by blast
qed

definition sample_fill :: fill_args where
  "sample_fill = \<lparr> fa_key = u ''k'', fa_temp = u ''.tmp-a'', fa_old = u ''.tmp-b'', fa_json = [123], fa_log = [66] \<rparr>"

theorem slot_old_or_new_witness:
  "read_any_manifest (\<lambda>_. Some \<lparr> m_version = 1, m_addr = [], m_hashin = [], m_failed_at = 5 \<rparr>)
      (map_of (fi_dirs (fill_slot sample_fill (replicate 6 Works) [(u ''k'', \<lparr> sd_log = Some [65], sd_manifest = Some [1] \<rparr>)])) (u ''k''))
      (map_of (fi_dirs (fill_slot sample_fill (replicate 6 Works @ [Works]) [(u ''k'', \<lparr> sd_log = Some [65], sd_manifest = Some [1] \<rparr>)])) (u ''k''))
    = None
   \<and> map_of (fi_dirs (fill_slot sample_fill (replicate 8 Works) [(u ''k'', \<lparr> sd_log = Some [65], sd_manifest = Some [1] \<rparr>)])) (u ''k'')
    = Some \<lparr> sd_log = Some [66], sd_manifest = Some [123] \<rparr>"
proof -
  let ?dirs = "[(u ''k'', \<lparr> sd_log = Some [65], sd_manifest = Some [1] \<rparr>)]"
  let ?m = "\<lparr> m_version = 1, m_addr = [], m_hashin = [], m_failed_at = 5 \<rparr>"
  have d: "distinct [fa_key sample_fill, fa_temp sample_fill, fa_old sample_fill]" by (simp add: sample_fill_def)
  have c: "\<forall>d. map_of ?dirs (fa_key sample_fill) = Some d \<longrightarrow> sd_log d \<noteq> None" by (auto simp: sample_fill_def)
  have "fi_ok (fill_slot sample_fill (replicate 8 Works) ?dirs)" using fill_slot_works [OF d] by blast
  then have "map_of (fi_dirs (fill_slot sample_fill (replicate 8 Works) ?dirs)) (fa_key sample_fill) = Some (new_slot sample_fill)"
    using slot_old_or_new [OF d, of "\<lambda>_. Some ?m" ?m ?dirs "replicate 8 Works" "[]" "[]"] c by (simp add: MANIFEST_VERSION_def)
  moreover have "map_of (fi_dirs (fill_slot sample_fill (replicate 6 Works) ?dirs)) (u ''k'') = None"
    by (simp add: fill_slot_def fill_next_def numeral_eq_Suc slot_maps sample_fill_def)
  ultimately show ?thesis by (simp add: sample_fill_def read_any_manifest_def)
qed

section \<open>What a fill keeps\<close>

lemma bytes_reader_file: "reads_file (bytes_reader bytes) bytes"
  unfolding reads_file_def
proof (intro allI impI)
  fix i len off bs
  assume "bytes_reader bytes i len off = RBytes bs"
  then have "bs = take (min (length bytes - off) len) (drop off bytes)" by (simp add: bytes_reader_def Let_def)
  then show "(\<exists>k\<le>len. bs = take k (drop off bytes)) \<and> (0 < len \<and> off < length bytes \<longrightarrow> bs \<noteq> [])"
    by (intro conjI exI [of _ "min (length bytes - off) len"]) auto
qed

interpretation bytes: file_reader "bytes_reader bytes" bytes for bytes
  by unfold_locales (rule bytes_reader_file)

lemma bytes_reader_succeeds: "reads_succeed (bytes_reader bytes)"
  by (auto simp: reads_succeed_def bytes_reader_def Let_def)

text \<open>The tail of bytes in memory is the tail of their text, always.\<close>

lemma memory_tail_bytes: "memory_tail fs (RealBytes bytes) n = Some (Ok (whole_tail bytes n))"
proof -
  have "tail_right (bytes_reader bytes) bytes n (read_tail_at (bytes_reader bytes) (length bytes) n)"
    by (rule bytes.read_tail_at_right)
  then have "read_tail_at (bytes_reader bytes) (length bytes) n = Some (Ok (whole_tail bytes n))"
    using bytes_reader_succeeds [of bytes]
    by (cases "read_tail_at (bytes_reader bytes) (length bytes) n"; cases "the (read_tail_at (bytes_reader bytes) (length bytes) n)")
       (auto simp: tail_right_simps)
  then show ?thesis by (simp add: memory_tail_def)
qed

definition inside_roots :: "fs_view \<Rightarrow> rstr list \<Rightarrow> rstr \<Rightarrow> rstr list \<Rightarrow> bool" where
  "inside_roots fs roots path real \<longleftrightarrow> fv_canonicalize fs path = Ok real \<and> fv_is_file fs real = Ok True
     \<and> (\<exists>root\<in>set roots. \<exists>r. fv_canonicalize fs root = Ok r \<and> starts_with r real)"

lemma resolve_inside:
  assumes "resolve_in_roots fs path roots = Ok (Some real)"
  shows "inside_roots fs roots path real"
proof (cases "fv_canonicalize fs path")
  case (Inl e)
  then show ?thesis using assms by (cases e) (simp_all add: resolve_in_roots_def)
next
  case (Inr r)
  have ex: "list_ex (\<lambda>root. case fv_canonicalize fs root of Ok r' \<Rightarrow> starts_with r' r | Err _ \<Rightarrow> False) roots"
    using assms Inr by (auto simp: resolve_in_roots_def split: if_splits)
  then have "fv_is_file fs r = Ok True \<and> real = r"
    using assms Inr by (cases "fv_is_file fs r") (auto simp: resolve_in_roots_def split: bool.splits)
  moreover obtain root where root: "root \<in> set roots" "case fv_canonicalize fs root of Ok r' \<Rightarrow> starts_with r' r | Err _ \<Rightarrow> False"
    using ex by (auto simp: list_ex_iff)
  then obtain r' where "fv_canonicalize fs root = Ok r'" "starts_with r' r" by (cases "fv_canonicalize fs root") auto
  ultimately show ?thesis using root(1) Inr unfolding inside_roots_def by blast
qed

lemma fill_resolved_material:
  assumes "f_material f" "fill_resolved env f source dirs = Some (res, dirs')"
  shows "dirs' = dirs \<and> (\<forall>log. res \<noteq> FilledSlot log)"
  using assms by (auto simp: fill_resolved_def split: option.splits sum.splits)

lemma fill_blocking_material:
  assumes "f_material f" "fill_blocking env f source dirs = Some (res, dirs')"
  shows "dirs' = dirs \<and> (\<forall>log. res \<noteq> FilledSlot log)"
  using assms fill_resolved_material [OF assms(1)]
  by (cases source) (auto simp: fill_blocking_def split: sum.splits option.splits)

lemma fill_blocking_source:
  assumes "fill_blocking env f source dirs = Some (res, dirs')" "dirs' \<noteq> dirs \<or> res \<noteq> FilledNothing \<and> res \<noteq> FilledFailed None"
  shows "(\<exists>bytes. source = LogBytes bytes) \<or> (\<exists>path real. source = LogFile path \<and> inside_roots (fe_fs env) (f_roots f) path real)"
proof (cases source)
  case (LogFile path)
  then obtain real where "resolve_in_roots (fe_fs env) path (f_roots f) = Ok (Some real)"
    using assms by (auto simp: fill_blocking_def split: sum.splits option.splits)
  then show ?thesis using resolve_inside LogFile by blast
qed simp

text \<open>C24: A fill keeps only what it may.  The log of a target whose outputs are credential material is
  never written to a slot, and its tail has no path.  A log file is read only if its real path, every
  symbolic link resolved, is a regular file under one of the run's roots.\<close>

theorem fill_keeps_only:
  assumes "slots_fill env f s = Some (log, s')"
  shows "(f_material f \<longrightarrow> fs_dirs s' = fs_dirs s \<and> (\<forall>l. log = Some l \<longrightarrow> fl_path l = None))
    \<and> (log \<noteq> None \<or> fs_dirs s' \<noteq> fs_dirs s \<longrightarrow>
        (\<exists>bytes. select_log (f_err f) = Some (LogBytes bytes))
        \<or> (\<exists>path real. select_log (f_err f) = Some (LogFile path) \<and> inside_roots (fe_fs env) (f_roots f) path real))"
proof (cases "select_log (f_err f)")
  case None
  then show ?thesis using assms by (simp add: slots_fill_def)
next
  case (Some source)
  then obtain res dirs where b: "fill_blocking env f source (fs_dirs s) = Some (res, dirs)"
    using assms by (auto simp: slots_fill_def split: option.splits)
  have d: "fs_dirs s' = dirs" using assms Some b
    by (cases res) (auto simp: slots_fill_def fs_list_def Let_def split: option.splits prod.splits)
  have l: "log \<noteq> None \<Longrightarrow> res \<noteq> FilledNothing \<and> res \<noteq> FilledFailed None" using assms Some b
    by (cases res) (auto simp: slots_fill_def)
  have p: "\<forall>x. res \<noteq> FilledSlot x \<Longrightarrow> log = Some l \<Longrightarrow> fl_path l = None" for l using assms Some b
    by (cases res) (auto simp: slots_fill_def log_in_memory_def)
  show ?thesis using fill_blocking_material [OF _ b] fill_blocking_source [OF b] d l p Some by auto
qed

definition sample_env :: fill_env where
  "sample_env = \<lparr> fe_fs = \<lparr> fv_canonicalize = (\<lambda>_. Err NotFound), fv_is_file = (\<lambda>_. Ok False), fv_open = (\<lambda>_. None) \<rparr>,
     fe_to_json = (\<lambda>_. [123]), fe_xxh3 = (\<lambda>_. 7), fe_now = 5, fe_uuids = (u ''a'', u ''b''), fe_copied = (\<lambda>_. []),
     fe_handle = (\<lambda>bytes. \<lparr> ol_len = Some (length bytes), ol_read = bytes_reader bytes \<rparr>),
     fe_events = replicate 8 Works, fe_listable = True, fe_root = u ''/h/failures'' \<rparr>"

definition secret_fill :: Fill where
  "secret_fill = \<lparr> f_addr = \<lparr> addr_package = u ''p'', addr_name = u ''login'', addr_args = [] \<rparr>, f_hashin = u ''h'', f_roots = [],
     f_err = with_failure_artifacts (Root (Message (u ''boom''))) [log_artifact (OaRaw [65, 10] LOG_NAME False)],
     f_lines = 3, f_material = True \<rparr>"

theorem fill_keeps_only_witness:
  "\<exists>log. slots_fill sample_env secret_fill (slots_new []) = Some (Some log, slots_new []) \<and> fl_path log = None"
proof -
  have "select_log (f_err secret_fill) = Some (LogBytes [65, 10])"
    by (simp add: select_log_def secret_fill_def with_failure_artifacts_def failure_artifacts_def downcast_chain_root
        downcast_chain_context as_shared_def as_artifacts_def log_artifact_def)
  moreover have "f_material secret_fill" by (simp add: secret_fill_def)
  ultimately have f: "slots_fill sample_env secret_fill (slots_new [])
      = Some (Some (log_in_memory (whole_tail [65, 10] (f_lines secret_fill))), slots_new [])"
    by (simp add: slots_fill_def fill_blocking_def fill_resolved_def memory_tail_bytes slots_new_def)
  show ?thesis using fill_keeps_only [OF f] f \<open>f_material secret_fill\<close> by blast
qed

section \<open>A slot cleared is gone\<close>











lemma clear_not_removed: "fs_dirs (clear xxh3 listable False addr s) = fs_dirs s"
  by (simp add: clear_def fs_list_def Let_def split: option.split prod.split)

text \<open>Clearing again does nothing, whether or not the slot could be removed.\<close>

lemma clear_again: "clear xxh3 l r addr (clear xxh3 listable removed addr s) = clear xxh3 listable removed addr s"
  by (auto simp: clear_def fs_list_def Let_def split: option.splits)











text \<open>A slot whose removal failed stays on disk, and no later clear by the same engine removes it.\<close>

lemma failed_removal_is_forgotten:
  assumes "map_of dirs (addr_key xxh3 addr) = Some d"
  shows "map_of (fs_dirs (clear xxh3 l r addr (clear xxh3 True False addr (slots_new dirs)))) (addr_key xxh3 addr) = Some d"
  unfolding clear_again using assms clear_not_removed [of xxh3 True addr "slots_new dirs"] by (simp add: slots_new_def)

end
