(* ===== verification/Failure.thy ===== *)
theory Failure
  imports Target Failure_Slot
begin

text \<open>
  How a failure travels from the target that failed to the caller of a request (engine/result.rs,
  engine/request_state.rs): the registry of failures of a request, the classification of an error as a
  target's own failure or the fallout of a dependency's, what the outermost frame returns, a frame of
  \<^verbatim>\<open>result_addr\<close> with the answers of the calls it makes, and the batch that folds the results of many
  targets into one outcome.
\<close>

section \<open>The registry\<close>

text \<open>The failures are an index map, in the order they were recorded.\<close>

record request =
  rq_failures :: "(AddrInner \<times> TargetFailure) list"
  rq_cancelled :: bool
  rq_fail_fast :: bool
  rq_frozen :: bool

definition record_failure :: "AddrInner \<Rightarrow> TargetFailure \<Rightarrow> request \<Rightarrow> request" where
  "record_failure addr failure rs = (if map_of (rq_failures rs) addr \<noteq> None then rs
     else rs\<lparr> rq_failures := rq_failures rs @ [(addr, failure)] \<rparr>)"

definition take_failures :: "request \<Rightarrow> TargetFailure list \<times> request" where
  "take_failures rs = (map snd (rq_failures rs), rs\<lparr> rq_failures := [] \<rparr>)"

definition get_failure :: "AddrInner \<Rightarrow> request \<Rightarrow> TargetFailure option" where
  "get_failure addr rs = map_of (rq_failures rs) addr"

definition first_failure :: "request \<Rightarrow> TargetFailure option" where
  "first_failure rs = (case rq_failures rs of (_, f) # _ \<Rightarrow> Some f | [] \<Rightarrow> None)"

section \<open>Classification\<close>

definition failure_slot_log :: "err \<Rightarrow> FailureLog option" where
  "failure_slot_log e = (case downcast_chain_ref as_slot e of Some log \<Rightarrow> log | None \<Rightarrow> None)"

text \<open>The tail of a log, none when it cannot be read; the outer \<open>None\<close> when reading never ends.\<close>

definition readable_tail :: "FailureLog option \<Rightarrow> LogTail option option" where
  "readable_tail log = (case log of
     None \<Rightarrow> Some None
   | Some l \<Rightarrow> (case log_tail l of None \<Rightarrow> None | Some (Ok t) \<Rightarrow> Some (Some t) | Some (Err _) \<Rightarrow> Some None))"

abbreviation has :: "(payload \<Rightarrow> 'a option) \<Rightarrow> err \<Rightarrow> bool" where
  "has sel e \<equiv> downcast_chain_ref sel e \<noteq> None"

text \<open>What an aggregation is classified as without being recorded, if it is.\<close>

definition classify_multi :: "AddrInner \<Rightarrow> err list \<Rightarrow> err option" where
  "classify_multi addr es = (case List.map_filter (downcast_chain_ref as_shell) es of
     shell # _ \<Rightarrow> Some (Root (ShellError shell))
   | [] \<Rightarrow> if list_all (\<lambda>inner. has as_upstream inner \<or> has as_cancelled inner) es
       then Some (Root (UpstreamFailed (case List.map_filter (downcast_chain_ref as_upstream) es of root # _ \<Rightarrow> root | [] \<Rightarrow> addr)))
       else None)"

definition record_own :: "request \<Rightarrow> AddrInner \<Rightarrow> bool \<Rightarrow> err \<Rightarrow> (request \<times> err) option" where
  "record_own rs addr interactive e =
     (let log = (if interactive then None else failure_slot_log e)
      in case readable_tail log of
           None \<Rightarrow> None
         | Some tail \<Rightarrow> Some (record_failure addr (with_log log (new_failure addr tail e)) rs, Root (UpstreamFailed addr)))"

definition classify_failure :: "request \<Rightarrow> AddrInner \<Rightarrow> bool \<Rightarrow> err \<Rightarrow> (request \<times> err) option" where
  "classify_failure rs addr interactive e =
     (if has as_cancelled e then Some (rs, e)
      else if has as_cycle e then Some (rs, e)
      else if has as_hash_unknown e then Some (rs, e)
      else if has as_shell e then Some (rs, e)
      else case downcast_chain_ref as_upstream e of
        Some root \<Rightarrow> Some (rs, Root (UpstreamFailed root))
      | None \<Rightarrow> (case Option.bind (downcast_chain_ref as_multi e) (classify_multi addr) of
          Some e' \<Rightarrow> Some (rs, e')
        | None \<Rightarrow> record_own rs addr interactive e))"

definition surface_top :: "bool \<Rightarrow> request \<Rightarrow> err \<Rightarrow> err" where
  "surface_top is_top rs e =
     (if \<not> is_top then e
      else if \<not> (has as_upstream e \<or> has as_multi e) then e
      else case Option.bind (downcast_chain_ref as_upstream e) (\<lambda>root. get_failure root rs) of
        Some tf \<Rightarrow> Root (TargetFailureError tf)
      | None \<Rightarrow> (case first_failure rs of Some tf \<Rightarrow> Root (TargetFailureError tf) | None \<Rightarrow> e))"

section \<open>A frame of a request\<close>



record 'a EResult =
  er_artifacts :: "'a list"
  er_support_artifacts :: "'a list"
  er_artifacts_meta :: "'a list"



text \<open>What the memoizer does for a frame (\<^verbatim>\<open>Memoizer::once\<close>): it runs the frame's own computation, with the
  result of \<^verbatim>\<open>inner_result_addr\<close>; it hands out what another frame of the same target computed, with the
  registry and the terminal that frame had; the computation panicked, in whichever frame; or it found the
  computation waiting for itself, which it looks for only when that is switched on.\<close>

datatype 'a memo_cell = Computes "err + 'a EResult" | Shares request bool "err + 'a EResult" | CellPanicked rstr
  | CellCycle rstr rstr CycleKind "rstr list"



definition memoizer_error :: "'a memo_cell \<Rightarrow> err option" where
  "memoizer_error cell = (case cell of
     CellPanicked msg \<Rightarrow> Some (Root (Message (u ''memoized task panicked: '' @ msg)))
   | CellCycle name key kind stack \<Rightarrow> Some (Root (MemoizerCycleError name key kind stack))
   | _ \<Rightarrow> None)"






section \<open>A batch\<close>

definition USIZE_MAX :: nat where "USIZE_MAX = 18446744073709551615"

definition top_level_spawn_limit :: "nat \<Rightarrow> nat" where
  "top_level_spawn_limit fan_out = max 16 (min 2048 (min (fan_out * 8) USIZE_MAX))"

datatype 'v joined = Panicked rstr | Joined AddrInner "err + 'v"

record 'v batch =
  ba_ok :: "'v list"
  ba_errors :: "(AddrInner \<times> err) list"
  ba_fatal :: "err option"
  ba_cancelled :: bool

definition classify_joined :: "bool \<Rightarrow> 'v joined \<Rightarrow> 'v batch \<Rightarrow> 'v batch" where
  "classify_joined fail_fast joined b = (case joined of
     Panicked message \<Rightarrow> if ba_fatal b = None
       then b\<lparr> ba_fatal := Some (Context (Message (u ''result task panicked'')) (Root (Message message))), ba_cancelled := True \<rparr> else b
   | Joined addr (Ok v) \<Rightarrow> b\<lparr> ba_ok := ba_ok b @ [v] \<rparr>
   | Joined addr (Err e) \<Rightarrow>
       if has as_cancelled e then b
       else if \<not> fail_fast then b\<lparr> ba_errors := ba_errors b @ [(addr, e)] \<rparr>
       else if ba_fatal b = None then b\<lparr> ba_fatal := Some e, ba_cancelled := True \<rparr>
       else b)"

text \<open>One round of the admission loop: what the walk sends, whether the request is cancelled from outside,
  how the wait for a permit ends, and the tasks that finished meanwhile.\<close>

datatype walk_message = WalkEnded | WalkFailed err | Matched AddrInner

datatype permit = Granted | CancelledFirst | PermitFailed rstr

record 'v round =
  ro_message :: walk_message
  ro_cancel :: bool
  ro_permit :: permit
  ro_reaped :: "'v joined list"

fun admit :: "bool \<Rightarrow> 'v round list \<Rightarrow> 'v batch \<Rightarrow> AddrInner list \<Rightarrow> bool \<times> AddrInner list \<times> 'v batch" where
  "admit fail_fast [] b admitted = (False, admitted, b)"
| "admit fail_fast (r # rounds) b admitted = (let b = b\<lparr> ba_cancelled := ba_cancelled b \<or> ro_cancel r \<rparr>
     in case ro_message r of
       WalkEnded \<Rightarrow> (True, admitted, b)
     | WalkFailed e \<Rightarrow> (False, admitted, b\<lparr> ba_fatal := Some e, ba_cancelled := True \<rparr>)
     | Matched addr \<Rightarrow>
         if ba_cancelled b then (False, admitted, b)
         else (case ro_permit r of
             CancelledFirst \<Rightarrow> (False, admitted, b\<lparr> ba_cancelled := True \<rparr>)
           | PermitFailed m \<Rightarrow> (False, admitted,
               b\<lparr> ba_fatal := Some (Context (Message (u ''acquiring a resolution slot'')) (Root (Message m))), ba_cancelled := True \<rparr>)
           | Granted \<Rightarrow> (let b = fold (classify_joined fail_fast) (ro_reaped r) b
               in if ba_fatal b \<noteq> None then (False, admitted, b)
                  else admit fail_fast rounds b (admitted @ [addr]))))"

definition batch_outcome :: "'v batch \<Rightarrow> err + 'v list \<times> (AddrInner \<times> err) list" where
  "batch_outcome b = (case ba_fatal b of
     Some e \<Rightarrow> Err e
   | None \<Rightarrow> if ba_cancelled b then Err (Root CancelledError) else Ok (ba_ok b, ba_errors b))"

text \<open>\<open>walk_panic\<close> is a panic of the walk's task, collected when the walk has ended; \<open>late_cancel\<close> a
  cancellation from outside while the last tasks are drained.\<close>

definition result_batch :: "bool \<Rightarrow> 'v round list \<Rightarrow> rstr option \<Rightarrow> 'v joined list \<Rightarrow> bool \<Rightarrow> err + 'v list \<times> (AddrInner \<times> err) list" where
  "result_batch fail_fast rounds walk_panic drained late_cancel =
     (let (walk_finished, admitted, b) = admit fail_fast rounds \<lparr> ba_ok = [], ba_errors = [], ba_fatal = None, ba_cancelled = False \<rparr> [];
          b = (case walk_panic of
              Some m \<Rightarrow> if walk_finished \<and> ba_fatal b = None
                then b\<lparr> ba_fatal := Some (Context (Message (u ''matcher walk task panicked'')) (Root (Message m))), ba_cancelled := True \<rparr> else b
            | None \<Rightarrow> b);
          b = fold (classify_joined fail_fast) drained b
      in batch_outcome (b\<lparr> ba_errors := (if walk_finished then map (map_prod id (name_selection (length admitted))) (ba_errors b) else ba_errors b),
           ba_cancelled := ba_cancelled b \<or> late_cancel \<rparr>))"

section \<open>What can be seen in an error\<close>

text \<open>Every error that looking for a type can reach: contexts, the root, behind a shared wrapper, and
  the members of an aggregation.\<close>

function seen_in :: "payload \<Rightarrow> payload list" and seen :: "err \<Rightarrow> payload list" where
  "seen_in p = p # (case p of MultiError es \<Rightarrow> concat (map seen es) | SharedAnyhow e \<Rightarrow> seen e | _ \<Rightarrow> [])"
| "seen (Root p) = seen_in p"
| "seen (Context p e) = seen_in p @ seen e"
  by pat_completeness auto

termination
  by (relation "measure (\<lambda>x. case x of Inl p \<Rightarrow> 2 * size p | Inr e \<Rightarrow> 2 * size e + 1)") (auto dest: member_size)

declare seen_in.simps [simp del]

lemma seen_in_self: "p \<in> set (seen_in p)"
  by (subst seen_in.simps) simp

lemma downcast_ref_seen: "downcast_ref sel e = Some x \<Longrightarrow> \<exists>p. sel p = Some x \<and> set (seen_in p) \<subseteq> set (seen e)"
proof (induction e rule: err.induct [where ?P1.0 = "\<lambda>_. True" and ?P2.0 = "\<lambda>_. True"])
  case (Context p e)
  then show ?case by (cases "sel p") fastforce+
qed auto

lemma downcast_seen: "downcast_chain_ref sel e = Some x \<Longrightarrow> \<exists>p. sel p = Some x \<and> set (seen_in p) \<subseteq> set (seen e)"
proof (induction sel e rule: downcast_chain_ref.induct)
  case (1 sel e)
  note eq = downcast_chain_ref.simps [of sel e]
  show ?case
  proof (cases "downcast_ref sel e")
    case (Some y)
    then have "downcast_ref sel e = Some x" using 1(2) eq by simp
    then show ?thesis by (rule downcast_ref_seen)
  next
    case None
    then obtain inner where i: "downcast_ref as_shared e = Some inner" "downcast_chain_ref sel inner = Some x"
      using 1(2) eq by (cases "downcast_ref as_shared e") auto
    then obtain p where p: "sel p = Some x" "set (seen_in p) \<subseteq> set (seen inner)" using 1(1) [OF None] by blast
    obtain q where "as_shared q = Some inner" "set (seen_in q) \<subseteq> set (seen e)" using downcast_ref_seen [OF i(1)] by blast
    then have "set (seen inner) \<subseteq> set (seen e)" by (auto simp: seen_in.simps [of "SharedAnyhow inner"])
    then show ?thesis using p by blast
  qed
qed

lemma upstream_seen: "downcast_chain_ref as_upstream e = Some root \<Longrightarrow> UpstreamFailed root \<in> set (seen e)"
  using downcast_seen [of as_upstream e root] seen_in_self
  by (fastforce simp: as_upstream_def split: payload.splits)

lemma cancelled_seen: "has as_cancelled e \<Longrightarrow> CancelledError \<in> set (seen e)"
  using downcast_seen [of as_cancelled e "()"] seen_in_self
  by (fastforce simp: as_cancelled_def split: payload.splits)

lemma multi_seen:
  assumes "downcast_chain_ref as_multi e = Some es"
  shows "MultiError es \<in> set (seen e)" and "inner \<in> set es \<Longrightarrow> set (seen inner) \<subseteq> set (seen e)"
proof -
  obtain p where p: "as_multi p = Some es" "set (seen_in p) \<subseteq> set (seen e)" using downcast_seen [OF assms] by blast
  then have "p = MultiError es" by (simp add: as_multi_def split: payload.splits)
  then have s: "set (seen_in (MultiError es)) \<subseteq> set (seen e)" using p(2) by simp
  show "MultiError es \<in> set (seen e)" using s seen_in_self by blast
  show "set (seen inner) \<subseteq> set (seen e)" if "inner \<in> set es"
    using s that by (auto simp: seen_in.simps [of "MultiError es"])
qed

section \<open>Errors in flight\<close>

text \<open>The errors of a request and the ways they come about: a call raises one, a frame classifies one for
  its target, a fan-out joins several (position and number of each, in the order they complete), a message
  is put around one, and the memoizer shares one.  An error may be read any number of times.\<close>

record flow =
  fw_rs :: request
  fw_errs :: "err list"

datatype flow_event = Raise err | Classify nat AddrInner bool | Join "(nat \<times> nat) list" bool | AddContext nat rstr | Share nat

definition flow_next :: "flow_event \<Rightarrow> flow \<Rightarrow> flow" where
  "flow_next ev w = (case ev of
     Raise e \<Rightarrow> w\<lparr> fw_errs := fw_errs w @ [e] \<rparr>
   | Classify i addr interactive \<Rightarrow> (case Option.bind (get_at (fw_errs w) i) (classify_failure (fw_rs w) addr interactive) of
       Some (rs, e) \<Rightarrow> \<lparr> fw_rs = rs, fw_errs = fw_errs w @ [e] \<rparr>
     | None \<Rightarrow> w)
   | Join parts fail_fast \<Rightarrow>
       (case join_all_failable (List.map_filter (\<lambda>(pos, i). map_option (\<lambda>e. (pos, Err e :: err + unit)) (get_at (fw_errs w) i)) parts) fail_fast of
         Err e \<Rightarrow> w\<lparr> fw_errs := fw_errs w @ [e] \<rparr>
       | Ok _ \<Rightarrow> w)
   | AddContext i msg \<Rightarrow> (case get_at (fw_errs w) i of Some e \<Rightarrow> w\<lparr> fw_errs := fw_errs w @ [Context (Message msg) e] \<rparr> | None \<Rightarrow> w)
   | Share i \<Rightarrow> (case get_at (fw_errs w) i of Some e \<Rightarrow> w\<lparr> fw_errs := fw_errs w @ [unwrap_arc_err False e] \<rparr> | None \<Rightarrow> w))"

definition flow_start :: flow where
  "flow_start = \<lparr> fw_rs = \<lparr> rq_failures = [], rq_cancelled = False, rq_fail_fast = False, rq_frozen = False \<rparr>, fw_errs = [] \<rparr>"

definition flow_run :: "flow_event list \<Rightarrow> flow" where
  "flow_run evs = fold flow_next evs flow_start"

text \<open>A failure as a call raises it: not the marker of a failed dependency, not a cancellation, and no
  empty aggregation.\<close>

definition genuine :: "err \<Rightarrow> bool" where
  "genuine e \<longleftrightarrow> (\<forall>p\<in>set (seen e). p \<noteq> CancelledError \<and> (\<forall>root. p \<noteq> UpstreamFailed root) \<and> p \<noteq> MultiError [])"

definition genuine_event :: "flow_event \<Rightarrow> bool" where
  "genuine_event ev = (case ev of Raise e \<Rightarrow> genuine e | _ \<Rightarrow> True)"

text \<open>An error whose markers all name recorded failures.\<close>

definition accounted :: "(AddrInner \<times> TargetFailure) list \<Rightarrow> err \<Rightarrow> bool" where
  "accounted failures e \<longleftrightarrow> (\<forall>p\<in>set (seen e). p \<noteq> CancelledError \<and> p \<noteq> MultiError []
     \<and> (\<forall>root. p = UpstreamFailed root \<longrightarrow> map_of failures root \<noteq> None))"

definition own_failures :: "(AddrInner \<times> TargetFailure) list \<Rightarrow> bool" where
  "own_failures failures \<longleftrightarrow> distinct (map fst failures)
     \<and> (\<forall>(addr, f)\<in>set failures. tf_addr f = addr \<and> \<not> has as_upstream (tf_source f))"

lemma accountedD:
  assumes "accounted failures e"
  shows "CancelledError \<notin> set (seen e)" "MultiError [] \<notin> set (seen e)"
    "UpstreamFailed root \<in> set (seen e) \<Longrightarrow> map_of failures root \<noteq> None"
  using assms unfolding accounted_def by auto

lemma accounted_sub: "accounted failures e \<Longrightarrow> set (seen e') \<subseteq> set (seen e) \<Longrightarrow> accounted failures e'"
  unfolding accounted_def by blast

lemma accounted_more:
  assumes "accounted failures e" "\<And>a. map_of failures a \<noteq> None \<Longrightarrow> map_of failures' a \<noteq> None"
  shows "accounted failures' e"
  using assms unfolding accounted_def by blast

lemma accounted_marker: "map_of failures root \<noteq> None \<Longrightarrow> accounted failures (Root (UpstreamFailed root))"
  by (simp add: accounted_def seen_in.simps)

lemma accounted_shell: "accounted failures (Root (ShellError s))"
  by (simp add: accounted_def seen_in.simps)

lemma genuine_accounted: "genuine e \<Longrightarrow> accounted failures e"
  unfolding genuine_def accounted_def by blast

lemma recorded:
  "map_of (rq_failures (record_failure addr f rs)) a
     = (case map_of (rq_failures rs) a of Some g \<Rightarrow> Some g | None \<Rightarrow> if a = addr then Some f else None)"
  by (auto simp: record_failure_def map_add_def split: option.splits)

lemma record_own_failures:
  assumes "own_failures (rq_failures rs)" "tf_addr f = addr" "\<not> has as_upstream (tf_source f)"
  shows "own_failures (rq_failures (record_failure addr f rs))"
  using assms unfolding own_failures_def record_failure_def
  by (auto simp: map_of_eq_None_iff split: option.splits)

lemma classify_multi_accounted:
  assumes "accounted failures e" "downcast_chain_ref as_multi e = Some es" "classify_multi addr es = Some e'"
  shows "accounted failures e'"
proof (cases "List.map_filter (downcast_chain_ref as_shell) es")
  case (Cons shell rest)
  then show ?thesis using assms(3) accounted_shell by (simp add: classify_multi_def) blast
next
  case Nil
  have inner: "accounted failures x" if "x \<in> set es" for x
    using accounted_sub [OF assms(1) multi_seen(2) [OF assms(2) that]] .
  have "es \<noteq> []" using multi_seen(1) [OF assms(2)] accountedD(2) [OF assms(1)] by blast
  moreover have all: "list_all (\<lambda>inner. has as_upstream inner \<or> has as_cancelled inner) es"
    using assms(3) Nil by (simp add: classify_multi_def split: if_splits)
  ultimately obtain x where x: "x \<in> set es" "has as_upstream x \<or> has as_cancelled x"
    by (cases es) auto
  then have "has as_upstream x" using cancelled_seen accountedD(1) [OF inner [OF x(1)]] by blast
  then obtain root roots where r: "List.map_filter (downcast_chain_ref as_upstream) es = root # roots"
    using x(1) by (cases "List.map_filter (downcast_chain_ref as_upstream) es") (auto simp: List.map_filter_def filter_empty_conv)
  then have "root \<in> set (List.map_filter (downcast_chain_ref as_upstream) es)" by simp
  then obtain y where y: "y \<in> set es" "downcast_chain_ref as_upstream y = Some root"
    by (auto simp: List.map_filter_def)
  have "map_of failures root \<noteq> None" using accountedD(3) [OF inner [OF y(1)] upstream_seen [OF y(2)]] .
  moreover have "e' = Root (UpstreamFailed root)" using assms(3) Nil all r by (simp add: classify_multi_def)
  ultimately show ?thesis using accounted_marker by blast
qed

lemma classify_failure_accounted:
  assumes own: "own_failures (rq_failures rs)" and acc: "accounted (rq_failures rs) e"
    and c: "classify_failure rs addr interactive e = Some (rs', e')"
  shows "own_failures (rq_failures rs') \<and> accounted (rq_failures rs') e'
    \<and> (\<forall>a. map_of (rq_failures rs) a \<noteq> None \<longrightarrow> map_of (rq_failures rs') a = map_of (rq_failures rs) a)"
proof (cases "has as_cancelled e \<or> has as_cycle e \<or> has as_hash_unknown e \<or> has as_shell e")
  case True
  then have "rs' = rs \<and> e' = e" using c by (auto simp: classify_failure_def split: if_splits)
  then show ?thesis using own acc by simp
next
  case request: False
  show ?thesis
  proof (cases "downcast_chain_ref as_upstream e")
    case (Some root)
    then have "rs' = rs \<and> e' = Root (UpstreamFailed root)" using c request by (simp add: classify_failure_def)
    then show ?thesis using own accounted_marker accountedD(3) [OF acc upstream_seen [OF Some]] by simp
  next
    case up: None
    show ?thesis
    proof (cases "Option.bind (downcast_chain_ref as_multi e) (classify_multi addr)")
      case (Some e'')
      then obtain es where "downcast_chain_ref as_multi e = Some es" "classify_multi addr es = Some e''"
        by (cases "downcast_chain_ref as_multi e") auto
      moreover have "rs' = rs \<and> e' = e''" using c request up Some by (simp add: classify_failure_def)
      ultimately show ?thesis using own classify_multi_accounted [OF acc] by simp
    next
      case None
      then have "record_own rs addr interactive e = Some (rs', e')" using c request up by (simp add: classify_failure_def)
      then obtain log tail where rs': "rs' = record_failure addr (with_log log (new_failure addr tail e)) rs"
        and e': "e' = Root (UpstreamFailed addr)"
        by (auto simp: record_own_def Let_def split: option.splits)
      have "own_failures (rq_failures rs')"
        unfolding rs' by (rule record_own_failures [OF own]) (simp_all add: with_log_def new_failure_def up)
      moreover have "map_of (rq_failures rs') addr \<noteq> None" unfolding rs' recorded by (simp split: option.split)
      ultimately show ?thesis using accounted_marker e' by (auto simp: rs' recorded)
    qed
  qed
qed

lemma join_error:
  assumes "join_all_failable completed fail_fast = Err e"
  shows "(\<exists>i. (i, Err e) \<in> set completed)
    \<or> (\<exists>es. e = Root (MultiError es) \<and> es \<noteq> [] \<and> (\<forall>x\<in>set es. \<exists>i. (i, Err x) \<in> set completed))"
proof -
  let ?errs = "List.map_filter (\<lambda>r. case r of Err e \<Rightarrow> Some e | Ok _ \<Rightarrow> None) (map snd (sort_key fst completed))"
  have errs: "\<exists>i. (i, Err x) \<in> set completed" if "x \<in> set ?errs" for x
    using that joined_errors_set [of completed] errors_of_set [of x completed] by blast
  show ?thesis
  proof (cases fail_fast)
    case True
    then obtain i where "find (\<lambda>(_, r). isl r) completed = Some (i, Err e)"
      using assms by (auto simp: join_all_failable_def Let_def split: option.splits sum.splits)
    then have "(i, Err e) \<in> set completed" by (metis find_Some_iff nth_mem)
    then show ?thesis by blast
  next
    case False
    then have ne: "?errs \<noteq> []" and e: "e = last ?errs \<or> e = Root (MultiError ?errs)"
      using assms by (auto simp: join_all_failable_def Let_def split: if_splits)
    show ?thesis using e errs last_in_set [OF ne] ne by blast
  qed
qed

definition flow_ok :: "flow \<Rightarrow> bool" where
  "flow_ok w \<longleftrightarrow> own_failures (rq_failures (fw_rs w)) \<and> (\<forall>e\<in>set (fw_errs w). accounted (rq_failures (fw_rs w)) e)"

lemma get_at_set: "get_at xs i = Some x \<Longrightarrow> x \<in> set xs"
  by (auto simp: get_at_def split: if_splits)

lemma flow_add: "flow_ok w \<Longrightarrow> accounted (rq_failures (fw_rs w)) e \<Longrightarrow> flow_ok (w\<lparr> fw_errs := fw_errs w @ [e] \<rparr>)"
  by (auto simp: flow_ok_def)

lemma accounted_join:
  assumes "\<And>i x. (i, Err x) \<in> set completed \<Longrightarrow> accounted failures x" "join_all_failable completed fail_fast = Err e"
  shows "accounted failures e"
proof -
  consider i where "(i, Err e) \<in> set completed"
    | es where "e = Root (MultiError es)" "es \<noteq> []" "\<forall>x\<in>set es. \<exists>i. (i, Err x) \<in> set completed"
    using join_error [OF assms(2)] by blast
  then show ?thesis
  proof cases
    case 1
    then show ?thesis by (rule assms(1))
  next
    case 2
    then have "\<forall>x\<in>set es. accounted failures x" using assms(1) by blast
    then show ?thesis using 2(1,2) by (auto simp: accounted_def seen_in.simps [of "MultiError es"])
  qed
qed

lemma flow_next_ok:
  assumes w: "flow_ok w" and ev: "genuine_event ev"
  shows "flow_ok (flow_next ev w)"
proof -
  have at: "accounted (rq_failures (fw_rs w)) e" if "get_at (fw_errs w) i = Some e" for i e
    using w get_at_set [OF that] by (simp add: flow_ok_def)
  show ?thesis
  proof (cases ev)
    case (Raise e)
    then show ?thesis using flow_add [OF w] genuine_accounted ev by (simp add: flow_next_def genuine_event_def)
  next
    case (Classify i addr interactive)
    show ?thesis
    proof (cases "Option.bind (get_at (fw_errs w) i) (classify_failure (fw_rs w) addr interactive)")
      case None
      then show ?thesis using w Classify by (simp add: flow_next_def)
    next
      case (Some y)
      then obtain e rs' e' where e: "get_at (fw_errs w) i = Some e" "y = (rs', e')"
          "classify_failure (fw_rs w) addr interactive e = Some (rs', e')"
        by (cases "get_at (fw_errs w) i"; cases y) auto
      have own: "own_failures (rq_failures (fw_rs w))" using w by (simp add: flow_ok_def)
      note c = classify_failure_accounted [OF own at [OF e(1)] e(3)]
      have "accounted (rq_failures rs') x" if "x \<in> set (fw_errs w)" for x
        using accounted_more [of "rq_failures (fw_rs w)" x "rq_failures rs'"] w that c by (simp add: flow_ok_def)
      then show ?thesis using c Some e(2) Classify by (auto simp: flow_next_def flow_ok_def)
    qed
  next
    case (Join parts fail_fast)
    let ?c = "List.map_filter (\<lambda>(pos, i). map_option (\<lambda>e. (pos, Err e :: err + unit)) (get_at (fw_errs w) i)) parts"
    have c: "accounted (rq_failures (fw_rs w)) x" if "(p, Err x) \<in> set ?c" for p x
      using that at by (auto simp: List.map_filter_def)
    show ?thesis
    proof (cases "join_all_failable ?c fail_fast")
      case (Inl e)
      then show ?thesis using flow_add [OF w accounted_join [OF c Inl]] Join by (simp add: flow_next_def)
    next
      case (Inr v)
      then show ?thesis using w Join by (simp add: flow_next_def)
    qed
  next
    case (AddContext i msg)
    have "accounted (rq_failures (fw_rs w)) (Context (Message msg) e)" if "get_at (fw_errs w) i = Some e" for e
      using at [OF that] by (auto simp: accounted_def seen_in.simps [of "Message msg"])
    then show ?thesis using w flow_add [OF w] AddContext by (auto simp: flow_next_def split: option.splits)
  next
    case (Share i)
    have "accounted (rq_failures (fw_rs w)) (unwrap_arc_err False e)" if "get_at (fw_errs w) i = Some e" for e
      using at [OF that] by (auto simp: accounted_def unwrap_arc_err_def seen_in.simps [of "SharedAnyhow e"])
    then show ?thesis using w flow_add [OF w] Share by (auto simp: flow_next_def split: option.splits)
  qed
qed

lemma flow_run_ok:
  assumes "list_all genuine_event evs"
  shows "flow_ok (flow_run evs)"
  using assms
proof (induction evs rule: rev_induct)
  case Nil
  then show ?case by (simp add: flow_run_def flow_start_def flow_ok_def own_failures_def)
next
  case (snoc ev evs)
  then show ?case using flow_next_ok by (simp add: flow_run_def)
qed

text \<open>C6: Whatever frames classify, fan-outs join, contexts are added and the memoizer shares, in any
  order: as long as nothing was cancelled, an error that says a dependency failed names a target whose own
  failure was recorded, and the outermost frame returns that recorded failure, whose cause is not itself
  such a marker.\<close>

theorem failure_surfaces:
  assumes "list_all genuine_event evs" "e \<in> set (fw_errs (flow_run evs))" "downcast_chain_ref as_upstream e = Some root"
  shows "\<exists>f. get_failure root (fw_rs (flow_run evs)) = Some f \<and> tf_addr f = root \<and> \<not> has as_upstream (tf_source f)
    \<and> surface_top True (fw_rs (flow_run evs)) e = Root (TargetFailureError f)"
proof -
  let ?fs = "rq_failures (fw_rs (flow_run evs))"
  have ok: "own_failures ?fs" "accounted ?fs e"
    using flow_run_ok [OF assms(1)] assms(2) by (auto simp: flow_ok_def)
  then obtain f where f: "map_of ?fs root = Some f" using accountedD(3) [OF ok(2) upstream_seen [OF assms(3)]] by auto
  then have "tf_addr f = root \<and> \<not> has as_upstream (tf_source f)"
    using ok(1) map_of_SomeD [OF f] by (auto simp: own_failures_def)
  then show ?thesis using f assms(3) by (auto simp: get_failure_def surface_top_def)
qed

abbreviation sample_addr :: AddrInner where
  "sample_addr \<equiv> \<lparr> addr_package = u ''p'', addr_name = u ''t'', addr_args = [] \<rparr>"

definition sample_events :: "flow_event list" where
  "sample_events = [Raise (Root (TargetNotFoundError sample_addr)), Classify 0 sample_addr False, Share 1]"

theorem failure_surfaces_witness:
  "\<exists>f. surface_top True (fw_rs (flow_run sample_events)) (Root (SharedAnyhow (Root (UpstreamFailed sample_addr)))) = Root (TargetFailureError f)
     \<and> tf_addr f = sample_addr"
proof -
  have "list_all genuine_event sample_events"
    by (simp add: sample_events_def genuine_event_def genuine_def seen_in.simps)
  moreover have "Root (SharedAnyhow (Root (UpstreamFailed sample_addr))) \<in> set (fw_errs (flow_run sample_events))"
    by (simp add: sample_events_def flow_run_def flow_start_def flow_next_def get_at_def classify_failure_def downcast_chain_root
        as_shared_def as_cancelled_def as_cycle_def as_hash_unknown_def as_shell_def as_upstream_def as_multi_def as_slot_def
        record_own_def failure_slot_log_def readable_tail_def unwrap_arc_err_def)
  moreover have "downcast_chain_ref as_upstream (Root (SharedAnyhow (Root (UpstreamFailed sample_addr)))) = Some sample_addr"
    by (simp add: downcast_chain_shared downcast_chain_root as_upstream_def as_shared_def)
  ultimately show ?thesis using failure_surfaces [of sample_events] by blast
qed

text \<open>Cancellation is propagated as it is, except out of an aggregation: two cancelled members make a
  group return the marker of a failed dependency that names the group, for which nothing was recorded, and
  the outermost frame returns that.\<close>

lemma cancelled_group_is_masked:
  assumes "rq_failures rs = []"
  shows "classify_failure rs addr interactive (Root (MultiError [Root CancelledError, Root CancelledError]))
      = Some (rs, Root (UpstreamFailed addr))"
    and "surface_top True rs (Root (UpstreamFailed addr)) = Root (UpstreamFailed addr)"
    and "\<not> is_cancelled (Root (UpstreamFailed addr))"
    and "classify_failure rs addr interactive (Root CancelledError) = Some (rs, Root CancelledError)"
  using assms
  by (simp_all add: classify_failure_def classify_multi_def surface_top_def get_failure_def first_failure_def is_cancelled_def
      downcast_chain_root List.map_filter_simps as_shared_def as_cancelled_def as_cycle_def as_hash_unknown_def as_shell_def
      as_upstream_def as_multi_def)

text \<open>A cycle is propagated as it is, except out of an aggregation: with another failure beside it, it is
  recorded against the target that joined them.\<close>

lemma aggregated_cycle_is_recorded:
  assumes "rq_failures rs = []"
  shows "\<exists>rs' f. classify_failure rs addr interactive (Root (MultiError [Root (CycleError a b), Root (UpstreamFailed c)]))
      = Some (rs', Root (UpstreamFailed addr)) \<and> get_failure addr rs' = Some f"
  using assms
  by (simp add: classify_failure_def classify_multi_def record_own_def failure_slot_log_def readable_tail_def get_failure_def recorded
      downcast_chain_root List.map_filter_simps as_shared_def as_cancelled_def as_cycle_def as_hash_unknown_def as_shell_def
      as_upstream_def as_multi_def as_slot_def)

section \<open>What leaves a frame\<close>

text \<open>The errors about the request rather than a target, which are never recorded.\<close>

definition request_error :: "err \<Rightarrow> bool" where
  "request_error e \<longleftrightarrow> has as_cancelled e \<or> has as_cycle e \<or> has as_hash_unknown e \<or> has as_shell e"

lemma request_error_shared [simp]: "request_error (Root (SharedAnyhow e)) \<longleftrightarrow> request_error e"
  by (simp add: request_error_def downcast_chain_shared as_cancelled_def as_cycle_def as_hash_unknown_def as_shell_def)

lemma request_errors [simp]:
  "request_error (Root CancelledError)" "request_error (Root (CycleError a b))" "request_error (Root (ShellError s))"
  by (simp_all add: request_error_def downcast_chain_root as_shared_def as_cancelled_def as_cycle_def as_shell_def as_hash_unknown_def)



























text \<open>The error of a computation that panicked is not classified for its own target: the target that depends
  on it takes it for its own failure and records it against itself.\<close>

lemma panic_blames_dependent:
  assumes "rq_failures rs = []" "memoizer_error (CellPanicked msg :: nat memo_cell) = Some e"
  shows "\<exists>rs' f. classify_failure rs dependent interactive (unwrap_arc_err unique e) = Some (rs', Root (UpstreamFailed dependent))
    \<and> get_failure dependent rs' = Some f \<and> tf_source f = unwrap_arc_err unique e"
  using assms
  by (auto simp: memoizer_error_def unwrap_arc_err_def classify_failure_def record_own_def failure_slot_log_def readable_tail_def
      get_failure_def recorded with_log_def new_failure_def downcast_chain_root downcast_chain_shared as_shared_def as_cancelled_def
      as_cycle_def as_hash_unknown_def as_shell_def as_upstream_def as_multi_def as_slot_def)

section \<open>What a batch reports\<close>

definition ok_of :: "'v joined list \<Rightarrow> 'v list" where
  "ok_of js = List.map_filter (\<lambda>j. case j of Joined _ (Ok v) \<Rightarrow> Some v | _ \<Rightarrow> None) js"

definition failed_of :: "'v joined list \<Rightarrow> (AddrInner \<times> err) list" where
  "failed_of js = List.map_filter (\<lambda>j. case j of Joined a (Err e) \<Rightarrow> if has as_cancelled e then None else Some (a, e) | _ \<Rightarrow> None) js"

text \<open>The first result that ends a batch at once: a panic, or a failure of a fail-fast batch.\<close>

definition fatal_of :: "bool \<Rightarrow> 'v joined \<Rightarrow> err option" where
  "fatal_of fail_fast j = (case j of
     Panicked m \<Rightarrow> Some (Context (Message (u ''result task panicked'')) (Root (Message m)))
   | Joined _ (Err e) \<Rightarrow> if fail_fast \<and> \<not> has as_cancelled e then Some e else None
   | Joined _ (Ok _) \<Rightarrow> None)"

definition first_fatal :: "bool \<Rightarrow> 'v joined list \<Rightarrow> err option" where
  "first_fatal fail_fast js = (case List.map_filter (fatal_of fail_fast) js of e # _ \<Rightarrow> Some e | [] \<Rightarrow> None)"

lemma map_filter_snoc: "List.map_filter f (xs @ [x]) = List.map_filter f xs @ (case f x of Some y \<Rightarrow> [y] | None \<Rightarrow> [])"
  by (simp add: List.map_filter_def split: option.split)

text \<open>Folding finished tasks into a batch in the order they finish gives what the whole list says: the
  results in order, the failures in order unless the batch is fail-fast, and as the fatal error the first panic
  or, when fail-fast, the first failure that is not a cancellation; the request is cancelled exactly when there is
  one or it was before.\<close>

lemma batch_fold:
  "fold (classify_joined fail_fast) js \<lparr> ba_ok = [], ba_errors = [], ba_fatal = None, ba_cancelled = c \<rparr>
   = \<lparr> ba_ok = ok_of js, ba_errors = (if fail_fast then [] else failed_of js), ba_fatal = first_fatal fail_fast js,
       ba_cancelled = (c \<or> first_fatal fail_fast js \<noteq> None) \<rparr>"
proof (induction js rule: rev_induct)
  case Nil
  then show ?case by (simp add: ok_of_def failed_of_def first_fatal_def List.map_filter_simps)
next
  case (snoc j js)
  have f: "first_fatal fail_fast (js @ [j]) = (case first_fatal fail_fast js of Some e \<Rightarrow> Some e | None \<Rightarrow> fatal_of fail_fast j)"
    by (auto simp: first_fatal_def map_filter_snoc split: list.splits option.splits)
  show ?case
  proof (cases j)
    case (Panicked m)
    then show ?thesis using snoc f
      by (auto simp: classify_joined_def ok_of_def failed_of_def map_filter_snoc fatal_of_def split: option.splits)
  next
    case (Joined a r)
    then show ?thesis using snoc f
      by (cases r) (auto simp: classify_joined_def ok_of_def failed_of_def map_filter_snoc fatal_of_def split: option.splits)
  qed
qed

lemma admit_uneventful:
  assumes "admit fail_fast rounds b admitted = (finished, admitted', b')" "ba_fatal b' = None" "\<not> ba_cancelled b'"
  shows "b' = fold (classify_joined fail_fast) (concat (map ro_reaped (takeWhile (\<lambda>r. ro_message r \<noteq> WalkEnded) rounds))) b"
  using assms
proof (induction rounds arbitrary: b admitted)
  case Nil
  then show ?case by simp
next
  case (Cons r rounds)
  let ?b = "b\<lparr> ba_cancelled := ba_cancelled b \<or> ro_cancel r \<rparr>"
  show ?case
  proof (cases "ro_message r")
    case WalkEnded
    then have "b' = ?b" using Cons(2) by (simp add: Let_def)
    then show ?thesis using WalkEnded Cons(4) by simp
  next
    case (WalkFailed e)
    then show ?thesis using Cons(2,3) by (auto simp: Let_def)
  next
    case (Matched addr)
    have run: "\<not> ba_cancelled ?b" using Cons(2,4) Matched by (auto simp: Let_def split: if_splits)
    then have same: "b\<lparr> ba_cancelled := False \<rparr> = b" "\<not> ba_cancelled b" "\<not> ro_cancel r" by (cases b; simp)+
    have g: "ro_permit r = Granted" using Cons(2,3,4) Matched run by (cases "ro_permit r") (auto simp: Let_def)
    let ?f = "fold (classify_joined fail_fast) (ro_reaped r) b"
    have "(if ba_fatal ?f \<noteq> None then (False, admitted, ?f) else admit fail_fast rounds ?f (admitted @ [addr])) = (finished, admitted', b')"
      using Cons(2) Matched g by (simp add: Let_def same)
    then have "admit fail_fast rounds ?f (admitted @ [addr]) = (finished, admitted', b')"
      using Cons(3) by (auto split: if_splits)
    then show ?thesis using Cons(1) Cons(3,4) Matched by simp
  qed
qed

lemma classify_joined_sticky:
  "ba_fatal b \<noteq> None \<Longrightarrow> ba_fatal (fold (classify_joined fail_fast) js b) \<noteq> None"
  "ba_cancelled b \<Longrightarrow> ba_cancelled (fold (classify_joined fail_fast) js b)"
proof (induction js arbitrary: b)
  case (Cons j js)
  { case 1
    then have "ba_fatal (classify_joined fail_fast j b) \<noteq> None" by (auto simp: classify_joined_def split: joined.splits sum.splits)
    then show ?case using Cons(1) by simp }
  { case 2
    then have "ba_cancelled (classify_joined fail_fast j b)" by (auto simp: classify_joined_def split: joined.splits sum.splits)
    then show ?case using Cons(2) by simp }
qed auto

text \<open>The number of targets a batch has admitted, one per round before the walk ended, and whether it ended.\<close>

definition matched_rounds :: "'v round list \<Rightarrow> 'v round list" where
  "matched_rounds rounds = takeWhile (\<lambda>r. ro_message r \<noteq> WalkEnded) rounds"

definition walk_ended :: "'v round list \<Rightarrow> bool" where
  "walk_ended rounds \<longleftrightarrow> (\<exists>r\<in>set rounds. ro_message r = WalkEnded)"

lemma admit_admitted:
  assumes "admit fail_fast rounds b admitted = (finished, admitted', b')" "ba_fatal b' = None" "\<not> ba_cancelled b'"
  shows "finished = walk_ended rounds \<and> length admitted' = length admitted + length (matched_rounds rounds)"
  using assms
proof (induction rounds arbitrary: b admitted)
  case Nil
  then show ?case by (simp add: walk_ended_def matched_rounds_def)
next
  case (Cons r rounds)
  let ?b = "b\<lparr> ba_cancelled := ba_cancelled b \<or> ro_cancel r \<rparr>"
  show ?case
  proof (cases "ro_message r")
    case WalkEnded
    then show ?thesis using Cons(2) by (simp add: Let_def walk_ended_def matched_rounds_def)
  next
    case (WalkFailed e)
    then show ?thesis using Cons(2,3) by (auto simp: Let_def)
  next
    case (Matched addr)
    have run: "\<not> ba_cancelled ?b" using Cons(2,4) Matched by (auto simp: Let_def split: if_splits)
    have g: "ro_permit r = Granted" using Cons(2,3,4) Matched run by (cases "ro_permit r") (auto simp: Let_def)
    let ?f = "fold (classify_joined fail_fast) (ro_reaped r) ?b"
    have "(if ba_fatal ?f \<noteq> None then (False, admitted, ?f) else admit fail_fast rounds ?f (admitted @ [addr])) = (finished, admitted', b')"
      using Cons(2) Matched g run by (simp add: Let_def)
    then have "admit fail_fast rounds ?f (admitted @ [addr]) = (finished, admitted', b')"
      using Cons(3) by (auto split: if_splits)
    then show ?thesis using Cons(1) Cons(3,4) Matched by (simp add: walk_ended_def matched_rounds_def)
  qed
qed

lemma first_fatal_none:
  assumes "first_fatal fail_fast js = None"
  shows "Panicked m \<notin> set js" and "fail_fast \<Longrightarrow> failed_of js = []"
proof -
  have "List.map_filter (fatal_of fail_fast) js = []" using assms by (auto simp: first_fatal_def split: list.splits)
  then have none: "fatal_of fail_fast j = None" if "j \<in> set js" for j using that by (auto simp: List.map_filter_def filter_empty_conv)
  show "Panicked m \<notin> set js" using none [of "Panicked m"] by (auto simp: fatal_of_def)
  show "failed_of js = []" if fail_fast
    using none that by (force simp: failed_of_def List.map_filter_def filter_empty_conv fatal_of_def split: joined.splits sum.splits)
qed

text \<open>The root and the contexts of an error; only one that says an entrypoint is not buildable is changed by
  naming the selection.\<close>

primrec frames_of :: "err \<Rightarrow> payload list" where
  "frames_of (Root p) = [p]"
| "frames_of (Context p e) = p # frames_of e"

lemma name_selection_other:
  assumes "\<And>addr selected. EntrypointNotBuildable addr selected \<notin> set (frames_of e)"
  shows "name_selection n e = e"
  using assms
proof (induction e rule: err.induct [where ?P1.0 = "\<lambda>_. True" and ?P2.0 = "\<lambda>_. True"])
  case (Root p)
  then show ?case by (cases p) auto
next
  case (Context p e)
  then show ?case by (cases p) auto
qed auto

text \<open>C17: A batch that reports results lost nothing: no task panicked, every result of a task that
  finished, while targets were still being admitted or after, is among the results in order, and the errors are
  exactly the failures that are not a cancellation, in order, with their addresses; a fail-fast batch has none.
  When the walk over the targets ended, each of these errors is as the task returned it except that an error
  which says an entrypoint is not buildable is told how many targets were admitted.\<close>

theorem batch_loses_nothing:
  assumes "result_batch fail_fast rounds walk_panic drained late_cancel = Ok (oks, errors)"
    and "js = concat (map ro_reaped (matched_rounds rounds)) @ drained"
  shows "(\<forall>m. Panicked m \<notin> set js) \<and> oks = ok_of js
    \<and> errors = (if walk_ended rounds then map (\<lambda>(a, e). (a, name_selection (length (matched_rounds rounds)) e)) (failed_of js) else failed_of js)
    \<and> (\<forall>a e. (a, e) \<in> set (failed_of js) \<and> (\<forall>addr selected. EntrypointNotBuildable addr selected \<notin> set (frames_of e)) \<longrightarrow> (a, e) \<in> set errors)
    \<and> (fail_fast \<longrightarrow> failed_of js = [])"
proof -
  let ?b0 = "\<lparr> ba_ok = [], ba_errors = [], ba_fatal = None, ba_cancelled = False \<rparr>"
  obtain finished admitted b1 where a: "admit fail_fast rounds ?b0 [] = (finished, admitted, b1)" by (metis prod_cases3)
  let ?panicked = "case walk_panic of
      Some m \<Rightarrow> if finished \<and> ba_fatal b1 = None
        then b1\<lparr> ba_fatal := Some (Context (Message (u ''matcher walk task panicked'')) (Root (Message m))), ba_cancelled := True \<rparr> else b1
    | None \<Rightarrow> b1"
  define b2 where "b2 = fold (classify_joined fail_fast) drained ?panicked"
  have out: "batch_outcome (b2\<lparr> ba_errors := (if finished then map (map_prod id (name_selection (length admitted))) (ba_errors b2) else ba_errors b2),
      ba_cancelled := ba_cancelled b2 \<or> late_cancel \<rparr>) = Ok (oks, errors)"
    using assms(1) unfolding result_batch_def a Let_def b2_def prod.case .
  then have b2: "ba_fatal b2 = None" "\<not> ba_cancelled b2" "oks = ba_ok b2"
      "errors = (if finished then map (map_prod id (name_selection (length admitted))) (ba_errors b2) else ba_errors b2)"
    by (auto simp: batch_outcome_def split: option.splits if_splits)
  have "ba_fatal ?panicked = None" using classify_joined_sticky(1) b2(1) unfolding b2_def by blast
  then have p: "?panicked = b1" by (auto split: option.splits if_splits)
  then have "ba_fatal b1 = None" "\<not> ba_cancelled b1" using \<open>ba_fatal ?panicked = None\<close> classify_joined_sticky(2) b2(2) unfolding b2_def by auto
  note quiet = this
  then have "b2 = fold (classify_joined fail_fast) js ?b0"
    using admit_uneventful [OF a] p assms(2) by (simp add: b2_def matched_rounds_def)
  then have all: "b2 = \<lparr> ba_ok = ok_of js, ba_errors = (if fail_fast then [] else failed_of js), ba_fatal = first_fatal fail_fast js,
       ba_cancelled = (False \<or> first_fatal fail_fast js \<noteq> None) \<rparr>"
    using batch_fold [of fail_fast js False] by simp
  have clean: "Panicked m \<notin> set js" "fail_fast \<Longrightarrow> failed_of js = []" for m
    using first_fatal_none [of fail_fast js] all b2(1) by auto
  then have e: "ba_errors b2 = failed_of js" using all by simp
  have "finished = walk_ended rounds \<and> length admitted = length (matched_rounds rounds)"
    using admit_admitted [OF a quiet] by simp
  then have errors: "errors = (if walk_ended rounds then map (\<lambda>(a, e). (a, name_selection (length (matched_rounds rounds)) e)) (failed_of js) else failed_of js)"
    using b2(4) e by (simp add: map_prod_def id_def)
  moreover have "(x, e) \<in> set errors"
    if "(x, e) \<in> set (failed_of js)" "\<forall>addr selected. EntrypointNotBuildable addr selected \<notin> set (frames_of e)" for x e
  proof -
    have "name_selection n e = e" for n using name_selection_other that(2) by blast
    then show ?thesis using imageI [OF that(1), of "\<lambda>(a, e). (a, name_selection (length (matched_rounds rounds)) e)"] that(1)
      unfolding errors by simp
  qed
  ultimately show ?thesis using clean all b2(3) by simp
qed

theorem batch_loses_nothing_witness:
  "result_batch False [\<lparr> ro_message = Matched sample_addr, ro_cancel = False, ro_permit = Granted, ro_reaped = [] \<rparr>,
       \<lparr> ro_message = WalkEnded, ro_cancel = False, ro_permit = Granted, ro_reaped = [] \<rparr>] None
       [Joined sample_addr (Ok (1 :: nat)), Joined sample_addr (Err (Root (EntrypointNotBuildable sample_addr None)))] False
     = Ok ([1], [(sample_addr, Root (EntrypointNotBuildable sample_addr (Some 1)))])"
proof -
  let ?js = "[Joined sample_addr (Ok (1 :: nat)), Joined sample_addr (Err (Root (EntrypointNotBuildable sample_addr None)))]"
  let ?rounds = "[\<lparr> ro_message = Matched sample_addr, ro_cancel = False, ro_permit = Granted, ro_reaped = [] \<rparr>,
       \<lparr> ro_message = WalkEnded, ro_cancel = False, ro_permit = Granted, ro_reaped = [] \<rparr>]"
  have c: "downcast_chain_ref as_cancelled (Root (EntrypointNotBuildable a None)) = None" for a
    by (simp add: downcast_chain_root as_shared_def as_cancelled_def)
  obtain oks errors where r: "result_batch False ?rounds None ?js False = Ok (oks, errors)"
    by (simp add: result_batch_def classify_joined_def batch_outcome_def c Let_def)
  have v: "ok_of ?js = [1]" "failed_of ?js = [(sample_addr, Root (EntrypointNotBuildable sample_addr None))]"
    "walk_ended ?rounds" "length (matched_rounds ?rounds) = 1" "concat (map ro_reaped (matched_rounds ?rounds)) = []"
    by (simp_all add: ok_of_def failed_of_def List.map_filter_simps c walk_ended_def matched_rounds_def)
  have "?js = concat (map ro_reaped (matched_rounds ?rounds)) @ ?js" unfolding v(5) by simp
  note b = batch_loses_nothing [OF r this]
  have "oks = [1]" using b unfolding v(1) by blast
  moreover have "errors = [(sample_addr, Root (EntrypointNotBuildable sample_addr (Some 1)))]"
    using conjunct1 [OF conjunct2 [OF conjunct2 [OF b]]] unfolding if_P [OF v(3)] v(2,4) by simp
  ultimately show ?thesis using r by simp
qed

end
